(* ===== verification/Prelude.thy ===== *)
theory Prelude
  imports Main "HOL-Library.Word" "HOL-Library.List_Lexorder" "HOL-Library.Sublist"
begin

text \<open>
  Vocabulary shared by every component theory of the development.

  \<^item> machine types of the Rust sources: \<open>u8\<close>, \<open>u32\<close>, \<open>u64\<close> and \<open>i64\<close>
    as words (an \<open>i64\<close> is read with \<^const>\<open>sint\<close>), byte strings as lists of bytes;
  \<^item> \<open>Result\<close> values as sums (\<^const>\<open>Inl\<close> carries the error) with the combinators
    that stand for \<open>?\<close>, \<open>ok_or\<close> and iteration with an early return;
  \<^item> big-endian byte representations of numbers with their round-trip, length and
    order lemmas;
  \<^item> the lexicographic order of byte strings (Rust's \<open>Ord\<close> for slices), UTF-8
    validation (\<open>String::from_utf8\<close>) and string literals as byte strings.
\<close>

section \<open>Machine types and named collections\<close>

type_synonym u8 = "8 word"
type_synonym u32 = "32 word"
type_synonym u64 = "64 word"
type_synonym i64 = "64 word"
type_synonym bytes = "u8 list"

named_theorems res_simps \<open>unfolding of the Result combinators\<close>
named_theorems be_simps \<open>big-endian byte representations\<close>

section \<open>Result values\<close>

definition res_bind :: "'e + 'a \<Rightarrow> ('a \<Rightarrow> 'e + 'b) \<Rightarrow> 'e + 'b" where
  "res_bind r f = (case r of Inl e \<Rightarrow> Inl e | Inr a \<Rightarrow> f a)"

definition ok_or :: "'e \<Rightarrow> 'a option \<Rightarrow> 'e + 'a" where
  "ok_or e x = (case x of None \<Rightarrow> Inl e | Some a \<Rightarrow> Inr a)"

definition map_err :: "('e \<Rightarrow> 'f) \<Rightarrow> 'e + 'a \<Rightarrow> 'f + 'a" where
  "map_err g r = (case r of Inl e \<Rightarrow> Inl (g e) | Inr a \<Rightarrow> Inr a)"

definition ensure :: "'e \<Rightarrow> bool \<Rightarrow> 'e + unit" where
  "ensure e b = (if b then Inr () else Inl e)"

definition is_ok :: "'e + 'a \<Rightarrow> bool" where
  "is_ok r = (case r of Inl _ \<Rightarrow> False | Inr _ \<Rightarrow> True)"

fun map_res :: "('a \<Rightarrow> 'e + 'b) \<Rightarrow> 'a list \<Rightarrow> 'e + 'b list" where
  "map_res f [] = Inr []"
| "map_res f (x # xs) = res_bind (f x) (\<lambda>y. res_bind (map_res f xs) (\<lambda>ys. Inr (y # ys)))"

fun fold_res :: "('a \<Rightarrow> 's \<Rightarrow> 'e + 's) \<Rightarrow> 'a list \<Rightarrow> 's \<Rightarrow> 'e + 's" where
  "fold_res f [] s = Inr s"
| "fold_res f (x # xs) s = res_bind (f x s) (fold_res f xs)"

lemma res_bind_simps [simp]:
  "res_bind (Inl e) f = Inl e"
  "res_bind (Inr a) f = f a"
  by (simp_all add: res_bind_def)

lemma res_bind_cong [fundef_cong]:
  assumes "r = r'" and "\<And>a. r' = Inr a \<Longrightarrow> f a = f' a"
  shows "res_bind r f = res_bind r' f'"
  using assms by (cases r') simp_all

lemma res_bind_Inr_iff:
  "res_bind r f = Inr b \<longleftrightarrow> (\<exists>a. r = Inr a \<and> f a = Inr b)"
  by (cases r) simp_all

lemma res_bind_Inl_iff:
  "res_bind r f = Inl e \<longleftrightarrow> r = Inl e \<or> (\<exists>a. r = Inr a \<and> f a = Inl e)"
  by (cases r) auto

lemma res_bind_InrE:
  assumes "res_bind r f = Inr b"
  obtains a where "r = Inr a" and "f a = Inr b"
  using assms by (auto simp: res_bind_Inr_iff)

lemma ok_or_simps [simp]:
  "ok_or e None = Inl e"
  "ok_or e (Some a) = Inr a"
  "ok_or e x = Inr a \<longleftrightarrow> x = Some a"
  "ok_or e x = Inl e' \<longleftrightarrow> x = None \<and> e' = e"
  by (auto simp: ok_or_def split: option.splits)

lemma map_err_simps [simp]:
  "map_err g (Inl e) = Inl (g e)"
  "map_err g (Inr a) = Inr a"
  "map_err g r = Inr a \<longleftrightarrow> r = Inr a"
  by (auto simp: map_err_def split: sum.splits)

lemma ensure_simps [simp]:
  "ensure e True = Inr ()"
  "ensure e False = Inl e"
  "ensure e b = Inr u \<longleftrightarrow> b"
  "ensure e b = Inl e' \<longleftrightarrow> \<not> b \<and> e' = e"
  by (auto simp: ensure_def)

lemma is_ok_simps [simp]:
  "is_ok (Inl e) = False"
  "is_ok (Inr a) = True"
  by (simp_all add: is_ok_def)

lemma is_ok_iff: "is_ok r \<longleftrightarrow> (\<exists>a. r = Inr a)"
  by (cases r) simp_all

lemmas [res_simps] = res_bind_def ok_or_def map_err_def ensure_def

lemma map_res_all_ok:
  assumes "\<And>x. x \<in> set xs \<Longrightarrow> f x = Inr (g x)"
  shows "map_res f xs = Inr (map g xs)"
  using assms by (induction xs) simp_all

lemma map_res_InrD:
  "map_res f xs = Inr ys \<Longrightarrow> list_all2 (\<lambda>x y. f x = Inr y) xs ys"
  by (induction xs arbitrary: ys) (auto simp: res_bind_Inr_iff)

lemma map_res_length: "map_res f xs = Inr ys \<Longrightarrow> length ys = length xs"
  by (drule map_res_InrD) (simp add: list_all2_lengthD)

lemma fold_res_invariant:
  assumes "fold_res f xs s = Inr s'" and "P s"
    and "\<And>x t t'. x \<in> set xs \<Longrightarrow> P t \<Longrightarrow> f x t = Inr t' \<Longrightarrow> P t'"
  shows "P s'"
  using assms by (induction xs arbitrary: s) (auto simp: res_bind_Inr_iff)

lemma fold_res_append:
  "fold_res f (xs @ ys) s = res_bind (fold_res f xs s) (fold_res f ys)"
  by (induction xs arbitrary: s) (auto simp: res_bind_def split: sum.splits)

section \<open>Big-endian numbers\<close>

primrec nat_be :: "nat \<Rightarrow> nat \<Rightarrow> bytes" where
  "nat_be 0 v = []"
| "nat_be (Suc n) v = of_nat (v div 256 ^ n) # nat_be n v"

definition be_nat :: "bytes \<Rightarrow> nat" where
  "be_nat bs = foldl (\<lambda>a b. a * 256 + unat b) 0 bs"

definition u64_to_be_bytes :: "u64 \<Rightarrow> bytes" where
  "u64_to_be_bytes w = nat_be 8 (unat w)"

definition u64_from_be_bytes :: "bytes \<Rightarrow> u64" where
  "u64_from_be_bytes bs = of_nat (be_nat bs)"

definition u32_to_be_bytes :: "u32 \<Rightarrow> bytes" where
  "u32_to_be_bytes w = nat_be 4 (unat w)"

definition u32_from_be_bytes :: "bytes \<Rightarrow> u32" where
  "u32_from_be_bytes bs = of_nat (be_nat bs)"

lemma length_nat_be [simp, be_simps]: "length (nat_be n v) = n"
  by (induction n) simp_all

lemma foldl_be_shift:
  "foldl (\<lambda>a b. a * 256 + unat b) c bs = c * 256 ^ length bs + be_nat bs"
proof (induction bs arbitrary: c)
  case Nil
  then show ?case by (simp add: be_nat_def)
next
  case (Cons b bs)
  have "be_nat (b # bs) = unat b * 256 ^ length bs + be_nat bs"
    using Cons.IH [of "unat b"] by (simp add: be_nat_def)
  then show ?case
    using Cons.IH [of "c * 256 + unat b"] by (simp add: algebra_simps)
qed

lemma be_nat_Nil [simp, be_simps]: "be_nat [] = 0"
  by (simp add: be_nat_def)

lemma be_nat_Cons [be_simps]:
  "be_nat (b # bs) = unat b * 256 ^ length bs + be_nat bs"
  using foldl_be_shift [of "unat b" bs] by (simp add: be_nat_def)

lemma unat_u8_less [simp]: "unat (b :: u8) < 256"
  using unsigned_less [of b] by simp

lemma be_nat_less: "be_nat bs < 256 ^ length bs"
proof (induction bs)
  case (Cons b bs)
  have "unat b * 256 ^ length bs + be_nat bs < (unat b + 1) * 256 ^ length bs"
    using Cons.IH by simp
  also have "\<dots> \<le> 256 * 256 ^ length bs"
    using unat_u8_less [of b] by (intro mult_right_mono) linarith+
  finally show ?case by (simp add: be_nat_Cons)
qed simp

lemma be_nat_nat_be: "be_nat (nat_be n v) = v mod 256 ^ n"
proof (induction n)
  case (Suc n)
  have "v mod 256 ^ Suc n = 256 ^ n * (v div 256 ^ n mod 256) + v mod 256 ^ n"
    by (metis mod_mult2_eq power_Suc2)
  with Suc show ?case
    by (simp add: be_nat_Cons unat_of_nat algebra_simps)
qed simp

lemma nat_be_mod: "nat_be n (v mod 256 ^ n) = nat_be n v"
proof -
  have "nat_be k (v mod 256 ^ n) = nat_be k v" if "k \<le> n" for k
    using that
  proof (induction k)
    case (Suc k)
    have "(v mod 256 ^ n) div 256 ^ k mod 256 = v div 256 ^ k mod 256"
    proof -
      obtain d where d: "n = Suc k + d"
        using Suc.prems by (metis le_Suc_ex)
      have "v mod 256 ^ n = 256 ^ k * (v div 256 ^ k mod 256 ^ Suc d) + v mod 256 ^ k"
        using mod_mult2_eq [of v "256 ^ k" "256 ^ Suc d"]
        by (simp add: d power_add algebra_simps)
      then have "(v mod 256 ^ n) div 256 ^ k = v div 256 ^ k mod 256 ^ Suc d"
        by simp
      then show ?thesis
        by (simp add: mod_mod_cancel)
    qed
    then have "(of_nat ((v mod 256 ^ n) div 256 ^ k) :: u8) = of_nat (v div 256 ^ k)"
      by (simp add: word_unat_eq_iff unat_of_nat)
    with Suc show ?case by simp
  qed simp
  then show ?thesis by simp
qed

lemma nat_be_be_nat: "nat_be (length bs) (be_nat bs) = bs"
proof (induction bs)
  case (Cons b bs)
  have "be_nat (b # bs) div 256 ^ length bs = unat b"
    using be_nat_less [of bs] by (simp add: be_nat_Cons)
  moreover have "nat_be (length bs) (be_nat (b # bs)) = nat_be (length bs) (be_nat bs)"
    using nat_be_mod [of "length bs" "be_nat (b # bs)"] nat_be_mod [of "length bs" "be_nat bs"]
    by (simp add: be_nat_Cons)
  ultimately show ?case using Cons by simp
qed simp

lemma nat_be_inject:
  assumes "v < 256 ^ n" and "w < 256 ^ n"
  shows "nat_be n v = nat_be n w \<longleftrightarrow> v = w"
  by (metis assms be_nat_nat_be mod_less)

lemma u64_from_to_be_bytes [simp, be_simps]: "u64_from_be_bytes (u64_to_be_bytes w) = w"
proof -
  have "unat w < 256 ^ 8"
    using unsigned_less [of w] by simp
  then show ?thesis
    by (simp add: u64_from_be_bytes_def u64_to_be_bytes_def be_nat_nat_be)
qed

lemma u64_to_from_be_bytes [be_simps]:
  assumes "length bs = 8"
  shows "u64_to_be_bytes (u64_from_be_bytes bs) = bs"
proof -
  have "unat (u64_from_be_bytes bs) = be_nat bs"
    using be_nat_less [of bs] assms
    by (simp add: u64_from_be_bytes_def unat_of_nat)
  then show ?thesis
    using nat_be_be_nat [of bs] assms by (simp add: u64_to_be_bytes_def)
qed

lemma u32_from_to_be_bytes [simp, be_simps]: "u32_from_be_bytes (u32_to_be_bytes w) = w"
proof -
  have "unat w < 256 ^ 4"
    using unsigned_less [of w] by simp
  then show ?thesis
    by (simp add: u32_from_be_bytes_def u32_to_be_bytes_def be_nat_nat_be)
qed

lemma u32_to_from_be_bytes [be_simps]:
  assumes "length bs = 4"
  shows "u32_to_be_bytes (u32_from_be_bytes bs) = bs"
proof -
  have "unat (u32_from_be_bytes bs) = be_nat bs"
    using be_nat_less [of bs] assms
    by (simp add: u32_from_be_bytes_def unat_of_nat)
  then show ?thesis
    using nat_be_be_nat [of bs] assms by (simp add: u32_to_be_bytes_def)
qed

lemma length_to_be_bytes [simp, be_simps]:
  "length (u64_to_be_bytes w) = 8"
  "length (u32_to_be_bytes v) = 4"
  by (simp_all add: u64_to_be_bytes_def u32_to_be_bytes_def)

section \<open>Signed reading of 64-bit words\<close>

lemma sint_i64:
  "sint (v :: i64) = (if unat v < 2 ^ 63 then int (unat v) else int (unat v) - 2 ^ 64)"
proof -
  have eq: "sint v = (int (unat v) + 2 ^ 63) mod 2 ^ 64 - 2 ^ 63"
    using int_word_sint [of "uint v", where 'a = 64] by simp
  obtain n where n: "n = unat v" "n < 2 ^ 64"
    using unsigned_less [of v, where 'a = nat] by simp
  show ?thesis
  proof (cases "n < 2 ^ 63")
    case True
    then show ?thesis unfolding eq n(1) [symmetric] by simp
  next
    case False
    then have "(int n + 2 ^ 63) mod 2 ^ 64 = int n + 2 ^ 63 - 2 ^ 64"
      using n(2) by (subst mod_pos_geq) simp_all
    with False show ?thesis unfolding eq n(1) [symmetric] by simp
  qed
qed

lemma sless_i64_nonneg: "0 <s (v :: i64) \<longleftrightarrow> 0 < unat v \<and> unat v < 2 ^ 63"
proof -
  obtain n where n: "n = unat v" "n < 2 ^ 64"
    using unsigned_less [of v, where 'a = nat] by simp
  then show ?thesis
    unfolding word_sless_alt sint_i64 n(1) [symmetric] by simp
qed

section \<open>Lexicographic order of byte strings\<close>

lemma less_append_same [simp]:
  "(xs @ ys < xs @ zs) = (ys < (zs :: 'a :: linorder list))"
  by (induction xs) simp_all

lemma less_append_iff:
  assumes "length xs = length (ys :: 'a :: linorder list)"
  shows "xs @ us < ys @ vs \<longleftrightarrow> xs < ys \<or> xs = ys \<and> us < vs"
  using assms by (induction xs ys rule: list_induct2) auto

lemma less_div_mod_iff:
  "v < (w :: nat) \<longleftrightarrow> v div p < w div p \<or> v div p = w div p \<and> v mod p < w mod p"
proof (cases "v div p = w div p")
  case True
  then show ?thesis
    using div_mult_mod_eq [of v p] div_mult_mod_eq [of w p] by (metis add_less_cancel_left less_irrefl)
next
  case False
  then show ?thesis
    by (metis div_le_mono leD leI le_neq_implies_less less_imp_le)
qed

lemma nat_be_less_iff:
  assumes "v < 256 ^ n" and "w < 256 ^ n"
  shows "nat_be n v < nat_be n w \<longleftrightarrow> v < w"
  using assms
proof (induction n arbitrary: v w)
  case (Suc n)
  let ?p = "256 ^ n :: nat"
  have bounds: "v div ?p < 256" "w div ?p < 256"
    using Suc.prems by (simp_all add: less_mult_imp_div_less)
  have head: "(of_nat (v div ?p) :: u8) < of_nat (w div ?p) \<longleftrightarrow> v div ?p < w div ?p"
    "(of_nat (v div ?p) :: u8) = of_nat (w div ?p) \<longleftrightarrow> v div ?p = w div ?p"
    using bounds by (simp_all add: word_less_nat_alt unat_of_nat word_unat_eq_iff)
  have tail: "nat_be n v < nat_be n w \<longleftrightarrow> v mod ?p < w mod ?p"
    using Suc.IH [of "v mod ?p" "w mod ?p"] by (simp add: nat_be_mod)
  have "v < w \<longleftrightarrow> v div ?p < w div ?p \<or> v div ?p = w div ?p \<and> v mod ?p < w mod ?p"
    by (rule less_div_mod_iff)
  then show ?case by (simp add: head tail)
qed simp

section \<open>Text\<close>

definition str :: "string \<Rightarrow> bytes" where
  "str s = map of_char s"

definition utf8_cont :: "u8 \<Rightarrow> bool" where
  "utf8_cont b \<longleftrightarrow> 0x80 \<le> b \<and> b \<le> 0xBF"

fun valid_utf8 :: "bytes \<Rightarrow> bool" where
  "valid_utf8 [] = True"
| "valid_utf8 (a # bs) =
    (if a \<le> 0x7F then valid_utf8 bs
     else if 0xC2 \<le> a \<and> a \<le> 0xDF then
       (case bs of b # r \<Rightarrow> utf8_cont b \<and> valid_utf8 r | _ \<Rightarrow> False)
     else if 0xE0 \<le> a \<and> a \<le> 0xEF then
       (case bs of b # c # r \<Rightarrow>
          (if a = 0xE0 then 0xA0 else 0x80) \<le> b \<and> b \<le> (if a = 0xED then 0x9F else 0xBF)
          \<and> utf8_cont c \<and> valid_utf8 r
        | _ \<Rightarrow> False)
     else if 0xF0 \<le> a \<and> a \<le> 0xF4 then
       (case bs of b # c # d # r \<Rightarrow>
          (if a = 0xF0 then 0x90 else 0x80) \<le> b \<and> b \<le> (if a = 0xF4 then 0x8F else 0xBF)
          \<and> utf8_cont c \<and> utf8_cont d \<and> valid_utf8 r
        | _ \<Rightarrow> False)
     else False)"

definition from_utf8 :: "bytes \<Rightarrow> bytes option" where
  "from_utf8 bs = (if valid_utf8 bs then Some bs else None)"

lemma from_utf8_Some [simp]: "from_utf8 bs = Some s \<longleftrightarrow> valid_utf8 bs \<and> s = bs"
  by (auto simp: from_utf8_def)

lemma valid_utf8_ascii:
  "(\<And>b. b \<in> set bs \<Longrightarrow> b \<le> 0x7F) \<Longrightarrow> valid_utf8 bs"
  by (induction bs) simp_all

section \<open>List operations of the Rust standard library\<close>

fun position :: "('a \<Rightarrow> bool) \<Rightarrow> 'a list \<Rightarrow> nat option" where
  "position P [] = None"
| "position P (x # xs) = (if P x then Some 0 else map_option Suc (position P xs))"

lemma position_Some:
  "position P xs = Some i \<Longrightarrow> i < length xs \<and> P (xs ! i) \<and> (\<forall>j<i. \<not> P (xs ! j))"
proof (induction xs arbitrary: i)
  case (Cons x xs)
  then show ?case
    by (cases i) (auto simp: less_Suc_eq_0_disj split: if_splits)
qed simp

lemma position_None: "position P xs = None \<longleftrightarrow> (\<forall>x\<in>set xs. \<not> P x)"
  by (induction xs) auto

lemma unat_of_char_u8: "unat (of_char c :: u8) = of_char c"
proof -
  have "(of_char c :: u8) = of_nat (of_char c)"
    by (cases c) simp
  moreover have "unat (of_nat (of_char c) :: u8) = of_char c"
    using nat_of_char_less_256 [of c] by (simp add: unat_of_nat)
  ultimately show ?thesis by simp
qed

lemma str_inject: "str s = str t \<longleftrightarrow> s = t"
proof -
  have "inj (of_char :: char \<Rightarrow> u8)"
    by (metis injI of_char_eq_iff unat_of_char_u8)
  then show ?thesis
    by (simp add: str_def inj_map_eq_map)
qed

end
