(* ===== verification/Tuple_Encoding.thy ===== *)
theory Tuple_Encoding
  imports Prelude
begin

text \<open>
  The FoundationDB-style tuple layer of \<open>backend/storage-encoding/src/tuple.rs\<close>.

  Every storage key of the system is the encoding of a tuple of typed elements.  The
  definitions follow the source function by function; an encoder takes the buffer it appends
  to, a decoder returns the element and the number of bytes it consumed.  Floating point
  values are kept as their IEEE 754 bit patterns, which is all the code looks at
  (\<open>to_bits\<close>, \<open>to_be_bytes\<close>, \<open>from_be_bytes\<close>).

  The lemmas show that decoding inverts encoding (with strings read back as byte strings),
  that the encoding is an order embedding of the tuple order \<open>tuple_less\<close> into the
  lexicographic order of byte strings, and which byte prefixes are tuple prefixes.
\<close>

unbundle bit_operations_syntax

section \<open>Data\<close>

definition NULL_CODE :: u8 where "NULL_CODE = 0x00"
definition BYTES_CODE :: u8 where "BYTES_CODE = 0x01"
definition INT_ZERO_CODE :: u8 where "INT_ZERO_CODE = 0x14"
definition POS_INT_END :: u8 where "POS_INT_END = 0x1c"
definition NEG_INT_START :: u8 where "NEG_INT_START = 0x0c"
definition FLOAT_CODE :: u8 where "FLOAT_CODE = 0x20"
definition DOUBLE_CODE :: u8 where "DOUBLE_CODE = 0x21"
definition BOOL_FALSE_CODE :: u8 where "BOOL_FALSE_CODE = 0x26"
definition BOOL_TRUE_CODE :: u8 where "BOOL_TRUE_CODE = 0x27"

lemmas code_defs = NULL_CODE_def BYTES_CODE_def INT_ZERO_CODE_def POS_INT_END_def
  NEG_INT_START_def FLOAT_CODE_def DOUBLE_CODE_def BOOL_FALSE_CODE_def BOOL_TRUE_CODE_def

datatype tuple_element =
    TNull
  | TBytes bytes
  | TString bytes
  | TInt i64
  | TFloat u32
  | TDouble u64
  | TBool bool

datatype decode_error = UnexpectedEnd | UnknownTypeCode u8 | UnterminatedString

section \<open>Encoding\<close>

fun encode_bytes_value :: "bytes \<Rightarrow> bytes \<Rightarrow> bytes" where
  "encode_bytes_value buf [] = buf"
| "encode_bytes_value buf (b # bs) =
    encode_bytes_value (if b = 0x00 then buf @ [b] @ [0xFF] else buf @ [b]) bs"

definition significant_bytes :: "bytes \<Rightarrow> nat" where
  "significant_bytes bs = 8 - (case position (\<lambda>b. b \<noteq> 0) bs of Some i \<Rightarrow> i | None \<Rightarrow> 7)"

definition unsigned_abs :: "i64 \<Rightarrow> u64" where
  "unsigned_abs v = of_int \<bar>sint v\<bar>"

definition encode_int :: "bytes \<Rightarrow> i64 \<Rightarrow> bytes" where
  "encode_int buf value =
    (if value = 0 then buf @ [INT_ZERO_CODE]
     else if 0 <s value then
       (let bs = u64_to_be_bytes value; n = significant_bytes bs
        in buf @ [INT_ZERO_CODE + of_nat n] @ drop (8 - n) bs)
     else
       (let abs_val = unsigned_abs value;
            n = significant_bytes (u64_to_be_bytes abs_val);
            comp_bytes = u64_to_be_bytes (NOT abs_val)
        in buf @ [INT_ZERO_CODE - of_nat n] @ drop (8 - n) comp_bytes))"

fun adjust_float_bytes :: "bytes \<Rightarrow> bool \<Rightarrow> bytes" where
  "adjust_float_bytes [] encode = []"
| "adjust_float_bytes (b # bs) encode =
    (if encode \<and> b AND 0x80 \<noteq> 0 \<or> \<not> encode \<and> b AND 0x80 = 0
     then map (\<lambda>x. x XOR 0xFF) (b # bs)
     else (b XOR 0x80) # bs)"

definition encode_float :: "bytes \<Rightarrow> u32 \<Rightarrow> bytes" where
  "encode_float buf value = buf @ [FLOAT_CODE] @ adjust_float_bytes (u32_to_be_bytes value) True"

definition encode_double :: "bytes \<Rightarrow> u64 \<Rightarrow> bytes" where
  "encode_double buf value = buf @ [DOUBLE_CODE] @ adjust_float_bytes (u64_to_be_bytes value) True"

fun encode_element :: "bytes \<Rightarrow> tuple_element \<Rightarrow> bytes" where
  "encode_element buf TNull = buf @ [NULL_CODE]"
| "encode_element buf (TBytes bs) = encode_bytes_value (buf @ [BYTES_CODE]) bs @ [0x00]"
| "encode_element buf (TString s) = encode_bytes_value (buf @ [BYTES_CODE]) s @ [0x00]"
| "encode_element buf (TInt i) = encode_int buf i"
| "encode_element buf (TFloat f) = encode_float buf f"
| "encode_element buf (TDouble d) = encode_double buf d"
| "encode_element buf (TBool b) = buf @ [if b then BOOL_TRUE_CODE else BOOL_FALSE_CODE]"

definition encode_tuple :: "tuple_element list \<Rightarrow> bytes" where
  "encode_tuple elements = foldl encode_element [] elements"

section \<open>Decoding\<close>

fun decode_bytes_value_from :: "bytes \<Rightarrow> nat \<Rightarrow> bytes \<Rightarrow> decode_error + bytes \<times> nat" where
  "decode_bytes_value_from result i [] = Inl UnterminatedString"
| "decode_bytes_value_from result i (b # bs) =
    (if b = 0x00 then
       (case bs of
          c # cs \<Rightarrow> if c = 0xFF then decode_bytes_value_from (result @ [0x00]) (i + 2) cs
                   else Inr (result, i + 1)
        | [] \<Rightarrow> Inr (result, i + 1))
     else decode_bytes_value_from (result @ [b]) (i + 1) bs)"

definition decode_bytes_value :: "bytes \<Rightarrow> decode_error + bytes \<times> nat" where
  "decode_bytes_value bs = decode_bytes_value_from [] 0 bs"

definition i64_MIN :: i64 where
  "i64_MIN = 0x8000000000000000"

definition decode_element :: "bytes \<Rightarrow> decode_error + tuple_element \<times> nat" where
  "decode_element bs = (case bs of
     [] \<Rightarrow> Inl UnexpectedEnd
   | code # rest \<Rightarrow>
      if code = NULL_CODE then Inr (TNull, 1)
      else if code = BYTES_CODE then
        res_bind (decode_bytes_value rest) (\<lambda>(data, consumed). Inr (TBytes data, 1 + consumed))
      else if code = INT_ZERO_CODE then Inr (TInt 0, 1)
      else if INT_ZERO_CODE < code \<and> code \<le> POS_INT_END then
        (let n = unat (code - INT_ZERO_CODE)
         in if length bs < 1 + n then Inl UnexpectedEnd
            else Inr (TInt (u64_from_be_bytes (replicate (8 - n) 0 @ take n rest)), 1 + n))
      else if NEG_INT_START \<le> code \<and> code < INT_ZERO_CODE then
        (let n = unat (INT_ZERO_CODE - code)
         in if length bs < 1 + n then Inl UnexpectedEnd
            else
              (let complement = u64_from_be_bytes (replicate (8 - n) 0xFF @ take n rest);
                   abs_val = NOT complement;
                   value = (if abs_val = push_bit 63 1 then i64_MIN else - abs_val)
               in Inr (TInt value, 1 + n)))
      else if code = FLOAT_CODE then
        (if length bs < 5 then Inl UnexpectedEnd
         else Inr (TFloat (u32_from_be_bytes (adjust_float_bytes (take 4 rest) False)), 5))
      else if code = DOUBLE_CODE then
        (if length bs < 9 then Inl UnexpectedEnd
         else Inr (TDouble (u64_from_be_bytes (adjust_float_bytes (take 8 rest) False)), 9))
      else if code = BOOL_FALSE_CODE then Inr (TBool False, 1)
      else if code = BOOL_TRUE_CODE then Inr (TBool True, 1)
      else Inl (UnknownTypeCode code))"

lemma decode_element_progress:
  "decode_element bs = Inr (e, n) \<Longrightarrow> bs \<noteq> [] \<and> 0 < n"
  by (auto simp: decode_element_def Let_def res_bind_Inr_iff split: list.splits if_splits)

function decode_tuple_from :: "tuple_element list \<Rightarrow> bytes \<Rightarrow> decode_error + tuple_element list" where
  "decode_tuple_from elements bs =
    (if bs = [] then Inr elements
     else res_bind (decode_element bs)
       (\<lambda>(elem, consumed). decode_tuple_from (elements @ [elem]) (drop consumed bs)))"
  by pat_completeness auto
termination
  by (relation "measure (length \<circ> snd)") (auto dest: decode_element_progress)

declare decode_tuple_from.simps [simp del]

definition decode_tuple :: "bytes \<Rightarrow> decode_error + tuple_element list" where
  "decode_tuple bs = decode_tuple_from [] bs"

section \<open>Appending form of the encoders\<close>

definition esc :: "bytes \<Rightarrow> bytes" where
  "esc bs = concat (map (\<lambda>b. if b = 0 then [0, 0xFF] else [b]) bs)"

abbreviation enc :: "tuple_element \<Rightarrow> bytes" where
  "enc e \<equiv> encode_element [] e"

lemma esc_simps [simp]:
  "esc [] = []"
  "esc (b # bs) = (if b = 0 then 0 # 0xFF # esc bs else b # esc bs)"
  "esc (xs @ ys) = esc xs @ esc ys"
  by (simp_all add: esc_def)

lemma encode_bytes_value_esc: "encode_bytes_value buf bs = buf @ esc bs"
  by (induction bs arbitrary: buf) simp_all

lemma encode_int_append: "encode_int buf v = buf @ encode_int [] v"
  by (simp add: encode_int_def Let_def)

lemma encode_element_append: "encode_element buf e = buf @ enc e"
  by (cases e) (simp_all add: encode_bytes_value_esc encode_float_def encode_double_def
      encode_int_append [of buf])

lemma foldl_encode_element: "foldl encode_element buf es = buf @ concat (map enc es)"
proof (induction es arbitrary: buf)
  case (Cons e es)
  then show ?case
    using encode_element_append [of buf e] by simp
qed simp

lemma encode_tuple_concat: "encode_tuple es = concat (map enc es)"
  by (simp add: encode_tuple_def foldl_encode_element)

lemma encode_tuple_simps [simp]:
  "encode_tuple [] = []"
  "encode_tuple (e # es) = enc e @ encode_tuple es"
  "encode_tuple (xs @ ys) = encode_tuple xs @ encode_tuple ys"
  by (simp_all add: encode_tuple_concat)

section \<open>Significant bytes\<close>

lemma drop_nat_be: "drop k (nat_be n v) = nat_be (n - k) v"
proof (induction n arbitrary: k)
  case (Suc n)
  then show ?case by (cases k) simp_all
qed simp

lemma be_nat_append: "be_nat (xs @ ys) = be_nat xs * 256 ^ length ys + be_nat ys"
  by (induction xs) (simp_all add: be_nat_Cons power_add algebra_simps)

lemma be_nat_replicate_0 [simp]: "be_nat (replicate k 0) = 0"
  by (induction k) (simp_all add: be_nat_Cons)

lemma be_nat_replicate_FF: "be_nat (replicate k 0xFF) = 256 ^ k - 1"
proof (induction k)
  case (Suc k)
  have "(1::nat) \<le> 256 ^ k" by simp
  then show ?case using Suc by (simp add: be_nat_Cons)
qed simp

lemma significant_bytes_be:
  assumes v: "0 < v" "v < 256 ^ 8"
  defines "n \<equiv> significant_bytes (nat_be 8 v)"
  shows "0 < n \<and> n \<le> 8 \<and> 256 ^ (n - 1) \<le> v \<and> v < 256 ^ n"
proof -
  let ?bs = "nat_be 8 v"
  have be: "be_nat ?bs = v"
    using v by (simp add: be_nat_nat_be del: nat_be.simps)
  obtain i where i: "position (\<lambda>b. b \<noteq> 0) ?bs = Some i"
  proof (cases "position (\<lambda>b. b \<noteq> 0) ?bs")
    case None
    then have "\<forall>x\<in>set ?bs. x = 0"
      by (simp add: position_None del: nat_be.simps)
    then have "?bs = replicate 8 0"
      by (metis length_nat_be replicate_eqI)
    with be v show ?thesis
      by (metis be_nat_replicate_0 less_irrefl)
  qed
  from position_Some [OF i] have i8: "i < 8" and nz: "?bs ! i \<noteq> 0" and z: "\<forall>j<i. ?bs ! j = 0"
    by (simp_all del: nat_be.simps)
  have tk: "take i ?bs = replicate i 0"
    by (rule nth_equalityI) (use i8 z in \<open>simp_all del: nat_be.simps\<close>)
  have "v = be_nat (take i ?bs) * 256 ^ length (drop i ?bs) + be_nat (drop i ?bs)"
    using be be_nat_append [of "take i ?bs" "drop i ?bs"]
    by (simp only: append_take_drop_id)
  then have vdrop: "v = be_nat (drop i ?bs)"
    by (simp only: tk be_nat_replicate_0 mult_0 add_0)
  also have "drop i ?bs = ?bs ! i # drop (Suc i) ?bs"
    using i8 by (simp add: Cons_nth_drop_Suc del: nat_be.simps)
  finally have veq: "v = unat (?bs ! i) * 256 ^ (7 - i) + be_nat (drop (Suc i) ?bs)"
    by (simp add: be_nat_Cons del: nat_be.simps)
  have "0 < unat (?bs ! i)"
    using nz by (simp add: unat_gt_0 del: nat_be.simps)
  then have "256 ^ (7 - i) \<le> unat (?bs ! i) * 256 ^ (7 - i)"
    by (metis One_nat_def Suc_leI mult_1 mult_le_mono1)
  then have lo: "256 ^ (7 - i) \<le> v"
    using veq by linarith
  have hi: "v < 256 ^ (8 - i)"
    using be_nat_less [of "drop i ?bs"] vdrop
    by (simp del: nat_be.simps)
  have "n = 8 - i"
    using i by (simp add: n_def significant_bytes_def)
  with i8 lo hi show ?thesis by simp
qed

lemma unat_less_256_8: "unat (w :: u64) < 256 ^ 8"
  using unsigned_less [of w] by simp

lemma unat_NOT_u64: "unat (NOT w :: u64) = 2 ^ 64 - 1 - unat w"
proof -
  have "NOT w = of_nat (2 ^ 64 - 1 - unat w)"
  proof -
    have "unat w \<le> 2 ^ 64 - 1"
      using unat_less_256_8 [of w] by simp
    then have "(of_nat (2 ^ 64 - 1 - unat w) :: u64) = of_nat (2 ^ 64 - 1) - of_nat (unat w)"
      by (rule of_nat_diff)
    then show ?thesis by (simp add: not_eq_complement)
  qed
  then show ?thesis
    by (simp add: unat_of_nat)
qed

section \<open>Integers\<close>

definition byte_len :: "nat \<Rightarrow> nat" where
  "byte_len v = significant_bytes (nat_be 8 v)"

lemma byte_len_bounds:
  assumes "0 < v" "v < 256 ^ 8"
  shows "0 < byte_len v" "byte_len v \<le> 8" "256 ^ (byte_len v - 1) \<le> v" "v < 256 ^ byte_len v"
  using significant_bytes_be [OF assms] by (simp_all add: byte_len_def)

lemma byte_len_mono:
  assumes "0 < v" "v \<le> w" "w < 256 ^ 8"
  shows "byte_len v \<le> byte_len w"
proof -
  have "(256 :: nat) ^ (byte_len v - 1) < 256 ^ byte_len w"
    using byte_len_bounds(3) [of v] byte_len_bounds(4) [of w] assms by linarith
  then have "byte_len v - 1 < byte_len w"
    by (simp add: power_strict_increasing_iff)
  then show ?thesis by linarith
qed

lemma encode_int_pos:
  assumes "0 <s v"
  shows "encode_int [] v = (0x14 + of_nat (byte_len (unat v))) # nat_be (byte_len (unat v)) (unat v)"
proof -
  have "v \<noteq> 0" using assms by auto
  then have "0 < unat v" by (simp add: unat_gt_0)
  then have "byte_len (unat v) \<le> 8"
    using byte_len_bounds(2) unat_less_256_8 by blast
  then show ?thesis
    using assms \<open>v \<noteq> 0\<close>
    by (simp add: encode_int_def Let_def u64_to_be_bytes_def drop_nat_be code_defs
        flip: byte_len_def del: nat_be.simps)
qed

lemma unat_unsigned_abs: "unat (unsigned_abs v) = nat \<bar>sint v\<bar>"
proof -
  have "- (2 ^ 63) \<le> sint v" "sint v < 2 ^ 63"
    using sint_greater_eq [of v] sint_less [of v] by simp_all
  then have "nat \<bar>sint v\<bar> < 2 ^ 64"
    by simp
  then show ?thesis
    by (simp add: unsigned_abs_def unsigned_of_int take_bit_int_eq_self)
qed

lemma encode_int_neg:
  assumes "v <s 0"
  defines "a \<equiv> nat (- sint v)"
  shows "encode_int [] v =
    (0x14 - of_nat (byte_len a)) # nat_be (byte_len a) (256 ^ byte_len a - Suc a)"
    and "0 < a" and "a < 256 ^ 8"
proof -
  have neg: "v \<noteq> 0" "\<not> 0 <s v" "sint v < 0"
    using assms by (auto simp: word_sless_alt)
  have a: "unat (unsigned_abs v) = a"
    using neg by (simp add: unat_unsigned_abs a_def)
  show pos: "0 < a" using neg by (simp add: a_def)
  show lt: "a < 256 ^ 8"
    using unat_less_256_8 [of "unsigned_abs v"] a by simp
  note bl = byte_len_bounds [OF pos lt]
  have split8: "(256 :: nat) ^ 8 = 256 ^ byte_len a * 256 ^ (8 - byte_len a)"
    using bl(2) by (simp flip: power_add)
  have "(2 ^ 64 - 1 - a) mod 256 ^ byte_len a = 256 ^ byte_len a - Suc a"
  proof -
    have "2 ^ 64 - 1 - a
        = 256 ^ byte_len a * (256 ^ (8 - byte_len a) - 1) + (256 ^ byte_len a - Suc a)"
    proof -
      have "256 ^ byte_len a \<le> (256 ^ 8 :: nat)"
        using bl(2) by (intro power_increasing) simp_all
      with bl(4) split8 show ?thesis by (simp add: right_diff_distrib')
    qed
    then show ?thesis by simp
  qed
  then have "nat_be (byte_len a) (2 ^ 64 - 1 - a) = nat_be (byte_len a) (256 ^ byte_len a - Suc a)"
    by (metis nat_be_mod)
  then show "encode_int [] v =
    (0x14 - of_nat (byte_len a)) # nat_be (byte_len a) (256 ^ byte_len a - Suc a)"
    using neg bl(2)
    by (simp add: encode_int_def Let_def u64_to_be_bytes_def drop_nat_be code_defs unat_NOT_u64 a
        flip: byte_len_def del: nat_be.simps)
qed

section \<open>Floating point\<close>

lemma u8_flip:
  "(b XOR 0xFF) XOR 0xFF = (b :: u8)"
  "(b XOR 0x80) XOR 0x80 = b"
  by (simp_all add: xor.assoc)

lemma bit_u8_7: "bit (b :: u8) 7 \<longleftrightarrow> 128 \<le> unat b"
proof -
  have "bit b 7 \<longleftrightarrow> odd (unat b div 2 ^ 7)"
    using bit_unsigned_iff [of b 7, where 'a = nat] by (simp add: bit_iff_odd [of "unat b"])
  moreover have "unat b div 128 = 0 \<or> unat b div 128 = 1"
    using unat_u8_less [of b] by linarith
  ultimately show ?thesis using unat_u8_less [of b] by auto
qed

lemma u8_sign:
  "b AND 0x80 = 0 \<longleftrightarrow> unat (b :: u8) < 128"
  "unat (b XOR 0xFF) = 255 - unat b"
  "unat (b XOR 0x80) = (if unat b < 128 then unat b + 128 else unat b - 128)"
proof -
  show "b AND 0x80 = 0 \<longleftrightarrow> unat (b :: u8) < 128"
    using and_exp_eq_0_iff_not_bit [of b 7] by (simp add: bit_u8_7 not_le)
  have "b XOR - 1 = - 1 - b"
    by (simp add: not_eq_complement)
  moreover have "(- 1 :: u8) = 0xFF"
    by simp
  ultimately have "b XOR 0xFF = 0xFF - b"
    by (simp only:)
  then show "unat (b XOR 0xFF) = 255 - unat b"
    using unat_sub [of b "0xFF"] unat_u8_less [of b] by (simp add: word_le_nat_alt)
  have "b XOR 0x80 = flip_bit 7 b"
    by (simp add: flip_bit_eq_xor push_bit_eq_mult)
  then show "unat (b XOR 0x80) = (if unat b < 128 then unat b + 128 else unat b - 128)"
    by (auto simp: flip_bit_eq_if set_bit_eq unset_bit_eq bit_u8_7 unat_word_ariths unat_sub word_le_nat_alt)
qed

lemma adjust_float_bytes_inverse: "adjust_float_bytes (adjust_float_bytes bs True) False = bs"
  by (cases bs) (auto simp: u8_sign u8_flip o_def)

lemma length_adjust_float_bytes [simp]: "length (adjust_float_bytes bs e) = length bs"
  by (cases bs) simp_all

lemma be_nat_flip: "be_nat (map (\<lambda>x. x XOR 0xFF) bs) = 256 ^ length bs - 1 - be_nat bs"
proof (induction bs)
  case (Cons b bs)
  have "be_nat bs < 256 ^ length bs" by (rule be_nat_less)
  moreover have "unat b * 256 ^ length bs \<le> 255 * 256 ^ length bs"
    using unat_u8_less [of b] by (intro mult_right_mono) linarith+
  ultimately show ?case
    using Cons by (simp add: be_nat_Cons u8_sign diff_mult_distrib)
qed simp

definition float_ord :: "nat \<Rightarrow> nat \<Rightarrow> nat" where
  "float_ord k v = (if 2 * v < 256 ^ k then v + 256 ^ k div 2 else 256 ^ k - 1 - v)"

lemma half_range: "m \<le> 127 * p \<Longrightarrow> c < p \<Longrightarrow> 2 * (m + c) < 256 * (p :: nat)"
  by simp

lemma upper_half: "128 * p \<le> m \<Longrightarrow> 256 * p \<le> 2 * (m + c :: nat)"
  by simp

lemma be_nat_adjust:
  assumes "bs \<noteq> []"
  shows "be_nat (adjust_float_bytes bs True) = float_ord (length bs) (be_nat bs)"
proof -
  obtain b cs where bs: "bs = b # cs" using assms by (cases bs) auto
  have cs: "be_nat cs < 256 ^ length cs" by (rule be_nat_less)
  show ?thesis
  proof (cases "unat b < 128")
    case True
    then have "unat b * 256 ^ length cs \<le> 127 * 256 ^ length cs"
      by (intro mult_right_mono) linarith+
    from this cs have small: "2 * be_nat bs < 256 ^ length bs"
      unfolding bs be_nat_Cons length_Cons power_Suc by (intro half_range)
    show ?thesis
      using True by (simp add: float_ord_def small) (simp add: bs be_nat_Cons u8_sign algebra_simps)
  next
    case False
    then have "128 * 256 ^ length cs \<le> unat b * 256 ^ length cs"
      by (intro mult_right_mono) linarith+
    then have big: "\<not> 2 * be_nat bs < 256 ^ length bs"
      unfolding bs be_nat_Cons length_Cons power_Suc not_less by (rule upper_half)
    have "adjust_float_bytes bs True = map (\<lambda>x. x XOR 0xFF) bs"
      using False by (simp add: bs u8_sign)
    then show ?thesis
      using be_nat_flip [of bs] big by (simp add: float_ord_def)
  qed
qed

section \<open>Decoding inverts encoding\<close>

fun bytes_form :: "tuple_element \<Rightarrow> tuple_element" where
  "bytes_form (TString s) = TBytes s"
| "bytes_form e = e"

definition no_FF :: "bytes \<Rightarrow> bool" where
  "no_FF r \<longleftrightarrow> (case r of [] \<Rightarrow> True | b # _ \<Rightarrow> b < 0xFF)"

lemma upto8: "0 < n \<Longrightarrow> n \<le> 8 \<Longrightarrow> n \<in> {1, 2, 3, 4, 5, 6, 7, 8 :: nat}"
  by auto

lemma pos_code:
  assumes "0 < n" "n \<le> 8"
  defines "c \<equiv> 0x14 + of_nat n :: u8"
  shows "c \<noteq> 0" "c \<noteq> 1" "c \<noteq> 0x14" "0x14 < c" "c \<le> 0x1c" "unat (c - 0x14) = n" "unat c = 20 + n"
  using upto8 [OF assms(1,2)] by (auto simp: c_def)

lemma neg_code:
  assumes "0 < n" "n \<le> 8"
  defines "c \<equiv> 0x14 - of_nat n :: u8"
  shows "c \<noteq> 0" "c \<noteq> 1" "c \<noteq> 0x14" "\<not> 0x14 < c" "0x0c \<le> c" "c < 0x14"
    "unat (0x14 - c) = n" "unat c = 20 - n"
  using upto8 [OF assms(1,2)] by (auto simp: c_def)

lemma decode_bytes_value_esc:
  assumes "no_FF r"
  shows "decode_bytes_value_from res i (esc bs @ 0 # r) = Inr (res @ bs, i + length (esc bs) + 1)"
proof (induction bs arbitrary: res i)
  case Nil
  show ?case
    using assms by (auto simp: no_FF_def split: list.splits)
qed auto

lemma from_be_pad_0:
  assumes "n \<le> 8" "unat v < 256 ^ n"
  shows "u64_from_be_bytes (replicate (8 - n) 0 @ nat_be n (unat v)) = v"
  using assms by (simp add: u64_from_be_bytes_def be_nat_append be_nat_nat_be)

lemma from_be_pad_FF:
  assumes "n \<le> 8" "a < 256 ^ n"
  shows "NOT (u64_from_be_bytes (replicate (8 - n) 0xFF @ nat_be n (256 ^ n - Suc a))) = of_nat a"
proof -
  have pow: "(256 :: nat) ^ (8 - n) * 256 ^ n = 2 ^ 64" "(256 :: nat) ^ n \<le> 2 ^ 64"
    using assms(1) power_increasing [of n 8 "256 :: nat"] by (simp_all flip: power_add)
  have "be_nat (replicate (8 - n) 0xFF @ nat_be n (256 ^ n - Suc a))
      = (256 ^ (8 - n) - 1) * 256 ^ n + (256 ^ n - Suc a)"
    using assms by (simp add: be_nat_append be_nat_nat_be be_nat_replicate_FF)
  also have "\<dots> = 2 ^ 64 - Suc a"
    using pow assms(2) by (simp add: diff_mult_distrib)
  finally have "u64_from_be_bytes (replicate (8 - n) 0xFF @ nat_be n (256 ^ n - Suc a))
      = of_nat (2 ^ 64 - Suc a)"
    by (simp add: u64_from_be_bytes_def)
  also have "\<dots> = of_nat (2 ^ 64) - of_nat (Suc a)"
    using assms(2) pow(2) by (intro of_nat_diff) linarith
  finally show ?thesis
    by (simp add: not_eq_complement)
qed

lemma i64_sign_cases:
  obtains "v = 0" | "0 <s (v :: i64)" | "v <s 0"
proof -
  have "sint v = 0 \<longleftrightarrow> v = 0"
    using signed_word_eqI [of v 0] by auto
  then show ?thesis
    using that by (auto simp: word_sless_alt) linarith
qed

lemma decode_element_int:
  "decode_element (encode_int [] v @ r) = Inr (TInt v, length (encode_int [] v))"
proof -
  consider "v = 0" | "0 <s v" | "v <s 0"
    by (rule i64_sign_cases)
  then show ?thesis
  proof cases
    case 1
    then show ?thesis
      by (simp add: encode_int_def decode_element_def code_defs)
  next
    case 2
    let ?n = "byte_len (unat v)"
    have "0 < unat v" using 2 by (simp add: sless_i64_nonneg)
    note bl = byte_len_bounds [OF this unat_less_256_8]
    obtain c :: u8 where c: "c = 0x14 + of_nat ?n" by simp
    note code = pos_code [OF bl(1,2), folded c]
    show ?thesis
      unfolding encode_int_pos [OF 2, folded c]
      by (simp add: decode_element_def code_defs code Let_def
          from_be_pad_0 [OF bl(2,4)] del: nat_be.simps)
  next
    case 3
    define a where "a = nat (- sint v)"
    note enc = encode_int_neg [OF 3, folded a_def]
    note bl = byte_len_bounds [OF enc(2,3)]
    have neg: "sint v < 0" using 3 by (simp add: word_sless_alt)
    have "(of_nat a :: i64) = - v"
      using neg by (simp add: a_def)
    then have val: "(of_nat a :: u64) = push_bit 63 1 \<Longrightarrow> i64_MIN = v" "- (of_nat a :: u64) = v"
      by (auto simp: i64_MIN_def minus_equation_iff [of v])
    obtain c :: u8 where c: "c = 0x14 - of_nat (byte_len a)" by simp
    note code = neg_code [OF bl(1,2), folded c]
    show ?thesis
      unfolding enc(1) [folded c]
      by (simp add: decode_element_def code_defs code Let_def
          from_be_pad_FF [OF bl(2,4)] val del: nat_be.simps push_bit_of_1 push_bit_of_Suc_0)
  qed
qed

lemma u32_be_nonempty [simp]: "u32_to_be_bytes w \<noteq> []" "u64_to_be_bytes v \<noteq> []"
  by (metis length_to_be_bytes list.size(3) zero_neq_numeral)+

lemma decode_element_enc:
  assumes "no_FF r"
  shows "decode_element (enc e @ r) = Inr (bytes_form e, length (enc e))"
proof (cases e)
  case (TInt v)
  then show ?thesis using decode_element_int by simp
qed (simp_all add: decode_element_def code_defs decode_bytes_value_def encode_bytes_value_esc
    decode_bytes_value_esc [OF assms] encode_float_def encode_double_def
    adjust_float_bytes_inverse)

lemma enc_head: "\<exists>c cs. enc e = c # cs \<and> c < 0xFF"
proof (cases e)
  case (TInt v)
  consider "v = 0" | "0 <s v" | "v <s 0"
    by (rule i64_sign_cases)
  then show ?thesis
  proof cases
    case 2
    then have "0 < unat v" by (simp add: sless_i64_nonneg)
    note bl = byte_len_bounds [OF this unat_less_256_8]
    then show ?thesis
      using TInt encode_int_pos [OF 2] pos_code(5) [OF bl(1,2)] by (auto simp: word_less_nat_alt word_le_nat_alt)
  next
    case 3
    note enc = encode_int_neg [OF 3]
    note bl = byte_len_bounds [OF enc(2,3)]
    then show ?thesis
      using TInt enc(1) neg_code(6) [OF bl(1,2)] by (auto simp: word_less_nat_alt)
  qed (simp add: TInt encode_int_def code_defs)
qed (simp_all add: code_defs encode_bytes_value_esc encode_float_def encode_double_def)

lemma no_FF_encode_tuple: "no_FF (encode_tuple es)"
proof (cases es)
  case (Cons e es')
  then show ?thesis using enc_head [of e] by (auto simp: no_FF_def)
qed (simp add: no_FF_def)

lemma decode_tuple_from_encode: "decode_tuple_from acc (encode_tuple es) = Inr (acc @ map bytes_form es)"
proof (induction es arbitrary: acc)
  case Nil
  show ?case by (simp add: decode_tuple_from.simps)
next
  case (Cons e es)
  have "enc e \<noteq> []" using enc_head [of e] by auto
  then show ?case
    using Cons.IH decode_element_enc [OF no_FF_encode_tuple, of e es]
    by (simp add: decode_tuple_from.simps [of _ "enc e @ encode_tuple es"])
qed

section \<open>The tuple order\<close>

text \<open>
  The order the tuple layer promises: elements of different types by the rank of their type,
  byte strings lexicographically, integers by their signed value, floats by the sign-magnitude
  total order of IEEE 754 bit patterns, \<open>false\<close> before \<open>true\<close>; tuples lexicographically.
\<close>

definition ieee_key :: "nat \<Rightarrow> nat \<Rightarrow> int" where
  "ieee_key k v = (if 2 * v < 256 ^ k then int v else - 1 - (int v - 256 ^ k div 2))"

fun elem_rank :: "tuple_element \<Rightarrow> nat" where
  "elem_rank TNull = 0"
| "elem_rank (TBytes _) = 1"
| "elem_rank (TString _) = 1"
| "elem_rank (TInt _) = 2"
| "elem_rank (TFloat _) = 3"
| "elem_rank (TDouble _) = 4"
| "elem_rank (TBool _) = 5"

fun same_rank_less :: "tuple_element \<Rightarrow> tuple_element \<Rightarrow> bool" where
  "same_rank_less (TBytes a) (TBytes b) = (a < b)"
| "same_rank_less (TInt a) (TInt b) = (sint a < sint b)"
| "same_rank_less (TFloat a) (TFloat b) = (ieee_key 4 (unat a) < ieee_key 4 (unat b))"
| "same_rank_less (TDouble a) (TDouble b) = (ieee_key 8 (unat a) < ieee_key 8 (unat b))"
| "same_rank_less (TBool a) (TBool b) = (\<not> a \<and> b)"
| "same_rank_less _ _ = False"

definition elem_less :: "tuple_element \<Rightarrow> tuple_element \<Rightarrow> bool" where
  "elem_less a b \<longleftrightarrow> elem_rank a < elem_rank b \<or> same_rank_less (bytes_form a) (bytes_form b)"

fun tuple_less :: "tuple_element list \<Rightarrow> tuple_element list \<Rightarrow> bool" where
  "tuple_less _ [] = False"
| "tuple_less [] (_ # _) = True"
| "tuple_less (x # xs) (y # ys) =
    (elem_less x y \<or> bytes_form x = bytes_form y \<and> tuple_less xs ys)"

lemma esc_less:
  assumes "a < b" "no_FF r"
  shows "esc a @ 0 # r < esc b @ 0 # s"
  using assms(1)
proof (induction a arbitrary: b)
  case Nil
  then obtain c b' where "b = c # b'" by (cases b) auto
  then show ?case
    using assms(2) by (auto simp: no_FF_def word_gt_0 split: list.splits)
next
  case (Cons c a)
  then obtain d b' where b: "b = d # b'" by (cases b) auto
  with Cons show ?case
    by (auto simp: word_gt_0)
qed

lemma nat_be_append_less:
  assumes "v < w" "w < 256 ^ n"
  shows "nat_be n v @ r < nat_be n w @ s"
  using assms nat_be_less_iff [of v n w] by (simp add: less_append_iff)

lemma float_ord_key:
  assumes "0 < k" "v < 256 ^ k"
  shows "int (float_ord k v) = ieee_key k v + 256 ^ k div 2"
    and "float_ord k v < 256 ^ k"
proof -
  obtain j where "(256 :: nat) ^ k = 2 * j"
    using assms(1) by (cases k) auto
  moreover from this have "(256 :: int) ^ k = 2 * int j"
    by (metis of_nat_mult of_nat_numeral of_nat_power)
  ultimately show "int (float_ord k v) = ieee_key k v + 256 ^ k div 2"
    and "float_ord k v < 256 ^ k"
    using assms(2) by (auto simp: float_ord_def ieee_key_def)
qed

lemma adjust_float_less:
  assumes "ieee_key (length bs) (be_nat bs) < ieee_key (length cs) (be_nat cs)"
    and "length bs = length cs" "bs \<noteq> []"
  shows "adjust_float_bytes bs True @ r < adjust_float_bytes cs True @ s"
proof -
  let ?k = "length bs"
  have k: "0 < ?k" "cs \<noteq> []" using assms(2,3) by auto
  have cs: "be_nat cs < 256 ^ ?k"
    using be_nat_less [of cs] assms(2) by simp
  have "float_ord ?k (be_nat bs) < float_ord ?k (be_nat cs)"
    using float_ord_key(1) [OF k(1) be_nat_less] float_ord_key(1) [OF k(1) cs] assms by simp
  then have "nat_be ?k (float_ord ?k (be_nat bs)) @ r < nat_be ?k (float_ord ?k (be_nat cs)) @ s"
    by (rule nat_be_append_less) (use float_ord_key(2) [OF k(1) cs] in simp)
  moreover have "nat_be ?k (float_ord ?k (be_nat bs)) = adjust_float_bytes bs True"
    "nat_be ?k (float_ord ?k (be_nat cs)) = adjust_float_bytes cs True"
    using nat_be_be_nat [of "adjust_float_bytes bs True"] nat_be_be_nat [of "adjust_float_bytes cs True"]
      be_nat_adjust [OF assms(3)] be_nat_adjust [OF k(2)] assms(2)
    by simp_all
  ultimately show ?thesis by simp
qed

lemma be_nat_to_be_bytes [simp]:
  "be_nat (u64_to_be_bytes v) = unat v"
  "be_nat (u32_to_be_bytes w) = unat w"
  using unat_less_256_8 [of v] unsigned_less [of w, where 'a = nat]
  by (simp_all add: u64_to_be_bytes_def u32_to_be_bytes_def be_nat_nat_be del: nat_be.simps)

lemma encode_int_code:
  obtains "v = 0" "encode_int [] v = [0x14]"
  | n c where "0 <s v" "encode_int [] v = c # nat_be n (unat v)" "n = byte_len (unat v)"
      "unat c = 20 + n" "0 < n" "n \<le> 8" "unat v < 256 ^ n" "sint v = int (unat v)" "0 < unat v"
  | n c a where "v <s 0" "encode_int [] v = c # nat_be n (256 ^ n - Suc a)" "n = byte_len a"
      "unat c = 20 - n" "0 < n" "n \<le> 8" "a < 256 ^ n" "sint v = - int a" "0 < a"
proof (cases v rule: i64_sign_cases)
  case 1
  then show ?thesis using that(1) by (simp add: encode_int_def code_defs)
next
  case 2
  then have v: "0 < unat v" "sint v = int (unat v)" by (simp_all add: sless_i64_nonneg sint_i64)
  note bl = byte_len_bounds [OF v(1) unat_less_256_8]
  show ?thesis
    by (rule that(2)) (use 2 v bl encode_int_pos [OF 2] pos_code(7) [OF bl(1,2)] in simp_all)
next
  case 3
  note e = encode_int_neg [OF 3]
  note bl = byte_len_bounds [OF e(2,3)]
  show ?thesis
    by (rule that(3) [OF 3 e(1) refl]) (use 3 e bl neg_code(8) [OF bl(1,2)] in \<open>simp_all add: word_sless_alt\<close>)
qed

lemma encode_int_less:
  assumes "sint v < sint w"
  shows "encode_int [] v @ r < encode_int [] w @ s"
proof (cases v rule: encode_int_code)
  case 1
  show ?thesis
    by (cases w rule: encode_int_code) (use assms 1 in \<open>auto simp: word_less_nat_alt\<close>)
next
  case (2 n c)
  note v = 2
  show ?thesis
  proof (cases w rule: encode_int_code)
    case (2 m d)
    have less: "unat v < unat w"
      using assms unfolding v(8) 2(8) by (simp only: of_nat_less_iff)
    have "n \<le> m"
      using v(3,9) 2(3) less byte_len_mono [of "unat v" "unat w"] unat_less_256_8 by simp
    then show ?thesis
      using v 2 nat_be_append_less [OF less, of m r s]
      by (cases "n = m") (auto simp: word_less_nat_alt word_unat_eq_iff)
  qed (use assms v in auto)
next
  case (3 n c a)
  note v = 3
  show ?thesis
  proof (cases w rule: encode_int_code)
    case (3 m d b)
    then have less: "b < a" using assms v by simp
    then have "m \<le> n"
      using v 3 byte_len_mono [of b a] power_increasing [of n 8 "256 :: nat"] by simp
    moreover have "nat_be n (256 ^ n - Suc a) @ r < nat_be n (256 ^ n - Suc b) @ s"
      by (rule nat_be_append_less) (use less v in simp_all)
    ultimately show ?thesis
      using v 3 by (cases "n = m") (auto simp: word_less_nat_alt word_unat_eq_iff)
  qed (use v in \<open>auto simp: word_less_nat_alt\<close>)
qed

lemma enc_rank_less:
  assumes "elem_rank x < elem_rank y"
  shows "enc x @ r < enc y @ s"
proof -
  have code: "\<exists>c cs. enc e = c # cs \<and> unat c \<in> [{0}, {1}, {12..28}, {0x20}, {0x21}, {0x26, 0x27}] ! elem_rank e" for e
  proof (cases e)
    case (TInt v)
    then show ?thesis by (cases v rule: encode_int_code) auto
  qed (simp_all add: code_defs encode_bytes_value_esc encode_float_def encode_double_def)
  obtain c cs d ds where "enc x = c # cs" "enc y = d # ds"
    and "unat c \<in> [{0}, {1}, {12..28}, {0x20}, {0x21}, {0x26, 0x27}] ! elem_rank x"
    and "unat d \<in> [{0}, {1}, {12..28}, {0x20}, {0x21}, {0x26, 0x27}] ! elem_rank y"
    using code [of x] code [of y] by auto
  with assms show ?thesis
    by (cases x; cases y) (auto simp: word_less_nat_alt)
qed

lemma enc_same_rank_less:
  assumes "same_rank_less (bytes_form x) (bytes_form y)" "no_FF r"
  shows "enc x @ r < enc y @ s"
  using assms
  by (cases x; cases y)
    (auto simp: encode_bytes_value_esc esc_less encode_int_less encode_float_def encode_double_def
      code_defs intro!: adjust_float_less)

lemma enc_bytes_form: "enc (bytes_form x) = enc x"
  by (cases x) simp_all

lemma ieee_key_inj:
  assumes "ieee_key k v = ieee_key k w" "v < 256 ^ k" "w < 256 ^ k" "0 < k"
  shows "v = w"
proof -
  obtain j where j: "(256 :: nat) ^ k = 2 * j"
    using assms(4) by (cases k) auto
  then have "(256 :: int) ^ k div 2 = int j"
    by (metis nonzero_mult_div_cancel_left of_nat_mult of_nat_numeral of_nat_power zero_neq_numeral)
  with assms(1-3) j show ?thesis
    by (simp add: ieee_key_def split: if_splits)
qed

lemma ieee_key_word_cases:
  fixes a b :: "'a :: len word"
  assumes "LENGTH('a) = 8 * k" "0 < k"
  shows "ieee_key k (unat a) < ieee_key k (unat b) \<or> a = b \<or> ieee_key k (unat b) < ieee_key k (unat a)"
proof -
  have "unat x < 256 ^ k" for x :: "'a word"
    using unsigned_less [of x, where 'a = nat] by (simp add: assms(1) power_mult)
  then have "ieee_key k (unat a) = ieee_key k (unat b) \<Longrightarrow> a = b"
    using ieee_key_inj [of k "unat a" "unat b"] assms(2) by (simp add: word_unat_eq_iff)
  then show ?thesis by linarith
qed

lemma sint_cases: "sint (a :: i64) < sint b \<or> a = b \<or> sint b < sint a"
  using signed_word_eqI [of a b] by fastforce

lemma elem_less_total: "elem_less x y \<or> bytes_form x = bytes_form y \<or> elem_less y x"
proof (cases "elem_rank x = elem_rank y")
  case True
  have f: "ieee_key 4 (unat a) < ieee_key 4 (unat b) \<or> a = b \<or> ieee_key 4 (unat b) < ieee_key 4 (unat a)"
    for a b :: u32
    by (rule ieee_key_word_cases) simp_all
  have d: "ieee_key 8 (unat a) < ieee_key 8 (unat b) \<or> a = b \<or> ieee_key 8 (unat b) < ieee_key 8 (unat a)"
    for a b :: u64
    by (rule ieee_key_word_cases) simp_all
  from True show ?thesis
    by (cases x; cases y) (simp_all add: elem_less_def f d sint_cases linorder_less_linear, blast+)
qed (auto simp: elem_less_def)

lemma encode_tuple_less_imp: "tuple_less xs ys \<Longrightarrow> encode_tuple xs < encode_tuple ys"
proof (induction xs ys rule: tuple_less.induct)
  case (2 y ys)
  then show ?case using enc_head [of y] by auto
next
  case (3 x xs y ys)
  show ?case
  proof (cases "elem_less x y")
    case True
    then show ?thesis
      using enc_rank_less enc_same_rank_less no_FF_encode_tuple by (auto simp: elem_less_def)
  next
    case False
    with 3 show ?thesis by simp (metis enc_bytes_form less_append_same)
  qed
qed simp

lemma encode_tuple_bytes_form: "encode_tuple (map bytes_form xs) = encode_tuple xs"
  by (simp add: encode_tuple_concat enc_bytes_form o_def)

lemma tuple_less_total:
  "tuple_less xs ys \<or> map bytes_form xs = map bytes_form ys \<or> tuple_less ys xs"
proof (induction xs ys rule: tuple_less.induct)
  case (1 xs)
  then show ?case by (cases xs) simp_all
next
  case (3 x xs y ys)
  then show ?case using elem_less_total [of x y] by auto
qed simp

lemma encode_tuple_less_iff: "encode_tuple xs < encode_tuple ys \<longleftrightarrow> tuple_less xs ys"
  by (metis encode_tuple_less_imp encode_tuple_bytes_form order_less_asym order_less_irrefl tuple_less_total)

section \<open>Ordered codecs\<close>

text \<open>
  What the clients of the tuple layer rely on: a decoder that recovers a normal form of
  every encoded value, and an encoding that is monotone for the order of the values.
\<close>

locale ordered_codec =
  fixes encode :: "'a \<Rightarrow> bytes"
    and decode :: "bytes \<Rightarrow> 'e + 'a"
    and norm :: "'a \<Rightarrow> 'a"
    and less :: "'a \<Rightarrow> 'a \<Rightarrow> bool"
  assumes decode_encode: "decode (encode x) = Inr (norm x)"
    and encode_norm: "encode (norm x) = encode x"
    and encode_less: "encode x < encode y \<longleftrightarrow> less x y"
begin

lemma encode_eq_iff: "encode x = encode y \<longleftrightarrow> norm x = norm y"
  by (metis decode_encode encode_norm Inr_inject)

lemma less_irrefl: "\<not> less x x"
  by (simp flip: encode_less)

lemma less_trans: "less x y \<Longrightarrow> less y z \<Longrightarrow> less x z"
  by (metis encode_less order_less_trans)

lemma less_total: "less x y \<or> norm x = norm y \<or> less y x"
  by (metis encode_less encode_eq_iff linorder_less_linear)

lemma sorted_encode_iff: "sorted_wrt (<) (map encode xs) \<longleftrightarrow> sorted_wrt less xs"
  by (simp add: sorted_wrt_map encode_less)

end

lemma tuple_decode_encode: "decode_tuple (encode_tuple xs) = Inr (map bytes_form xs)"
  by (simp add: decode_tuple_def decode_tuple_from_encode)

interpretation tuple_codec: ordered_codec encode_tuple decode_tuple "map bytes_form" tuple_less
  by unfold_locales (fact tuple_decode_encode encode_tuple_bytes_form encode_tuple_less_iff)+

section \<open>Prefixes\<close>

lemma enc_split:
  assumes "enc x @ t = enc y @ u" "no_FF t \<or> elem_rank x \<noteq> 1" "no_FF u"
  shows "bytes_form x = bytes_form y \<and> t = u"
proof -
  have "decode_element (enc x @ t) = Inr (bytes_form x, length (enc x))"
  proof (cases "no_FF t")
    case False
    then have "elem_rank x \<noteq> 1" using assms(2) by simp
    then show ?thesis
      using decode_element_int [of _ t]
      by (cases x) (simp_all add: decode_element_def code_defs encode_float_def encode_double_def
          adjust_float_bytes_inverse)
  qed (rule decode_element_enc)
  with decode_element_enc [OF assms(3), of y] assms(1) show ?thesis by auto
qed

lemma encode_tuple_prefixD:
  assumes "encode_tuple xs @ z = encode_tuple ys" "xs \<noteq> []" "no_FF z \<or> elem_rank (last xs) \<noteq> 1"
  shows "prefix (map bytes_form xs) (map bytes_form ys)"
  using assms
proof (induction xs arbitrary: ys)
  case (Cons x xs)
  obtain y ys' where ys: "ys = y # ys'"
    using Cons.prems(1) enc_head [of x] by (cases ys) auto
  have tail: "no_FF (encode_tuple xs @ z) \<or> elem_rank x \<noteq> 1"
  proof (cases xs)
    case (Cons x' xs')
    then show ?thesis using enc_head [of x'] by (auto simp: no_FF_def)
  qed (use Cons.prems(3) in simp)
  then have "bytes_form x = bytes_form y \<and> encode_tuple xs @ z = encode_tuple ys'"
    using enc_split [of x "encode_tuple xs @ z" y "encode_tuple ys'"] Cons.prems(1) no_FF_encode_tuple
    by (simp add: ys)
  then show ?case
    using Cons by (cases "xs = []") (auto simp: ys)
qed simp

lemma encode_tuple_prefix_iff:
  assumes "xs \<noteq> []" "elem_rank (last xs) \<noteq> 1"
  shows "prefix (encode_tuple xs) (encode_tuple ys) \<longleftrightarrow> prefix (map bytes_form xs) (map bytes_form ys)"
proof
  assume "prefix (encode_tuple xs) (encode_tuple ys)"
  then show "prefix (map bytes_form xs) (map bytes_form ys)"
    using encode_tuple_prefixD assms by (metis prefixE)
next
  assume "prefix (map bytes_form xs) (map bytes_form ys)"
  then obtain zs where "map bytes_form ys = map bytes_form xs @ zs" by (auto elim: prefixE)
  then have "encode_tuple ys = encode_tuple xs @ encode_tuple zs"
    by (metis encode_tuple_bytes_form encode_tuple_simps(3))
  then show "prefix (encode_tuple xs) (encode_tuple ys)" by simp
qed

section \<open>Shape of decoded tuples\<close>

lemma decode_tuple_from_acc:
  "decode_tuple_from acc bs = res_bind (decode_tuple bs) (\<lambda>es. Inr (acc @ es))"
proof (induction "length bs" arbitrary: acc bs rule: less_induct)
  case less
  show ?case
  proof (cases "decode_element bs")
    case (Inr p)
    obtain e n where p: "p = (e, n)" by (cases p)
    with Inr have "bs \<noteq> []" "length (drop n bs) < length bs"
      using decode_element_progress [of bs e n] by auto
    then show ?thesis
      using less [of "drop n bs" "acc @ [e]"] less [of "drop n bs" "[e]"] Inr p
      by (simp add: decode_tuple_def decode_tuple_from.simps [of _ bs] res_bind_def split: sum.splits)
  qed (simp add: decode_tuple_def decode_tuple_from.simps [of _ bs])
qed

lemma decode_tuple_rec:
  "decode_tuple bs = (if bs = [] then Inr [] else
     res_bind (decode_element bs) (\<lambda>(e, n). res_bind (decode_tuple (drop n bs)) (\<lambda>es. Inr (e # es))))"
  unfolding decode_tuple_def [of bs]
  by (subst decode_tuple_from.simps) (simp add: decode_tuple_from_acc)

lemma decode_bytes_value_from_consumed:
  "decode_bytes_value_from r i bs = Inr (d, c) \<Longrightarrow> i < c \<and> c \<le> i + length bs"
  by (induction r i bs rule: decode_bytes_value_from.induct)
    (fastforce split: if_splits list.splits)+

lemma decode_element_consumed: "decode_element bs = Inr (e, n) \<Longrightarrow> n \<le> length bs"
  by (auto simp: decode_element_def Let_def res_bind_Inr_iff decode_bytes_value_def
      dest: decode_bytes_value_from_consumed split: list.splits if_splits)

lemma decode_element_not_string: "decode_element bs \<noteq> Inr (TString s, n)"
  by (auto simp: decode_element_def Let_def res_bind_Inr_iff split: list.splits if_splits)
declare encode_tuple_simps [simp del]

section \<open>Properties\<close>

text \<open>
  C23: Decoding an encoded tuple succeeds and returns the tuple, with every string element read back
  as the byte string of its UTF-8 bytes.
\<close>

theorem tuple_round_trip: "decode_tuple (encode_tuple xs) = Inr (map bytes_form xs)"
  by (rule tuple_codec.decode_encode)

text \<open>
  C24: The encoding preserves order: the bytes of one tuple sort before those of another exactly
  when the tuple is smaller, comparing types by rank, byte strings lexicographically, integers as
  signed numbers, floats by the IEEE total order and tuples lexicographically.
\<close>

theorem tuple_order: "encode_tuple xs < encode_tuple ys \<longleftrightarrow> tuple_less xs ys"
  by (rule tuple_codec.encode_less)

text \<open>
  The bytes of a tuple that does not end in a string are a byte prefix of another encoded
  tuple exactly when the tuple is a prefix of the other one.
\<close>

theorem tuple_prefix:
  assumes "xs \<noteq> []" "elem_rank (last xs) \<noteq> 1"
  shows "prefix (encode_tuple xs) (encode_tuple ys) \<longleftrightarrow> prefix (map bytes_form xs) (map bytes_form ys)"
  using assms by (rule encode_tuple_prefix_iff)

theorem tuple_prefix_witness:
  "prefix (encode_tuple [TString [0x52], TInt 7]) (encode_tuple [TString [0x52], TInt 7, TBool True])
   \<and> \<not> prefix (encode_tuple [TString [0x52], TInt 7]) (encode_tuple [TString [0x52], TInt 263])"
  using tuple_prefix [of "[TString [0x52], TInt 7]" "[TString [0x52], TInt 7, TBool True]"]
    tuple_prefix [of "[TString [0x52], TInt 7]" "[TString [0x52], TInt 263]"]
  by simp

lemma decode_bytes_value_from_error:
  "decode_bytes_value_from r i bs = Inl e \<Longrightarrow> e = UnterminatedString"
  by (induction r i bs rule: decode_bytes_value_from.induct) (auto split: if_splits list.splits)

lemma int_code_len:
  "INT_ZERO_CODE < c \<Longrightarrow> c \<le> POS_INT_END \<Longrightarrow> unat (c - INT_ZERO_CODE) \<le> 8"
  "NEG_INT_START \<le> c \<Longrightarrow> c < INT_ZERO_CODE \<Longrightarrow> unat (INT_ZERO_CODE - c) \<le> 8"
  by (simp_all add: code_defs unat_sub word_le_nat_alt word_less_nat_alt)

text \<open>
  Decoding is total and never returns a string element: any byte string either decodes to
  elements none of which is a \<open>String\<close>, or is rejected with one of the three decode errors, and a
  decoded element consumes at least one byte and never reads past the end of the input.
\<close>

theorem decode_element_extent:
  "case decode_element bs of
     Inr (e, n) \<Rightarrow> 0 < n \<and> n \<le> length bs \<and> bytes_form e = e
   | Inl UnexpectedEnd \<Rightarrow> bs = [] \<or> length bs < 9
   | Inl UnterminatedString \<Rightarrow> bs \<noteq> [] \<and> hd bs = BYTES_CODE
   | Inl (UnknownTypeCode c) \<Rightarrow> bs \<noteq> [] \<and> c = hd bs"
proof (cases "decode_element bs")
  case (Inr p)
  obtain e n where p: "p = (e, n)" by (cases p)
  have "bytes_form e = e"
    using Inr p decode_element_not_string by (cases e) auto
  with Inr p show ?thesis
    using decode_element_progress decode_element_consumed by fastforce
next
  case (Inl err)
  then show ?thesis
    by (auto simp: decode_element_def Let_def res_bind_Inl_iff decode_bytes_value_def
        dest: decode_bytes_value_from_error split: list.splits if_splits decode_error.splits)
      (use int_code_len in \<open>force simp: not_le\<close>)+
qed

end
