(* ===== verification/Storage_Keys.thy ===== *)
theory Storage_Keys
  imports Tuple_Encoding
begin

text \<open>
  Storage keys: \<open>backend/storage-encoding/src/keys.rs\<close>, \<open>id_validation.rs\<close> and the column-name
  lists of \<open>lib.rs\<close>.

  A Rust \<open>String\<close> is its UTF-8 byte sequence.  \<open>KeyError\<close> and \<open>TupleConversionError\<close> carry only a
  message for display, which the model drops.  The lemmas show that building a key and parsing it
  are inverse, that different logical addresses never share a key, that the allocation-free
  column-key parser accepts exactly the four-element column keys of the general parser, and which
  keys a prefix scan returns.
\<close>

section \<open>Errors and constants\<close>

datatype key_error = KeyError
datatype tuple_conversion_error = TupleConversionError

definition TAG_SCHEMA :: bytes where "TAG_SCHEMA = str ''S''"
definition TAG_ROW :: bytes where "TAG_ROW = str ''R''"
definition TAG_INDEX :: bytes where "TAG_INDEX = str ''I''"
definition TAG_MARKER :: bytes where "TAG_MARKER = str ''M''"
definition ACTION_STORAGE_VERSION :: u8 where "ACTION_STORAGE_VERSION = 1"
definition USERS_TABLE :: bytes where "USERS_TABLE = str ''_users''"
definition KEY_HISTORY_TABLE :: bytes where "KEY_HISTORY_TABLE = str ''_key_history''"
definition RETENTION_TABLE :: bytes where "RETENTION_TABLE = str ''_retention''"
definition LISTS_TABLE :: bytes where "LISTS_TABLE = str ''_lists''"

lemmas tag_defs = TAG_SCHEMA_def TAG_ROW_def TAG_INDEX_def TAG_MARKER_def
lemmas table_defs = USERS_TABLE_def KEY_HISTORY_TABLE_def RETENTION_TABLE_def LISTS_TABLE_def

section \<open>Values of index keys\<close>

datatype 'n json =
    JNull
  | JBool bool
  | JNumber 'n
  | JString bytes
  | JArray "'n json list"
  | JObject "(bytes \<times> 'n json) list"

fun json_to_tuple_element ::
  "('n \<Rightarrow> i64 option) \<Rightarrow> ('n \<Rightarrow> u64 option) \<Rightarrow> 'n json \<Rightarrow> bool \<Rightarrow> tuple_conversion_error + tuple_element"
where
  "json_to_tuple_element as_i64 as_f64 JNull force_double = Inr TNull"
| "json_to_tuple_element as_i64 as_f64 (JString s) force_double = Inr (TString s)"
| "json_to_tuple_element as_i64 as_f64 (JNumber n) force_double =
    (if force_double then
       (case as_f64 n of Some f \<Rightarrow> Inr (TDouble f) | None \<Rightarrow> Inr (TDouble 0))
     else (case as_i64 n of
         Some i \<Rightarrow> Inr (TInt i)
       | None \<Rightarrow> (case as_f64 n of Some f \<Rightarrow> Inr (TDouble f) | None \<Rightarrow> Inr (TInt 0))))"
| "json_to_tuple_element as_i64 as_f64 (JBool b) force_double = Inr (TBool b)"
| "json_to_tuple_element as_i64 as_f64 (JArray _) force_double = Inl TupleConversionError"
| "json_to_tuple_element as_i64 as_f64 (JObject _) force_double = Inl TupleConversionError"

section \<open>Key builders\<close>

definition schema_prefix :: bytes where
  "schema_prefix = encode_tuple [TString TAG_SCHEMA]"

definition schema_key :: "bytes \<Rightarrow> bytes" where
  "schema_key table = encode_tuple [TString TAG_SCHEMA, TString table]"

definition schema_columns_key :: "bytes \<Rightarrow> bytes" where
  "schema_columns_key table = encode_tuple [TString TAG_SCHEMA, TString table, TString (str ''columns'')]"

definition schema_indexes_key :: "bytes \<Rightarrow> bytes" where
  "schema_indexes_key table = encode_tuple [TString TAG_SCHEMA, TString table, TString (str ''indexes'')]"

definition schema_list_columns_key :: "bytes \<Rightarrow> bytes" where
  "schema_list_columns_key table =
    encode_tuple [TString TAG_SCHEMA, TString table, TString (str ''list_columns'')]"

definition schema_next_id_key :: "bytes \<Rightarrow> bytes" where
  "schema_next_id_key table = encode_tuple [TString TAG_SCHEMA, TString table, TString (str ''next_id'')]"

definition schema_id_mode_key :: "bytes \<Rightarrow> bytes" where
  "schema_id_mode_key table = encode_tuple [TString TAG_SCHEMA, TString table, TString (str ''id_mode'')]"

definition schema_next_list_number_key :: bytes where
  "schema_next_list_number_key =
    encode_tuple [TString TAG_SCHEMA, TString LISTS_TABLE, TString (str ''next_list_number'')]"

definition list_head_key :: "i64 \<Rightarrow> bytes" where
  "list_head_key list_number =
    encode_tuple [TString TAG_SCHEMA, TString LISTS_TABLE, TString (str ''head''), TInt list_number]"

definition list_tail_key :: "i64 \<Rightarrow> bytes" where
  "list_tail_key list_number =
    encode_tuple [TString TAG_SCHEMA, TString LISTS_TABLE, TString (str ''tail''), TInt list_number]"

definition list_parent_key :: "i64 \<Rightarrow> bytes" where
  "list_parent_key list_number =
    encode_tuple [TString TAG_SCHEMA, TString LISTS_TABLE, TString (str ''parent''), TInt list_number]"

definition list_parent_key_prefix :: bytes where
  "list_parent_key_prefix =
    encode_tuple [TString TAG_SCHEMA, TString LISTS_TABLE, TString (str ''parent'')]"

definition row_key :: "bytes \<Rightarrow> i64 \<Rightarrow> bytes" where
  "row_key table row_id = encode_tuple [TString TAG_ROW, TString table, TInt row_id]"

definition column_key :: "bytes \<Rightarrow> i64 \<Rightarrow> bytes \<Rightarrow> bytes" where
  "column_key table row_id column =
    encode_tuple [TString TAG_ROW, TString table, TInt row_id, TString column]"

definition column_key_placeholder :: "bytes \<Rightarrow> bytes \<Rightarrow> bytes" where
  "column_key_placeholder table column = column_key table 0 column"

definition row_prefix :: "bytes \<Rightarrow> bytes" where
  "row_prefix table = encode_tuple [TString TAG_ROW, TString table]"

definition index_key ::
  "bytes \<Rightarrow> bytes \<Rightarrow> tuple_conversion_error + tuple_element \<Rightarrow> i64 \<Rightarrow> tuple_conversion_error + bytes"
where
  "index_key table column value row_id =
    res_bind value (\<lambda>value_elem.
      Inr (encode_tuple [TString TAG_INDEX, TString table, TString column, value_elem, TInt row_id]))"

definition index_value_prefix ::
  "bytes \<Rightarrow> bytes \<Rightarrow> tuple_conversion_error + tuple_element \<Rightarrow> tuple_conversion_error + bytes"
where
  "index_value_prefix table column value =
    res_bind value (\<lambda>value_elem.
      Inr (encode_tuple [TString TAG_INDEX, TString table, TString column, value_elem]))"

definition index_column_prefix :: "bytes \<Rightarrow> bytes \<Rightarrow> bytes" where
  "index_column_prefix table column = encode_tuple [TString TAG_INDEX, TString table, TString column]"

definition users_row_key :: "u32 \<Rightarrow> bytes" where
  "users_row_key uid = row_key USERS_TABLE (ucast uid)"

definition acl_rule_key :: "bytes \<Rightarrow> bytes \<Rightarrow> bytes" where
  "acl_rule_key table op =
    encode_tuple [TString TAG_SCHEMA, TString table, TString (str ''acl''), TString op]"

definition acl_only_via_actions_key :: "bytes \<Rightarrow> bytes \<Rightarrow> bytes" where
  "acl_only_via_actions_key table op =
    encode_tuple [TString TAG_SCHEMA, TString table, TString (str ''only_via_actions''), TString op]"

definition action_storage_key :: "bytes \<Rightarrow> bytes \<Rightarrow> bytes" where
  "action_storage_key primary_table name =
    encode_tuple [TString TAG_SCHEMA, TString primary_table, TString (str ''action''), TString name]"

definition action_marker_key :: "bytes \<Rightarrow> bytes" where
  "action_marker_key primary_table =
    encode_tuple [TString TAG_MARKER, TString (str ''action_marker''), TString primary_table]"

definition encode_action_value :: "bytes \<Rightarrow> bytes" where
  "encode_action_value body = [ACTION_STORAGE_VERSION] @ body"

definition decode_action_value :: "bytes \<Rightarrow> key_error + bytes" where
  "decode_action_value bs = (case bs of
      [] \<Rightarrow> Inl KeyError
    | version # body \<Rightarrow> if version \<noteq> ACTION_STORAGE_VERSION then Inl KeyError else Inr body)"

lemmas builder_defs = schema_prefix_def schema_key_def schema_columns_key_def schema_indexes_key_def
  schema_list_columns_key_def schema_next_id_key_def schema_id_mode_key_def
  schema_next_list_number_key_def list_head_key_def list_tail_key_def list_parent_key_def
  list_parent_key_prefix_def row_key_def column_key_def column_key_placeholder_def row_prefix_def
  index_key_def index_value_prefix_def index_column_prefix_def users_row_key_def acl_rule_key_def
  acl_only_via_actions_key_def action_storage_key_def action_marker_key_def

section \<open>Parsing\<close>

datatype parsed_key =
    PSchema bytes
  | PSchemaColumns bytes
  | PSchemaNextId bytes
  | PSchemaIdMode bytes
  | PRow bytes i64
  | PColumn bytes i64 bytes
  | PRowPrefix bytes
  | PIndex bytes bytes tuple_element i64
  | PAclRule bytes bytes
  | POnlyViaActions bytes bytes
  | PAction bytes bytes
  | PActionMarker bytes

fun element_to_string :: "tuple_element \<Rightarrow> key_error + bytes" where
  "element_to_string (TBytes b) = ok_or KeyError (from_utf8 b)"
| "element_to_string (TString s) = Inr s"
| "element_to_string _ = Inl KeyError"

fun element_to_int :: "tuple_element \<Rightarrow> key_error + i64" where
  "element_to_int (TInt i) = Inr i"
| "element_to_int _ = Inl KeyError"

definition encode_list_parent :: "bytes \<Rightarrow> i64 \<Rightarrow> bytes \<Rightarrow> bytes" where
  "encode_list_parent parent_table parent_row_id parent_column =
    encode_tuple [TString parent_table, TInt parent_row_id, TString parent_column]"

definition decode_list_parent :: "bytes \<Rightarrow> key_error + bytes \<times> i64 \<times> bytes" where
  "decode_list_parent bs =
    res_bind (map_err (\<lambda>_. KeyError) (decode_tuple bs)) (\<lambda>elements.
      if length elements \<noteq> 3 then Inl KeyError
      else res_bind (element_to_string (elements ! 0)) (\<lambda>table.
           res_bind (element_to_int (elements ! 1)) (\<lambda>row_id.
           res_bind (element_to_string (elements ! 2)) (\<lambda>column.
             Inr (table, row_id, column)))))"

definition parse_marker_elements :: "tuple_element list \<Rightarrow> key_error + parsed_key" where
  "parse_marker_elements elements =
    (if length elements < 2 then Inl KeyError
     else res_bind (element_to_string (elements ! 1)) (\<lambda>sub.
       if sub = str ''action_marker'' then
         (if length elements < 3 then Inl KeyError
          else res_bind (element_to_string (elements ! 2)) (\<lambda>primary_table.
            Inr (PActionMarker primary_table)))
       else Inl KeyError))"

definition parse_schema_elements :: "tuple_element list \<Rightarrow> key_error + parsed_key" where
  "parse_schema_elements elements =
    (if length elements < 2 then Inl KeyError
     else res_bind (element_to_string (elements ! 1)) (\<lambda>table.
       if length elements \<ge> 3 then
         (case element_to_string (elements ! 2) of
            Inr sub \<Rightarrow>
              if sub = str ''columns'' then Inr (PSchemaColumns table)
              else if sub = str ''next_id'' then Inr (PSchemaNextId table)
              else if sub = str ''id_mode'' then Inr (PSchemaIdMode table)
              else if sub = str ''acl'' then
                (if length elements < 4 then Inl KeyError
                 else res_bind (element_to_string (elements ! 3)) (\<lambda>op. Inr (PAclRule table op)))
              else if sub = str ''only_via_actions'' then
                (if length elements < 4 then Inl KeyError
                 else res_bind (element_to_string (elements ! 3)) (\<lambda>op. Inr (POnlyViaActions table op)))
              else if sub = str ''action'' then
                (if length elements < 4 then Inl KeyError
                 else res_bind (element_to_string (elements ! 3)) (\<lambda>name. Inr (PAction table name)))
              else Inr (PSchema table)
          | Inl _ \<Rightarrow> Inr (PSchema table))
       else Inr (PSchema table)))"

definition parse_row_elements :: "tuple_element list \<Rightarrow> key_error + parsed_key" where
  "parse_row_elements elements =
    (if length elements < 2 then Inl KeyError
     else res_bind (element_to_string (elements ! 1)) (\<lambda>table.
       if length elements < 3 then Inr (PRowPrefix table)
       else (case element_to_int (elements ! 2) of
           Inl _ \<Rightarrow> Inr (PRowPrefix table)
         | Inr row_id \<Rightarrow>
             if length elements \<ge> 4 then
               res_bind (element_to_string (elements ! 3)) (\<lambda>column. Inr (PColumn table row_id column))
             else Inr (PRow table row_id))))"

definition parse_index_elements :: "tuple_element list \<Rightarrow> key_error + parsed_key" where
  "parse_index_elements elements =
    (if length elements < 5 then Inl KeyError
     else res_bind (element_to_string (elements ! 1)) (\<lambda>table.
          res_bind (element_to_string (elements ! 2)) (\<lambda>column.
          res_bind (element_to_int (elements ! 4)) (\<lambda>row_id.
            Inr (PIndex table column (elements ! 3) row_id)))))"

text \<open>
  The tag is read with \<open>String::from_utf8_lossy\<close>.  Invalid input is replaced by U+FFFD there, so the
  result equals one of the one-letter ASCII tags exactly when the bytes themselves do.
\<close>

definition parse_key :: "bytes \<Rightarrow> key_error + parsed_key" where
  "parse_key key =
    res_bind (map_err (\<lambda>_. KeyError) (decode_tuple key)) (\<lambda>elements.
      if elements = [] then Inl KeyError
      else res_bind (case elements ! 0 of TBytes b \<Rightarrow> Inr b | TString s \<Rightarrow> Inr s | _ \<Rightarrow> Inl KeyError)
        (\<lambda>tag.
          if tag = TAG_SCHEMA then parse_schema_elements elements
          else if tag = TAG_ROW then parse_row_elements elements
          else if tag = TAG_INDEX then parse_index_elements elements
          else if tag = TAG_MARKER then parse_marker_elements elements
          else Inl KeyError))"

definition slice :: "'a list \<Rightarrow> nat \<Rightarrow> nat \<Rightarrow> 'a list" where
  "slice xs i j = take (j - i) (drop i xs)"

function decode_string_ref_loop ::
  "bytes \<Rightarrow> nat \<Rightarrow> nat \<Rightarrow> nat \<Rightarrow> bytes option \<Rightarrow> key_error + bytes \<times> nat"
where
  "decode_string_ref_loop bs start i segment_start decoded =
    (if i < length bs then
       (if bs ! i = 0x00 then
          (if i + 1 < length bs \<and> bs ! (i + 1) = 0xFF then
             decode_string_ref_loop bs start (i + 2) (i + 2)
               (Some ((case decoded of Some out \<Rightarrow> out | None \<Rightarrow> []) @ slice bs segment_start i @ [0x00]))
           else
             (case decoded of
                Some out \<Rightarrow>
                  res_bind (ok_or KeyError (from_utf8 (out @ slice bs segment_start i))) (\<lambda>s. Inr (s, i + 1))
              | None \<Rightarrow>
                  res_bind (ok_or KeyError (from_utf8 (slice bs start i))) (\<lambda>s. Inr (s, i + 1))))
        else decode_string_ref_loop bs start (i + 1) segment_start decoded)
     else Inl KeyError)"
  by pat_completeness auto
termination
  by (relation "measure (\<lambda>(bs, _, i, _, _). length bs - i)") auto

declare decode_string_ref_loop.simps [simp del]

definition decode_string_ref :: "bytes \<Rightarrow> nat \<Rightarrow> key_error + bytes \<times> nat" where
  "decode_string_ref bs pos =
    (if pos < length bs then
       (if bs ! pos \<noteq> BYTES_CODE then Inl KeyError
        else decode_string_ref_loop bs (pos + 1) (pos + 1) (pos + 1) None)
     else Inl KeyError)"

definition decode_i64_ref :: "bytes \<Rightarrow> nat \<Rightarrow> key_error + i64 \<times> nat" where
  "decode_i64_ref bs pos =
    (if pos < length bs then
       (let c = bs ! pos in
        if c = INT_ZERO_CODE then Inr (0, pos + 1)
        else if INT_ZERO_CODE < c \<and> c \<le> POS_INT_END then
          (let n = unat (c - INT_ZERO_CODE)
           in if length bs < pos + 1 + n then Inl KeyError
              else Inr (u64_from_be_bytes (replicate (8 - n) 0 @ slice bs (pos + 1) (pos + 1 + n)), pos + 1 + n))
        else if NEG_INT_START \<le> c \<and> c < INT_ZERO_CODE then
          (let n = unat (INT_ZERO_CODE - c)
           in if length bs < pos + 1 + n then Inl KeyError
              else
                (let complement = u64_from_be_bytes (replicate (8 - n) 0xFF @ slice bs (pos + 1) (pos + 1 + n));
                     abs_val = NOT complement
                 in Inr (if abs_val = push_bit 63 1 then i64_MIN else - abs_val, pos + 1 + n)))
        else Inl KeyError)
     else Inl KeyError)"

definition parse_column_key_ref :: "bytes \<Rightarrow> key_error + bytes \<times> i64 \<times> bytes" where
  "parse_column_key_ref key =
    res_bind (decode_string_ref key 0) (\<lambda>(tag, pos).
      if tag \<noteq> TAG_ROW then Inl KeyError
      else res_bind (decode_string_ref key pos) (\<lambda>(table, pos).
           res_bind (decode_i64_ref key pos) (\<lambda>(row_id, pos).
           res_bind (decode_string_ref key pos) (\<lambda>(column, pos).
             if pos \<noteq> length key then Inl KeyError
             else Inr (table, row_id, column)))))"

section \<open>Row identifiers and tree paths\<close>

definition bytes_to_row_id :: "bytes \<Rightarrow> key_error + i64" where
  "bytes_to_row_id key = (if length key \<noteq> 8 then Inl KeyError else Inr (u64_from_be_bytes key))"

text \<open>The assertion of \<open>row_id_to_bytes\<close> panics on a negative identifier: no result.\<close>

definition row_id_to_bytes :: "i64 \<Rightarrow> bytes option" where
  "row_id_to_bytes row_id = (if 0 \<le>s row_id then Some (u64_to_be_bytes row_id) else None)"

fun split_on :: "u8 \<Rightarrow> bytes \<Rightarrow> bytes list" where
  "split_on c [] = [[]]"
| "split_on c (b # bs) =
    (if b = c then [] # split_on c bs
     else (case split_on c bs of p # ps \<Rightarrow> (b # p) # ps | [] \<Rightarrow> [[b]]))"

definition digit :: "u8 \<Rightarrow> nat option" where
  "digit b = (if 0x30 \<le> b \<and> b \<le> 0x39 then Some (unat b - 48) else None)"

fun digits :: "nat \<Rightarrow> bytes \<Rightarrow> nat option" where
  "digits acc [] = Some acc"
| "digits acc (b # bs) = (case digit b of Some d \<Rightarrow> digits (acc * 10 + d) bs | None \<Rightarrow> None)"

definition parse_i64 :: "bytes \<Rightarrow> i64 option" where
  "parse_i64 s = (case s of
      [] \<Rightarrow> None
    | b # bs \<Rightarrow>
        if b = 0x2B then
          (if bs = [] then None
           else case digits 0 bs of Some n \<Rightarrow> if n < 2 ^ 63 then Some (of_nat n) else None | None \<Rightarrow> None)
        else if b = 0x2D then
          (if bs = [] then None
           else case digits 0 bs of Some n \<Rightarrow> if n \<le> 2 ^ 63 then Some (- of_nat n) else None | None \<Rightarrow> None)
        else (case digits 0 s of Some n \<Rightarrow> if n < 2 ^ 63 then Some (of_nat n) else None | None \<Rightarrow> None))"

record list_col_address =
  lca_table :: bytes
  lca_row_id :: i64
  lca_column :: bytes

definition parse_list_col_tree_path :: "bytes \<Rightarrow> list_col_address option" where
  "parse_list_col_tree_path tree_path =
    Option.bind (from_utf8 tree_path) (\<lambda>s.
    Option.bind (case s of [] \<Rightarrow> None | b # r \<Rightarrow> if b = 0x2F then Some r else None) (\<lambda>s.
      (let parts = split_on 0x2F s in
       if length parts \<noteq> 4 \<or> parts ! 0 \<noteq> str ''list_col'' then None
       else Option.bind (parse_i64 (parts ! 2)) (\<lambda>row_id.
         Some \<lparr>lca_table = parts ! 1, lca_row_id = row_id, lca_column = parts ! 3\<rparr>))))"

section \<open>Insert identifiers\<close>

datatype insert_id = AutoAssign | Explicit i64

datatype id_validation_error = ExplicitOnAutoTable i64 | MissingIdOnExplicitTable | NegativeId i64

definition validate_insert_id :: "i64 option \<Rightarrow> id_validation_error + i64 option" where
  "validate_insert_id raw_id = (case raw_id of
      Some i \<Rightarrow> if i <s 0 then Inl (NegativeId i) else Inr (if i \<noteq> 0 then Some i else None)
    | None \<Rightarrow> Inr None)"

definition classify_insert_id :: "i64 option \<Rightarrow> bool \<Rightarrow> id_validation_error + insert_id" where
  "classify_insert_id raw_id auto_increment =
    res_bind (validate_insert_id raw_id) (\<lambda>explicit_id.
      (case (auto_increment, explicit_id) of
        (True, None) \<Rightarrow> Inr AutoAssign
      | (False, Some i) \<Rightarrow> Inr (Explicit i)
      | (True, Some i) \<Rightarrow> Inl (ExplicitOnAutoTable i)
      | (False, None) \<Rightarrow> Inl MissingIdOnExplicitTable))"

section \<open>Column-name lists\<close>

text \<open>
  A \<open>BTreeSet\<close> is the strictly increasing list of its elements; \<open>btree_set\<close> collects an iterator
  into one.
\<close>

definition btree_set :: "'a :: linorder list \<Rightarrow> 'a list" where
  "btree_set xs = sort (remdups xs)"

fun json_get :: "bytes \<Rightarrow> 'n json \<Rightarrow> 'n json option" where
  "json_get k (JObject kvs) = map_of kvs k"
| "json_get k _ = None"

fun json_as_array :: "'n json \<Rightarrow> 'n json list option" where
  "json_as_array (JArray xs) = Some xs"
| "json_as_array _ = None"

fun json_as_str :: "'n json \<Rightarrow> bytes option" where
  "json_as_str (JString s) = Some s"
| "json_as_str _ = None"

definition extract_non_id_columns_from_schema ::
  "(bytes \<Rightarrow> 'n json option) \<Rightarrow> bytes \<Rightarrow> bytes list option"
where
  "extract_non_id_columns_from_schema from_slice schema_bytes =
    Option.bind (from_slice schema_bytes) (\<lambda>schema.
    Option.bind (Option.bind (json_get (str ''columns'') schema) json_as_array) (\<lambda>columns.
      Some (btree_set (filter (\<lambda>name. name \<noteq> str ''id'')
        (List.map_filter (\<lambda>c. Option.bind (json_get (str ''name'') c) json_as_str) columns)))))"

fun encode_column_names :: "bytes list \<Rightarrow> bytes" where
  "encode_column_names [] = []"
| "encode_column_names [name] = name"
| "encode_column_names (name # names) = name @ [0] @ encode_column_names names"

definition decode_column_names :: "bytes \<Rightarrow> bytes list option" where
  "decode_column_names bs =
    Option.bind (from_utf8 bs) (\<lambda>s. if s = [] then Some [] else Some (btree_set (split_on 0 s)))"

lemma sorted_btree_set: "sorted_wrt (<) (btree_set xs)"
  by (simp add: btree_set_def strict_sorted_iff)

lemma set_btree_set [simp]: "set (btree_set xs) = set xs"
  by (simp add: btree_set_def)

lemma btree_set_id: "sorted_wrt (<) xs \<Longrightarrow> btree_set xs = xs"
  by (simp add: btree_set_def strict_sorted_iff distinct_remdups_id sorted_sort_id)

lemma split_on_nonempty: "split_on c bs \<noteq> []"
  by (induction bs) (auto split: list.splits)

lemma split_on_no_sep: "c \<notin> set p \<Longrightarrow> split_on c p = [p]"
  by (induction p) auto

lemma split_on_sep: "c \<notin> set p \<Longrightarrow> split_on c (p @ c # bs) = p # split_on c bs"
  by (induction p) (auto simp: split_on_nonempty split: list.splits)

lemma split_encode_column_names:
  assumes "names \<noteq> []" "\<And>n. n \<in> set names \<Longrightarrow> 0 \<notin> set n"
  shows "split_on 0 (encode_column_names names) = names"
  using assms by (induction names rule: encode_column_names.induct)
    (simp_all add: split_on_no_sep split_on_sep)

lemma encode_column_names_nonempty:
  "names \<noteq> [] \<Longrightarrow> [] \<notin> set names \<Longrightarrow> encode_column_names names \<noteq> []"
  by (induction names rule: encode_column_names.induct) auto

section \<open>Parsing inverts building\<close>

lemma parse_elements:
  "parse_key (encode_tuple es) = (if es = [] then Inl KeyError
    else res_bind (case bytes_form (hd es) of TBytes b \<Rightarrow> Inr b | TString s \<Rightarrow> Inr s | _ \<Rightarrow> Inl KeyError)
      (\<lambda>tag.
        if tag = TAG_SCHEMA then parse_schema_elements (map bytes_form es)
        else if tag = TAG_ROW then parse_row_elements (map bytes_form es)
        else if tag = TAG_INDEX then parse_index_elements (map bytes_form es)
        else if tag = TAG_MARKER then parse_marker_elements (map bytes_form es)
        else Inl KeyError))"
proof (cases es)
  case (Cons e es')
  show ?thesis
    unfolding Cons by (simp add: parse_key_def tuple_decode_encode cong: if_cong)
qed (simp add: parse_key_def tuple_decode_encode)

lemmas parser_defs = parse_elements parse_schema_elements_def parse_row_elements_def
  parse_index_elements_def parse_marker_elements_def

lemma str_distinct:
  "str ''S'' \<noteq> str ''R''" "str ''S'' \<noteq> str ''I''" "str ''S'' \<noteq> str ''M''" "str ''R'' \<noteq> str ''I''"
  "str ''R'' \<noteq> str ''M''" "str ''I'' \<noteq> str ''M''"
  by (simp_all add: str_def)

lemma tag_distinct [simp]:
  "TAG_SCHEMA \<noteq> TAG_ROW" "TAG_SCHEMA \<noteq> TAG_INDEX" "TAG_SCHEMA \<noteq> TAG_MARKER"
  "TAG_ROW \<noteq> TAG_SCHEMA" "TAG_INDEX \<noteq> TAG_SCHEMA" "TAG_MARKER \<noteq> TAG_SCHEMA"
  "TAG_ROW \<noteq> TAG_INDEX" "TAG_ROW \<noteq> TAG_MARKER" "TAG_INDEX \<noteq> TAG_MARKER"
  "TAG_INDEX \<noteq> TAG_ROW" "TAG_MARKER \<noteq> TAG_ROW" "TAG_MARKER \<noteq> TAG_INDEX"
  using str_distinct by (simp_all add: tag_defs)

lemma from_utf8_valid [simp]: "valid_utf8 s \<Longrightarrow> from_utf8 s = Some s"
  by simp

lemma str_eq_iff: "str s = str t \<longleftrightarrow> map (of_char :: char \<Rightarrow> u8) s = map of_char t"
  by (simp add: str_def)

lemma parse_key_row:
  assumes "valid_utf8 table" "valid_utf8 column"
  shows "parse_key (row_prefix table) = Inr (PRowPrefix table)"
    and "parse_key (row_key table row_id) = Inr (PRow table row_id)"
    and "parse_key (column_key table row_id column) = Inr (PColumn table row_id column)"
  using assms by (simp_all add: builder_defs parser_defs numeral_eq_Suc)

lemma valid_utf8_sub:
  "valid_utf8 (str ''columns'')" "valid_utf8 (str ''next_id'')" "valid_utf8 (str ''id_mode'')"
  "valid_utf8 (str ''acl'')" "valid_utf8 (str ''only_via_actions'')" "valid_utf8 (str ''action'')"
  "valid_utf8 (str ''action_marker'')" "valid_utf8 (str ''indexes'')" "valid_utf8 (str ''list_columns'')"
  "valid_utf8 (str ''head'')" "valid_utf8 (str ''tail'')" "valid_utf8 (str ''parent'')"
  "valid_utf8 (str ''next_list_number'')"
  by (simp_all add: str_def)

lemma parse_key_schema:
  assumes "valid_utf8 table" "valid_utf8 op"
  shows "parse_key (schema_key table) = Inr (PSchema table)"
    and "parse_key (schema_columns_key table) = Inr (PSchemaColumns table)"
    and "parse_key (schema_next_id_key table) = Inr (PSchemaNextId table)"
    and "parse_key (schema_id_mode_key table) = Inr (PSchemaIdMode table)"
    and "parse_key (acl_rule_key table op) = Inr (PAclRule table op)"
    and "parse_key (acl_only_via_actions_key table op) = Inr (POnlyViaActions table op)"
    and "parse_key (action_storage_key table op) = Inr (PAction table op)"
    and "parse_key (action_marker_key table) = Inr (PActionMarker table)"
  using assms by (simp_all add: builder_defs parser_defs numeral_eq_Suc valid_utf8_sub)
    (simp_all add: str_eq_iff)

lemma parse_key_index:
  assumes "valid_utf8 table" "valid_utf8 column" "index_key table column (Inr v) row_id = Inr key"
  shows "parse_key key = Inr (PIndex table column (bytes_form v) row_id)"
  using assms by (auto simp: index_key_def parser_defs numeral_eq_Suc)

section \<open>The column-key parser agrees with the general parser\<close>

lemma slice_snoc: "seg \<le> i \<Longrightarrow> i < length bs \<Longrightarrow> slice bs seg (Suc i) = slice bs seg i @ [bs ! i]"
  by (simp add: slice_def Suc_diff_le take_Suc_conv_app_nth)

lemma slice_empty [simp]: "slice bs i i = []"
  by (simp add: slice_def)

lemma decode_bytes_value_from_shift:
  "decode_bytes_value_from r (k + i) bs
    = (case decode_bytes_value_from r i bs of Inl e \<Rightarrow> Inl e | Inr (d, c) \<Rightarrow> Inr (d, k + c))"
proof (induction r i bs rule: decode_bytes_value_from.induct)
  case (2 result i b bs)
  then show ?case
    by (auto split: list.splits simp: add.assoc)
qed simp

definition utf8_checked :: "decode_error + bytes \<times> nat \<Rightarrow> key_error + bytes \<times> nat" where
  "utf8_checked r = (case r of Inl _ \<Rightarrow> Inl KeyError
     | Inr (d, c) \<Rightarrow> if valid_utf8 d then Inr (d, c) else Inl KeyError)"

lemma from_utf8_invalid [simp]: "\<not> valid_utf8 s \<Longrightarrow> from_utf8 s = None"
  by (simp add: from_utf8_def)

lemma decode_string_ref_loop_spec:
  assumes "start \<le> seg" "seg \<le> i" "decoded = None \<Longrightarrow> seg = start"
  shows "decode_string_ref_loop bs start i seg decoded
    = utf8_checked (decode_bytes_value_from
        ((case decoded of Some out \<Rightarrow> out | None \<Rightarrow> []) @ slice bs seg i) i (drop i bs))"
  using assms
proof (induction bs start i seg decoded rule: decode_string_ref_loop.induct)
  case (1 bs start i seg decoded)
  let ?acc = "(case decoded of Some out \<Rightarrow> out | None \<Rightarrow> []) @ slice bs seg i"
  show ?case
  proof (cases "i < length bs")
    case False
    then show ?thesis by (simp add: decode_string_ref_loop.simps utf8_checked_def)
  next
    case True
    then have tail: "drop i bs = bs ! i # drop (Suc i) bs"
      by (simp add: Cons_nth_drop_Suc)
    consider (esc) "bs ! i = 0" "i + 1 < length bs" "bs ! (i + 1) = 0xFF"
      | (stop) "bs ! i = 0" "\<not> (i + 1 < length bs \<and> bs ! (i + 1) = 0xFF)"
      | (step) "bs ! i \<noteq> 0"
      by blast
    then show ?thesis
    proof cases
      case esc
      then have "drop (Suc i) bs = 0xFF # drop (i + 2) bs"
        using Cons_nth_drop_Suc [of "Suc i" bs] by simp
      with esc True 1 tail show ?thesis
        by (subst decode_string_ref_loop.simps) simp
    next
      case stop
      have "decode_bytes_value_from ?acc i (drop i bs) = Inr (?acc, i + 1)"
      proof (cases "drop (Suc i) bs")
        case (Cons c cs)
        then have "i + 1 < length bs" "c = bs ! (i + 1)"
          by (metis Suc_eq_plus1 drop_eq_Nil list.distinct(1) not_le)
            (metis Cons Suc_eq_plus1 nth_via_drop)
        with stop Cons show ?thesis unfolding tail by simp
      qed (use stop tail in simp)
      with stop True 1(5) show ?thesis
        by (subst decode_string_ref_loop.simps) (auto simp: utf8_checked_def split: option.splits)
    next
      case step
      with True 1 tail show ?thesis
        by (subst decode_string_ref_loop.simps) (simp add: slice_snoc)
    qed
  qed
qed

lemma decode_string_ref_spec:
  "decode_string_ref bs pos = (case decode_element (drop pos bs) of
      Inr (TBytes b, n) \<Rightarrow> if valid_utf8 b then Inr (b, pos + n) else Inl KeyError
    | _ \<Rightarrow> Inl KeyError)"
proof (cases "pos < length bs")
  case True
  then have tail: "drop pos bs = bs ! pos # drop (Suc pos) bs"
    by (simp add: Cons_nth_drop_Suc)
  show ?thesis
  proof (cases "bs ! pos = BYTES_CODE")
    case False
    with True show ?thesis
      by (auto simp: decode_string_ref_def tail decode_element_def Let_def split: sum.splits)
  next
    case code: True
    have "decode_string_ref bs pos
      = utf8_checked (decode_bytes_value_from [] (Suc pos + 0) (drop (Suc pos) bs))"
      using True code by (simp add: decode_string_ref_def decode_string_ref_loop_spec)
    then show ?thesis
      unfolding decode_bytes_value_from_shift
      by (auto simp: tail code decode_element_def decode_bytes_value_def code_defs utf8_checked_def
          split: sum.splits)
  qed
qed (simp add: decode_string_ref_def decode_element_def)

lemma decode_i64_ref_spec:
  "decode_i64_ref bs pos = (case decode_element (drop pos bs) of
      Inr (TInt i, n) \<Rightarrow> Inr (i, pos + n)
    | _ \<Rightarrow> Inl KeyError)"
proof (cases "pos < length bs")
  case True
  then have tail: "drop pos bs = bs ! pos # drop (Suc pos) bs"
    by (simp add: Cons_nth_drop_Suc)
  obtain c where c: "bs ! pos = c" by simp
  have len: "length bs < Suc (pos + n) \<longleftrightarrow> length bs - Suc pos < n" for n
    using True by linarith
  consider (zero) "c = 0x14" | (pos) "0x14 < c" "c \<le> 0x1c" | (neg) "0x0c \<le> c" "c < 0x14"
    | (low) "\<not> 0x0c \<le> c" "\<not> 0x14 < c" "c \<noteq> 0x14" | (high) "\<not> c \<le> 0x1c" "\<not> c < 0x14" "c \<noteq> 0x14"
    using linorder_less_linear [of c "0x14"] order_less_asym [of c "0x14"] by blast
  then show ?thesis
  proof cases
    case zero
    with True show ?thesis
      by (simp add: decode_i64_ref_def tail c decode_element_def code_defs)
  next
    case pos
    then have "c \<noteq> 0" "c \<noteq> 1" "c \<noteq> 0x14" by auto
    with pos True show ?thesis
      by (simp add: decode_i64_ref_def tail c decode_element_def code_defs Let_def slice_def len)
  next
    case neg
    then have "c \<noteq> 0" "c \<noteq> 1" "c \<noteq> 0x14" "\<not> 0x14 < c" by (auto simp: word_le_nat_alt)
    with neg True show ?thesis
      by (simp add: decode_i64_ref_def tail c decode_element_def code_defs Let_def slice_def len)
  next
    case low
    with True have "decode_i64_ref bs pos = Inl KeyError"
      by (simp add: decode_i64_ref_def c code_defs)
    with low show ?thesis
      by (simp add: tail c decode_element_def code_defs res_bind_def split: sum.split)
  next
    case high
    with True have "decode_i64_ref bs pos = Inl KeyError"
      by (simp add: decode_i64_ref_def c code_defs)
    with high show ?thesis
      by (simp add: tail c decode_element_def code_defs res_bind_def split: sum.split)
  qed
qed (simp add: decode_i64_ref_def decode_element_def)

lemma parse_column_key_ref_chain:
  "parse_column_key_ref key = Inr (t, r, c) \<longleftrightarrow>
    (\<exists>n1 n2 n3 n4. decode_element key = Inr (TBytes TAG_ROW, n1)
      \<and> decode_element (drop n1 key) = Inr (TBytes t, n2) \<and> valid_utf8 t
      \<and> decode_element (drop (n1 + n2) key) = Inr (TInt r, n3)
      \<and> decode_element (drop (n1 + n2 + n3) key) = Inr (TBytes c, n4) \<and> valid_utf8 c
      \<and> n1 + n2 + n3 + n4 = length key)"
proof -
  have str_ok: "decode_string_ref key pos = Inr (s, pos') \<longleftrightarrow>
      (\<exists>n. decode_element (drop pos key) = Inr (TBytes s, n) \<and> valid_utf8 s \<and> pos' = pos + n)" for pos s pos'
    by (auto simp: decode_string_ref_spec split: sum.splits tuple_element.splits if_splits)
  have int_ok: "decode_i64_ref key pos = Inr (i, pos') \<longleftrightarrow>
      (\<exists>n. decode_element (drop pos key) = Inr (TInt i, n) \<and> pos' = pos + n)" for pos i pos'
    by (auto simp: decode_i64_ref_spec split: sum.splits tuple_element.splits)
  have R: "valid_utf8 TAG_ROW" by (simp add: TAG_ROW_def str_def)
  show ?thesis
    unfolding parse_column_key_ref_def
    by (auto simp: res_bind_Inr_iff split_paired_Ex str_ok int_ok R split: if_splits)
qed

lemma decode_tuple_no_string: "decode_tuple bs = Inr es \<Longrightarrow> TString s \<notin> set es"
proof (induction es arbitrary: bs)
  case (Cons e es)
  then obtain n where "decode_element bs = Inr (e, n)" "decode_tuple (drop n bs) = Inr es"
    by (subst (asm) (2) decode_tuple_rec) (auto simp: res_bind_Inr_iff split: if_splits)
  with Cons.IH show ?case using decode_element_not_string by fastforce
qed simp

lemma parse_row_column_iff:
  assumes "\<And>s. TString s \<notin> set [e1, e2, e3, e4]"
  shows "parse_row_elements [e1, e2, e3, e4] = Inr (PColumn t r c) \<longleftrightarrow>
    e2 = TBytes t \<and> valid_utf8 t \<and> e3 = TInt r \<and> e4 = TBytes c \<and> valid_utf8 c"
  using assms
  by (cases e2; cases e3; cases e4) (auto simp: parse_row_elements_def numeral_eq_Suc res_bind_Inr_iff)

lemma parse_key_column_iff:
  assumes es: "decode_tuple key = Inr [e1, e2, e3, e4]"
  shows "parse_key key = Inr (PColumn t r c) \<longleftrightarrow>
    e1 = TBytes TAG_ROW \<and> e2 = TBytes t \<and> valid_utf8 t \<and> e3 = TInt r \<and> e4 = TBytes c \<and> valid_utf8 c"
proof -
  have nostr: "TString s \<notin> set [e1, e2, e3, e4]" for s
    using decode_tuple_no_string [OF es] .
  have other: "parse_schema_elements es \<noteq> Inr (PColumn t r c)" "parse_index_elements es \<noteq> Inr (PColumn t r c)"
    "parse_marker_elements es \<noteq> Inr (PColumn t r c)" for es
    by (auto simp: parse_schema_elements_def parse_index_elements_def parse_marker_elements_def
        res_bind_Inr_iff split: sum.splits if_splits)
  have key: "parse_key key = res_bind (case e1 of TBytes b \<Rightarrow> Inr b | TString s \<Rightarrow> Inr s | _ \<Rightarrow> Inl KeyError)
        (\<lambda>tag.
          if tag = TAG_SCHEMA then parse_schema_elements [e1, e2, e3, e4]
          else if tag = TAG_ROW then parse_row_elements [e1, e2, e3, e4]
          else if tag = TAG_INDEX then parse_index_elements [e1, e2, e3, e4]
          else if tag = TAG_MARKER then parse_marker_elements [e1, e2, e3, e4]
          else Inl KeyError)"
    by (simp add: parse_key_def es)
  show ?thesis
  proof (cases e1)
    case (TBytes b)
    then show ?thesis
      using other nostr parse_row_column_iff [OF nostr, of t r c] unfolding key by auto
  next
    case (TString s)
    then show ?thesis using nostr by auto
  qed (simp_all add: key)
qed

lemma decode_tuple_Cons:
  assumes "decode_element bs = Inr (e, n)"
  shows "decode_tuple bs = res_bind (decode_tuple (drop n bs)) (\<lambda>es. Inr (e # es))"
  using decode_element_progress [OF assms] assms by (subst decode_tuple_rec) simp

lemma decode_tuple_consumed4:
  "decode_tuple bs = Inr [e1, e2, e3, e4] \<longleftrightarrow>
    (\<exists>n1 n2 n3 n4. decode_element bs = Inr (e1, n1) \<and> decode_element (drop n1 bs) = Inr (e2, n2)
      \<and> decode_element (drop (n1 + n2) bs) = Inr (e3, n3)
      \<and> decode_element (drop (n1 + n2 + n3) bs) = Inr (e4, n4)
      \<and> n1 + n2 + n3 + n4 = length bs)"
proof -
  have step: "decode_tuple bs = Inr (e # es) \<longleftrightarrow>
      (\<exists>n. decode_element bs = Inr (e, n) \<and> decode_tuple (drop n bs) = Inr es)" for bs e es
  proof
    assume "decode_tuple bs = Inr (e # es)"
    then show "\<exists>n. decode_element bs = Inr (e, n) \<and> decode_tuple (drop n bs) = Inr es"
      by (subst (asm) decode_tuple_rec) (auto simp: res_bind_Inr_iff split: if_splits)
  qed (auto simp: decode_tuple_Cons)
  have nil: "decode_tuple bs = Inr [] \<longleftrightarrow> bs = []" for bs
  proof
    assume "decode_tuple bs = Inr []"
    then show "bs = []"
      by (subst (asm) decode_tuple_rec) (auto simp: res_bind_Inr_iff split: if_splits)
  qed (simp add: decode_tuple_rec)
  have le: "decode_element (drop k bs) = Inr (e, n) \<Longrightarrow> k + n \<le> length bs" for k e n
    using decode_element_consumed [of "drop k bs" e n] decode_element_progress [of "drop k bs" e n]
    by auto
  show ?thesis
    unfolding step nil by (auto simp: add.commute add.left_commute add.assoc) (metis add.assoc le le_antisym)
qed

section \<open>Prefix scans\<close>

lemma esc_prefix:
  assumes "no_FF u" "esc b @ 0 # z = esc b' @ 0 # u"
  shows "b' = b \<or> (\<exists>c. b' = b @ 0 # c)"
  using assms(2)
proof (induction b arbitrary: b')
  case Nil
  then show ?case by (cases b') (auto split: if_splits)
next
  case (Cons x b)
  show ?case
  proof (cases b')
    case Nil
    with Cons.prems assms(1) show ?thesis by (auto simp: no_FF_def split: if_splits)
  next
    case (Cons y c)
    with Cons.prems Cons.IH [of c] show ?thesis by (auto split: if_splits)
  qed
qed

lemma prefix_snoc_split:
  assumes "length xs = length ys" "prefix (encode_tuple (xs @ [x])) (encode_tuple (ys @ y # zs))"
  shows "map bytes_form xs = map bytes_form ys \<and> prefix (enc x) (enc y @ encode_tuple zs)"
  using assms
proof (induction xs ys rule: list_induct2)
  case (Cons a as b bs)
  then obtain w where w: "enc a @ (encode_tuple (as @ [x]) @ w) = enc b @ encode_tuple (bs @ y # zs)"
    by (auto simp: encode_tuple_simps elim: prefixE)
  have "no_FF (encode_tuple (as @ [x]) @ w)"
    using enc_head [of x] enc_head [of "hd as"]
    by (cases as) (auto simp: encode_tuple_simps no_FF_def)
  from enc_split [OF w disjI1 [OF this] no_FF_encode_tuple] Cons.IH show ?case
    by (metis list.simps(9) prefixI)
qed (simp add: encode_tuple_simps)

lemma enc_string_prefix:
  "prefix (enc (TBytes s)) (enc v @ encode_tuple zs)
    \<longleftrightarrow> (\<exists>s'. bytes_form v = TBytes s' \<and> (s' = s \<or> (\<exists>c. s' = s @ 0 # c)))"
proof
  assume "prefix (enc (TBytes s)) (enc v @ encode_tuple zs)"
  then obtain w where w: "enc (TBytes s) @ w = enc v @ encode_tuple zs"
    by (auto elim: prefixE)
  have "elem_rank v = 1"
  proof (rule ccontr)
    assume "elem_rank v \<noteq> 1"
    then consider "elem_rank v < elem_rank (TBytes s)" | "elem_rank (TBytes s) < elem_rank v"
      by fastforce
    then show False
      using enc_rank_less [of v "TBytes s" "encode_tuple zs" w] enc_rank_less [of "TBytes s" v w "encode_tuple zs"] w
      by (cases) auto
  qed
  then obtain s' where s': "bytes_form v = TBytes s'" "enc v = enc (TBytes s')"
    by (cases v) auto
  have "esc s @ 0 # w = esc s' @ 0 # encode_tuple zs"
    using w by (simp add: s' encode_bytes_value_esc)
  from esc_prefix [OF no_FF_encode_tuple this] s' show
    "\<exists>s'. bytes_form v = TBytes s' \<and> (s' = s \<or> (\<exists>c. s' = s @ 0 # c))" by auto
next
  assume "\<exists>s'. bytes_form v = TBytes s' \<and> (s' = s \<or> (\<exists>c. s' = s @ 0 # c))"
  then obtain s' where s': "bytes_form v = TBytes s'" "s' = s \<or> (\<exists>c. s' = s @ 0 # c)" by auto
  then have "enc v = enc (TBytes s')" by (metis enc_bytes_form)
  with s'(2) show "prefix (enc (TBytes s)) (enc v @ encode_tuple zs)"
    by (auto simp: encode_bytes_value_esc)
qed

section \<open>Logical addresses\<close>

text \<open>
  The logical addresses of the key space, one constructor per builder of \<open>keys.rs\<close> that names a
  single stored entry, with the tuple each builder encodes.
\<close>

datatype storage_address =
    ASchema bytes | AColumns bytes | AIndexes bytes | AListColumns bytes | ANextId bytes
  | AIdMode bytes | ANextListNumber | AListHead i64 | AListTail i64 | AListParent i64
  | AColumn bytes i64 bytes | AIndex bytes bytes tuple_element i64
  | AAclRule bytes bytes | AOnlyViaActions bytes bytes | AAction bytes bytes | AMarker bytes

fun address_key :: "storage_address \<Rightarrow> bytes" where
  "address_key (ASchema t) = schema_key t"
| "address_key (AColumns t) = schema_columns_key t"
| "address_key (AIndexes t) = schema_indexes_key t"
| "address_key (AListColumns t) = schema_list_columns_key t"
| "address_key (ANextId t) = schema_next_id_key t"
| "address_key (AIdMode t) = schema_id_mode_key t"
| "address_key ANextListNumber = schema_next_list_number_key"
| "address_key (AListHead n) = list_head_key n"
| "address_key (AListTail n) = list_tail_key n"
| "address_key (AListParent n) = list_parent_key n"
| "address_key (AColumn t r c) = column_key t r c"
| "address_key (AIndex t c v r) = projr (index_key t c (Inr v) r)"
| "address_key (AAclRule t op) = acl_rule_key t op"
| "address_key (AOnlyViaActions t op) = acl_only_via_actions_key t op"
| "address_key (AAction t n) = action_storage_key t n"
| "address_key (AMarker t) = action_marker_key t"

fun address_norm :: "storage_address \<Rightarrow> storage_address" where
  "address_norm (AIndex t c v r) = AIndex t c (bytes_form v) r"
| "address_norm a = a"

fun address_tuple :: "storage_address \<Rightarrow> tuple_element list" where
  "address_tuple (ASchema t) = [TBytes TAG_SCHEMA, TBytes t]"
| "address_tuple (AColumns t) = [TBytes TAG_SCHEMA, TBytes t, TBytes (str ''columns'')]"
| "address_tuple (AIndexes t) = [TBytes TAG_SCHEMA, TBytes t, TBytes (str ''indexes'')]"
| "address_tuple (AListColumns t) = [TBytes TAG_SCHEMA, TBytes t, TBytes (str ''list_columns'')]"
| "address_tuple (ANextId t) = [TBytes TAG_SCHEMA, TBytes t, TBytes (str ''next_id'')]"
| "address_tuple (AIdMode t) = [TBytes TAG_SCHEMA, TBytes t, TBytes (str ''id_mode'')]"
| "address_tuple ANextListNumber = [TBytes TAG_SCHEMA, TBytes LISTS_TABLE, TBytes (str ''next_list_number'')]"
| "address_tuple (AListHead n) = [TBytes TAG_SCHEMA, TBytes LISTS_TABLE, TBytes (str ''head''), TInt n]"
| "address_tuple (AListTail n) = [TBytes TAG_SCHEMA, TBytes LISTS_TABLE, TBytes (str ''tail''), TInt n]"
| "address_tuple (AListParent n) = [TBytes TAG_SCHEMA, TBytes LISTS_TABLE, TBytes (str ''parent''), TInt n]"
| "address_tuple (AColumn t r c) = [TBytes TAG_ROW, TBytes t, TInt r, TBytes c]"
| "address_tuple (AIndex t c v r) = [TBytes TAG_INDEX, TBytes t, TBytes c, bytes_form v, TInt r]"
| "address_tuple (AAclRule t op) = [TBytes TAG_SCHEMA, TBytes t, TBytes (str ''acl''), TBytes op]"
| "address_tuple (AOnlyViaActions t op) = [TBytes TAG_SCHEMA, TBytes t, TBytes (str ''only_via_actions''), TBytes op]"
| "address_tuple (AAction t n) = [TBytes TAG_SCHEMA, TBytes t, TBytes (str ''action''), TBytes n]"
| "address_tuple (AMarker t) = [TBytes TAG_MARKER, TBytes (str ''action_marker''), TBytes t]"

lemma address_key_tuple: "decode_tuple (address_key a) = Inr (address_tuple a)"
  by (cases a) (simp_all add: builder_defs tuple_decode_encode)

lemma address_tuple_inj: "address_tuple a = address_tuple b \<Longrightarrow> address_norm a = address_norm b"
  by (cases a; cases b) (simp_all add: str_eq_iff)

lemma bytes_form_idem [simp]: "bytes_form (bytes_form v) = bytes_form v"
  by (cases v) simp_all

lemma address_key_norm: "address_key (address_norm a) = address_key a"
  by (cases a) (simp_all add: index_key_def tuple_codec.encode_eq_iff)

section \<open>Properties\<close>

text \<open>
  C25: The allocation-free column-key parser agrees with the general one: it returns
  \<open>(table, row_id, column)\<close> exactly when the general parser reads the key as that column and the
  key has exactly four tuple elements.
\<close>

theorem column_key_ref_equivalence:
  "parse_column_key_ref key = Inr (t, r, c) \<longleftrightarrow>
    parse_key key = Inr (PColumn t r c) \<and> (\<exists>e1 e2 e3 e4. decode_tuple key = Inr [e1, e2, e3, e4])"
proof
  assume "parse_column_key_ref key = Inr (t, r, c)"
  then have es: "decode_tuple key = Inr [TBytes TAG_ROW, TBytes t, TInt r, TBytes c]"
    and "valid_utf8 t" "valid_utf8 c"
    unfolding parse_column_key_ref_chain decode_tuple_consumed4 by blast+
  with parse_key_column_iff [OF es, of t r c] show
    "parse_key key = Inr (PColumn t r c) \<and> (\<exists>e1 e2 e3 e4. decode_tuple key = Inr [e1, e2, e3, e4])"
    by auto
next
  assume "parse_key key = Inr (PColumn t r c) \<and> (\<exists>e1 e2 e3 e4. decode_tuple key = Inr [e1, e2, e3, e4])"
  then obtain e1 e2 e3 e4 where es: "decode_tuple key = Inr [e1, e2, e3, e4]"
    and "parse_key key = Inr (PColumn t r c)" by blast
  with parse_key_column_iff [OF es, of t r c] show "parse_column_key_ref key = Inr (t, r, c)"
    unfolding parse_column_key_ref_chain decode_tuple_consumed4 by blast
qed

text \<open>
  C26: Two logical addresses (schema entries, counters, list pointers, columns, index entries, ACL
  rules, actions, markers) have the same storage key only if they are the same address, up to the
  string or byte-string form of an indexed value.
\<close>

theorem storage_keys_injective:
  "address_key a = address_key b \<longleftrightarrow> address_norm a = address_norm b"
  by (metis address_key_tuple address_tuple_inj address_key_norm Inr_inject)

text \<open>
  C28: Parsing a built key recovers its components, for every kind of key the parser knows, when the
  names are valid UTF-8.
\<close>

theorem key_round_trip:
  assumes "valid_utf8 t" "valid_utf8 c"
  shows "parse_key (schema_key t) = Inr (PSchema t)
    \<and> parse_key (schema_columns_key t) = Inr (PSchemaColumns t)
    \<and> parse_key (schema_next_id_key t) = Inr (PSchemaNextId t)
    \<and> parse_key (schema_id_mode_key t) = Inr (PSchemaIdMode t)
    \<and> parse_key (row_prefix t) = Inr (PRowPrefix t)
    \<and> parse_key (row_key t r) = Inr (PRow t r)
    \<and> parse_key (column_key t r c) = Inr (PColumn t r c)
    \<and> res_bind (index_key t c (Inr v) r) (map_err (\<lambda>_. TupleConversionError) \<circ> parse_key)
        = Inr (PIndex t c (bytes_form v) r)
    \<and> parse_key (acl_rule_key t c) = Inr (PAclRule t c)
    \<and> parse_key (acl_only_via_actions_key t c) = Inr (POnlyViaActions t c)
    \<and> parse_key (action_storage_key t c) = Inr (PAction t c)
    \<and> parse_key (action_marker_key t) = Inr (PActionMarker t)"
proof -
  obtain key where key: "index_key t c (Inr v) r = Inr key"
    by (simp add: index_key_def)
  show ?thesis
    using parse_key_row [OF assms] parse_key_schema [OF assms] parse_key_index [OF assms key]
    by (simp add: key)
qed

theorem key_round_trip_witness:
  "parse_key (column_key (str ''messages'') 7 (str ''body''))
    = Inr (PColumn (str ''messages'') 7 (str ''body''))
   \<and> parse_key (acl_rule_key (str ''messages'') (str ''body''))
    = Inr (PAclRule (str ''messages'') (str ''body''))"
proof -
  have "valid_utf8 (str ''messages'')" "valid_utf8 (str ''body'')"
    by (simp_all add: str_def)
  from key_round_trip [OF this, of 7] show ?thesis by simp
qed

text \<open>
  C29: The prefix of a row selects, among all encoded keys, exactly the keys whose tuple starts with
  the row tag, that table and that row identifier.
\<close>

theorem row_scan_exact:
  "prefix (row_key t r) (encode_tuple es) \<longleftrightarrow>
    (\<exists>zs. map bytes_form es = [TBytes TAG_ROW, TBytes t, TInt r] @ zs)"
  unfolding row_key_def by (subst encode_tuple_prefix_iff) (auto simp: prefix_def)

text \<open>
  C27: The equality prefix of an index selects the entries of the same table, column and value; for
  a string value it also selects the entries whose value is that string followed by a NUL
  character and anything else, and no others.
\<close>

theorem index_scan_selects:
  "prefix (projr (index_value_prefix t c (Inr v))) (projr (index_key t' c' (Inr v') r)) \<longleftrightarrow>
    t' = t \<and> c' = c \<and> (bytes_form v' = bytes_form v \<or>
      (\<exists>s z. bytes_form v = TBytes s \<and> bytes_form v' = TBytes (s @ 0 # z)))"
proof (cases "elem_rank v = 1")
  case False
  then have "\<And>s. bytes_form v \<noteq> TBytes s" by (cases v) auto
  with False show ?thesis
    by (simp add: index_value_prefix_def index_key_def) (subst encode_tuple_prefix_iff, auto)
next
  case True
  then obtain s where s: "bytes_form v = TBytes s" "enc v = enc (TBytes s)" by (cases v) auto
  let ?xs = "[TString TAG_INDEX, TString t, TString c]"
  let ?ys = "[TString TAG_INDEX, TString t', TString c']"
  have "prefix (encode_tuple (?xs @ [v])) (encode_tuple (?ys @ v' # [TInt r])) \<longleftrightarrow>
      map bytes_form ?xs = map bytes_form ?ys \<and> prefix (enc v) (enc v' @ encode_tuple [TInt r])"
    using prefix_snoc_split [of ?xs ?ys v v' "[TInt r]"] by (auto simp: encode_tuple_simps)
  then show ?thesis
    unfolding s(2) enc_string_prefix by (auto simp: s index_value_prefix_def index_key_def)
qed

text \<open>
  Column names survive storage: a set of non-empty names without NUL characters whose
  encoding is valid UTF-8 is decoded to the same set.
\<close>

theorem column_names_round_trip:
  assumes "sorted_wrt (<) names" "[] \<notin> set names" "\<forall>n \<in> set names. 0 \<notin> set n"
    and "valid_utf8 (encode_column_names names)"
  shows "decode_column_names (encode_column_names names) = Some names"
proof (cases "names = []")
  case False
  then show ?thesis
    using assms encode_column_names_nonempty [OF False assms(2)] split_encode_column_names [OF False]
    by (simp add: decode_column_names_def btree_set_id)
qed (simp add: decode_column_names_def)

theorem column_names_round_trip_witness:
  "decode_column_names (encode_column_names [str ''name'', str ''price'']) = Some [str ''name'', str ''price'']"
proof -
  have "sorted_wrt (<) [str ''name'', str ''price'']" "[] \<notin> set [str ''name'', str ''price'']"
    "\<forall>n \<in> set [str ''name'', str ''price'']. 0 \<notin> set n"
    "valid_utf8 (encode_column_names [str ''name'', str ''price''])"
    by (simp_all add: str_def)
  then show ?thesis by (rule column_names_round_trip)
qed

end
