(* ===== verification/Mmr_Tree.thy ===== *)
theory Mmr_Tree
  imports Prelude
begin

text \<open>
  The append-only Merkle tree of \<open>ffproof/changelog_core/src/mmr_tree.rs\<close>: the peak-based writer,
  tree heads, the incremental proof cache and the stateless verifier.

  SHA-256 is a parameter \<open>H\<close> of every definition that hashes; a digest is a 256-bit word.  An
  \<open>assert!\<close> or \<open>expect\<close> that fails is the result \<^const>\<open>None\<close> of a writer operation.  The fields of the
  records have the widths of the source; loops over positions inside a tree use natural numbers,
  which never exceed \<open>tree_size\<close>.

  The lemmas show that the writer computes the RFC 6962 root of its leaves (\<open>subtree_root\<close>), that
  the cache holds exactly the subtree roots the recursion needs, that proofs it generates verify,
  and that a verified proof pins down the leaf unless the verifier run exhibits a hash collision.
\<close>

section \<open>Digests and hashing\<close>

type_synonym digest = "256 word"

definition digest_bytes :: "digest \<Rightarrow> bytes" where
  "digest_bytes d = nat_be 32 (unat d)"

definition TAG_LEAF :: u8 where "TAG_LEAF = 0x00"
definition TAG_NODE :: u8 where "TAG_NODE = 0x01"
definition TAG_INIT :: u8 where "TAG_INIT = 0x02"

definition MAX_TREE_SIZE :: u32 where "MAX_TREE_SIZE = 0xFFFFFFFF"
definition MAX_INCLUSION_PROOF_SIBLINGS :: nat where "MAX_INCLUSION_PROOF_SIBLINGS = 32"

definition h_leaf :: "(bytes \<Rightarrow> digest) \<Rightarrow> bytes \<Rightarrow> digest" where
  "h_leaf H data = H (TAG_LEAF # data)"

definition h_init :: "(bytes \<Rightarrow> digest) \<Rightarrow> bytes \<Rightarrow> digest" where
  "h_init H data = H (TAG_INIT # data)"

definition node_bytes :: "digest \<Rightarrow> digest \<Rightarrow> bytes" where
  "node_bytes l r = TAG_NODE # digest_bytes l @ digest_bytes r"

definition h_node :: "(bytes \<Rightarrow> digest) \<Rightarrow> digest \<Rightarrow> digest \<Rightarrow> digest" where
  "h_node H l r = H (node_bytes l r)"

section \<open>Writer state\<close>

record mmr_tree =
  mt_peaks :: "digest list"
  mt_tree_size :: u32

record tree_head =
  th_root :: digest
  th_tree_size :: u32
  th_peaks :: "digest list"

fun count_ones :: "nat \<Rightarrow> nat" where
  "count_ones n = (if n = 0 then 0 else n mod 2 + count_ones (n div 2))"

declare count_ones.simps [simp del]

definition is_supported_live_tree_size :: "u32 \<Rightarrow> bool" where
  "is_supported_live_tree_size tree_size \<longleftrightarrow> tree_size \<noteq> 0"

definition peak_count_matches :: "u32 \<Rightarrow> digest list \<Rightarrow> bool" where
  "peak_count_matches tree_size peaks \<longleftrightarrow>
    (if length peaks < 2 ^ 32 then length peaks = count_ones (unat tree_size) else False)"

definition writer_state_is_well_formed :: "u32 \<Rightarrow> digest list \<Rightarrow> bool" where
  "writer_state_is_well_formed tree_size peaks \<longleftrightarrow>
    (if tree_size = 0 then peaks = []
     else is_supported_live_tree_size tree_size \<and> peak_count_matches tree_size peaks)"

definition fold_peaks :: "(bytes \<Rightarrow> digest) \<Rightarrow> digest list \<Rightarrow> digest option" where
  "fold_peaks H peaks = (case rev peaks of
      [] \<Rightarrow> None
    | acc # it \<Rightarrow> Some (foldl (\<lambda>acc p. h_node H p acc) acc it))"

definition mmr_new :: mmr_tree where
  "mmr_new = \<lparr>mt_peaks = [], mt_tree_size = 0\<rparr>"

fun merge_peaks :: "(bytes \<Rightarrow> digest) \<Rightarrow> digest list \<Rightarrow> digest \<Rightarrow> nat \<Rightarrow> (digest list \<times> digest) option" where
  "merge_peaks H peaks carry k =
    (if k mod 2 = 1 then
       (if peaks = [] then None
        else merge_peaks H (butlast peaks) (h_node H (last peaks) carry) (k div 2))
     else Some (peaks, carry))"

declare merge_peaks.simps [simp del]

definition append_hash :: "(bytes \<Rightarrow> digest) \<Rightarrow> mmr_tree \<Rightarrow> digest \<Rightarrow> mmr_tree option" where
  "append_hash H t leaf_hash =
    (if \<not> writer_state_is_well_formed (mt_tree_size t) (mt_peaks t) then None
     else if \<not> mt_tree_size t < MAX_TREE_SIZE then None
     else (case merge_peaks H (mt_peaks t) leaf_hash (unat (mt_tree_size t)) of
         None \<Rightarrow> None
       | Some (peaks, carry) \<Rightarrow>
           Some \<lparr>mt_peaks = peaks @ [carry], mt_tree_size = mt_tree_size t + 1\<rparr>))"

definition initialize :: "(bytes \<Rightarrow> digest) \<Rightarrow> mmr_tree \<Rightarrow> bytes \<Rightarrow> mmr_tree option" where
  "initialize H t initial_dc =
    (if mt_tree_size t \<noteq> 0 then None
     else if mt_peaks t \<noteq> [] then None
     else append_hash H t (h_init H initial_dc))"

definition mmr_append :: "(bytes \<Rightarrow> digest) \<Rightarrow> mmr_tree \<Rightarrow> bytes \<Rightarrow> (mmr_tree \<times> digest) option" where
  "mmr_append H t entry =
    (if \<not> 0 < mt_tree_size t then None
     else (let leaf_hash = h_leaf H entry
           in map_option (\<lambda>t'. (t', leaf_hash)) (append_hash H t leaf_hash)))"

definition mmr_root :: "(bytes \<Rightarrow> digest) \<Rightarrow> mmr_tree \<Rightarrow> digest option" where
  "mmr_root H t =
    (if \<not> writer_state_is_well_formed (mt_tree_size t) (mt_peaks t) then None
     else fold_peaks H (mt_peaks t))"

definition mmr_tree_head :: "(bytes \<Rightarrow> digest) \<Rightarrow> mmr_tree \<Rightarrow> tree_head option" where
  "mmr_tree_head H t = Option.bind (mmr_root H t) (\<lambda>r.
    Some \<lparr>th_root = r, th_tree_size = mt_tree_size t, th_peaks = mt_peaks t\<rparr>)"

definition peak_count :: "mmr_tree \<Rightarrow> nat" where
  "peak_count t = count_ones (unat (mt_tree_size t))"

definition rooted_head :: "(bytes \<Rightarrow> digest) \<Rightarrow> mmr_tree \<Rightarrow> tree_head option" where
  "rooted_head H t = Option.bind (mmr_root H t) (\<lambda>r.
    Some \<lparr>th_root = r, th_tree_size = mt_tree_size t, th_peaks = mt_peaks t\<rparr>)"

section \<open>Tree heads\<close>

definition tree_head_parts_are_well_formed ::
  "(bytes \<Rightarrow> digest) \<Rightarrow> u32 \<Rightarrow> digest list \<Rightarrow> digest \<Rightarrow> bool"
where
  "tree_head_parts_are_well_formed H tree_size peaks root \<longleftrightarrow>
    is_supported_live_tree_size tree_size
    \<and> peak_count_matches tree_size peaks
    \<and> fold_peaks H peaks = Some root"

definition head_is_well_formed :: "(bytes \<Rightarrow> digest) \<Rightarrow> tree_head \<Rightarrow> bool" where
  "head_is_well_formed H h = tree_head_parts_are_well_formed H (th_tree_size h) (th_peaks h) (th_root h)"

definition verify_for_tree_size :: "(bytes \<Rightarrow> digest) \<Rightarrow> tree_head \<Rightarrow> u32 \<Rightarrow> bool" where
  "verify_for_tree_size H h expected_tree_size \<longleftrightarrow>
    th_tree_size h = expected_tree_size
    \<and> tree_head_parts_are_well_formed H (th_tree_size h) (th_peaks h) (th_root h)"

definition verify_for_change_id :: "(bytes \<Rightarrow> digest) \<Rightarrow> tree_head \<Rightarrow> u32 \<Rightarrow> bool" where
  "verify_for_change_id H h change_id =
    (if change_id = 0xFFFFFFFF then False else verify_for_tree_size H h (change_id + 1))"

text \<open>The result is the flag the source returns and the head afterwards; \<^const>\<open>None\<close> is a panic.\<close>

definition try_append :: "(bytes \<Rightarrow> digest) \<Rightarrow> tree_head \<Rightarrow> bytes \<Rightarrow> (bool \<times> tree_head) option" where
  "try_append H h entry =
    (if \<not> head_is_well_formed H h \<or> th_tree_size h = MAX_TREE_SIZE then Some (False, h)
     else Option.bind (mmr_append H \<lparr>mt_peaks = th_peaks h, mt_tree_size = th_tree_size h\<rparr> entry)
       (\<lambda>(tree, _). Option.bind (rooted_head H tree) (\<lambda>h'. Some (True, h'))))"

definition head_append :: "(bytes \<Rightarrow> digest) \<Rightarrow> tree_head \<Rightarrow> bytes \<Rightarrow> tree_head option" where
  "head_append H h entry =
    Option.bind (try_append H h entry) (\<lambda>(ok, h'). if ok then Some h' else None)"

section \<open>Inclusion proofs\<close>

record inclusion_proof =
  ip_i :: u32
  ip_tree_size :: u32
  ip_siblings :: "digest list"

record proof_cache =
  pc_leaf_count :: u32
  pc_nodes :: "nat \<times> nat \<Rightarrow> digest option"

fun bit_length :: "nat \<Rightarrow> nat" where
  "bit_length n = (if n = 0 then 0 else Suc (bit_length (n div 2)))"

declare bit_length.simps [simp del]

text \<open>\<open>leading_zeros\<close> of a 64-bit \<open>usize\<close>.\<close>

definition leading_zeros :: "nat \<Rightarrow> nat" where
  "leading_zeros n = 64 - bit_length n"

definition largest_pow2_less_than :: "nat \<Rightarrow> nat" where
  "largest_pow2_less_than n = 2 ^ (64 - 1 - leading_zeros (n - 1))"

lemma bit_length_bound: "0 < m \<Longrightarrow> 2 ^ (bit_length m - 1) \<le> m \<and> m < 2 ^ bit_length m \<and> 0 < bit_length m"
proof (induction m rule: bit_length.induct)
  case (1 n)
  show ?case
  proof (cases "n div 2 = 0")
    case True
    with 1 have "n = 1" by auto
    then show ?thesis by (simp add: bit_length.simps)
  next
    case False
    with 1 have "2 ^ (bit_length (n div 2) - 1) \<le> n div 2 \<and> n div 2 < 2 ^ bit_length (n div 2)
        \<and> 0 < bit_length (n div 2)" by simp
    moreover from this obtain b where "bit_length (n div 2) = Suc b" by (cases "bit_length (n div 2)") auto
    ultimately show ?thesis
      using 1 by (subst (1 2 3) bit_length.simps) auto
  qed
qed

lemma largest_pow2_range:
  assumes "2 \<le> n"
  shows "0 < largest_pow2_less_than n" "largest_pow2_less_than n < n"
proof -
  let ?b = "bit_length (n - 1)"
  have b: "2 ^ (?b - 1) \<le> n - 1" "0 < ?b"
    using bit_length_bound [of "n - 1"] assms by auto
  have "64 - 1 - (64 - ?b) \<le> ?b - 1" by simp
  then have "(2 :: nat) ^ (64 - 1 - (64 - ?b)) \<le> 2 ^ (?b - 1)"
    by (rule power_increasing) simp
  with b assms show "largest_pow2_less_than n < n"
    unfolding largest_pow2_less_than_def leading_zeros_def by linarith
  show "0 < largest_pow2_less_than n" by (simp add: largest_pow2_less_than_def)
qed

definition cache_new :: proof_cache where
  "cache_new = \<lparr>pc_leaf_count = 0, pc_nodes = (\<lambda>_. None)\<rparr>"

definition cached_subtree_root :: "proof_cache \<Rightarrow> nat \<Rightarrow> nat \<Rightarrow> digest option" where
  "cached_subtree_root c lo hi = pc_nodes c (lo, hi)"

function spine :: "nat \<Rightarrow> nat \<Rightarrow> (nat \<times> nat) list" where
  "spine lo hi =
    (if 1 < hi - lo then
       (let k = largest_pow2_less_than (hi - lo); mid = lo + k
        in (lo, mid) # spine mid hi)
     else [])"
  by pat_completeness auto
termination
proof (relation "measure (\<lambda>(lo, hi). hi - lo)")
  fix lo hi x xa :: nat
  assume "1 < hi - lo" "x = largest_pow2_less_than (hi - lo)" "xa = lo + x"
  then show "((xa, hi), lo, hi) \<in> measure (\<lambda>(lo, hi). hi - lo)"
    using largest_pow2_range(1) [of "hi - lo"] by auto
qed simp

declare spine.simps [simp del]

fun extend_spine ::
  "(bytes \<Rightarrow> digest) \<Rightarrow> nat \<Rightarrow> (nat \<times> nat) list \<Rightarrow> digest \<Rightarrow> (nat \<times> nat \<Rightarrow> digest option)
    \<Rightarrow> (digest \<times> (nat \<times> nat \<Rightarrow> digest option)) option"
where
  "extend_spine H new_size [] cur_hash nodes = Some (cur_hash, nodes)"
| "extend_spine H new_size ((left_lo, left_mid) # rest) cur_hash nodes =
    (case nodes (left_lo, left_mid) of
       None \<Rightarrow> None
     | Some left_hash \<Rightarrow>
         (let cur_hash = h_node H left_hash cur_hash
          in extend_spine H new_size rest cur_hash (nodes((left_lo, new_size) \<mapsto> cur_hash))))"

definition extend_with_leaf :: "(bytes \<Rightarrow> digest) \<Rightarrow> proof_cache \<Rightarrow> digest \<Rightarrow> proof_cache option" where
  "extend_with_leaf H c leaf_hash =
    (if \<not> pc_leaf_count c < MAX_TREE_SIZE then None
     else
       (let n = unat (pc_leaf_count c); new_size = n + 1;
            nodes = (pc_nodes c)((n, new_size) \<mapsto> leaf_hash)
        in map_option (\<lambda>(_, nodes). \<lparr>pc_leaf_count = of_nat new_size, pc_nodes = nodes\<rparr>)
             (extend_spine H new_size (rev (spine 0 new_size)) leaf_hash nodes)))"

fun extend_all :: "(bytes \<Rightarrow> digest) \<Rightarrow> proof_cache \<Rightarrow> digest list \<Rightarrow> proof_cache option" where
  "extend_all H c [] = Some c"
| "extend_all H c (h # hs) = Option.bind (extend_with_leaf H c h) (\<lambda>c'. extend_all H c' hs)"

text \<open>
  \<open>from_leaf_hashes\<close> returns \<open>None\<close> when there are too many leaves; the panics of the extension are
  the inner \<^const>\<open>None\<close>.
\<close>

definition from_leaf_hashes :: "(bytes \<Rightarrow> digest) \<Rightarrow> digest list \<Rightarrow> proof_cache option option" where
  "from_leaf_hashes H leaf_hashes =
    (if length leaf_hashes < 2 ^ 32 then
       map_option Some (extend_all H cache_new leaf_hashes)
     else Some None)"

function prove_walk ::
  "(nat \<times> nat \<Rightarrow> digest option) \<Rightarrow> nat \<Rightarrow> nat \<Rightarrow> nat \<Rightarrow> digest list \<Rightarrow> digest list option"
where
  "prove_walk nodes i lo hi siblings =
    (if 1 < hi - lo then
       (let k = largest_pow2_less_than (hi - lo); mid = lo + k
        in if i < mid then
             (case nodes (mid, hi) of None \<Rightarrow> None | Some sib \<Rightarrow> prove_walk nodes i lo mid (siblings @ [sib]))
           else
             (case nodes (lo, mid) of None \<Rightarrow> None | Some sib \<Rightarrow> prove_walk nodes i mid hi (siblings @ [sib])))
     else Some siblings)"
  by pat_completeness auto
termination
proof (relation "measure (\<lambda>(_, _, lo, hi, _). hi - lo)")
  show "wf (measure (\<lambda>(_, _, lo, hi, _). hi - lo))" by simp
  fix nodes :: "nat \<times> nat \<Rightarrow> digest option" and i lo hi :: nat and siblings :: "digest list" and x xa sib
  assume *: "1 < hi - lo" "x = largest_pow2_less_than (hi - lo)" "xa = lo + x"
  then have "0 < x" "x < hi - lo"
    using largest_pow2_range [of "hi - lo"] by auto
  with * show "((nodes, i, lo, xa, siblings @ [sib]), nodes, i, lo, hi, siblings)
      \<in> measure (\<lambda>(_, _, lo, hi, _). hi - lo)"
    and "((nodes, i, xa, hi, siblings @ [sib]), nodes, i, lo, hi, siblings)
      \<in> measure (\<lambda>(_, _, lo, hi, _). hi - lo)"
    by auto
qed

declare prove_walk.simps [simp del]

text \<open>\<open>ProofCache::prove\<close>: the inner option is the source's \<open>Option\<close>, the outer \<^const>\<open>None\<close> a panic.\<close>

definition cache_prove :: "proof_cache \<Rightarrow> u32 \<Rightarrow> inclusion_proof option option" where
  "cache_prove c i =
    (if \<not> i < pc_leaf_count c then Some None
     else map_option (\<lambda>siblings. Some \<lparr>ip_i = i, ip_tree_size = pc_leaf_count c, ip_siblings = rev siblings\<rparr>)
       (prove_walk (pc_nodes c) (unat i) 0 (unat (pc_leaf_count c)) []))"

definition prove_from_leaf_hashes ::
  "(bytes \<Rightarrow> digest) \<Rightarrow> digest list \<Rightarrow> u32 \<Rightarrow> inclusion_proof option option"
where
  "prove_from_leaf_hashes H leaf_hashes i =
    (if \<not> length leaf_hashes < 2 ^ 32 then Some None
     else if length leaf_hashes \<le> unat i then Some None
     else Option.bind (from_leaf_hashes H leaf_hashes) (\<lambda>oc.
       (case oc of None \<Rightarrow> Some None | Some c \<Rightarrow> cache_prove c i)))"

definition prove :: "(bytes \<Rightarrow> digest) \<Rightarrow> bytes list \<Rightarrow> u32 \<Rightarrow> inclusion_proof option option" where
  "prove H entries i = prove_from_leaf_hashes H (map (h_leaf H) entries) i"

section \<open>Verification\<close>

function subtree_root :: "(bytes \<Rightarrow> digest) \<Rightarrow> digest list \<Rightarrow> nat \<Rightarrow> nat \<Rightarrow> digest" where
  "subtree_root H hashes lo hi =
    (if hi - lo \<le> 1 then hashes ! lo
     else
       (let k = largest_pow2_less_than (hi - lo)
        in h_node H (subtree_root H hashes lo (lo + k)) (subtree_root H hashes (lo + k) hi)))"
  by pat_completeness auto
termination
proof (relation "measure (\<lambda>(_, _, lo, hi). hi - lo)")
  show "wf (measure (\<lambda>(_, _, lo, hi). hi - lo))" by simp
  fix H :: "bytes \<Rightarrow> digest" and hashes :: "digest list" and lo hi x :: nat
  assume *: "\<not> hi - lo \<le> 1" "x = largest_pow2_less_than (hi - lo)"
  then have "0 < x" "x < hi - lo"
    using largest_pow2_range [of "hi - lo"] by auto
  then show "((H, hashes, lo, lo + x), H, hashes, lo, hi) \<in> measure (\<lambda>(_, _, lo, hi). hi - lo)"
    and "((H, hashes, lo + x, hi), H, hashes, lo, hi) \<in> measure (\<lambda>(_, _, lo, hi). hi - lo)"
    by auto
qed

declare subtree_root.simps [simp del]

function directions_walk :: "nat \<Rightarrow> nat \<Rightarrow> nat \<Rightarrow> bool list \<Rightarrow> bool list option" where
  "directions_walk i lo hi directions =
    (if 1 < hi - lo then
       (if length directions = MAX_INCLUSION_PROOF_SIBLINGS then None
        else
          (let k = largest_pow2_less_than (hi - lo); mid = lo + k
           in if i < mid then directions_walk i lo mid (directions @ [True])
              else directions_walk i mid hi (directions @ [False])))
     else Some directions)"
  by pat_completeness auto
termination
proof (relation "measure (\<lambda>(_, lo, hi, _). hi - lo)")
  show "wf (measure (\<lambda>(_, lo, hi, _). hi - lo))" by simp
  fix i lo hi :: nat and directions :: "bool list" and x xa
  assume *: "1 < hi - lo" "x = largest_pow2_less_than (hi - lo)" "xa = lo + x"
  then have "0 < x" "x < hi - lo"
    using largest_pow2_range [of "hi - lo"] by auto
  with * show "((i, lo, xa, directions @ [True]), i, lo, hi, directions) \<in> measure (\<lambda>(_, lo, hi, _). hi - lo)"
    and "((i, xa, hi, directions @ [False]), i, lo, hi, directions) \<in> measure (\<lambda>(_, lo, hi, _). hi - lo)"
    by auto
qed

declare directions_walk.simps [simp del]

definition proof_directions :: "u32 \<Rightarrow> u32 \<Rightarrow> bool list option" where
  "proof_directions tree_size i =
    (if \<not> is_supported_live_tree_size tree_size \<or> tree_size \<le> i then None
     else directions_walk (unat i) 0 (unat tree_size) [])"

definition apply_siblings :: "(bytes \<Rightarrow> digest) \<Rightarrow> digest \<Rightarrow> (digest \<times> bool) list \<Rightarrow> digest" where
  "apply_siblings H leaf_hash steps =
    foldl (\<lambda>acc (sib, on_left). if on_left then h_node H acc sib else h_node H sib acc) leaf_hash steps"

definition verify_with_leaf_hash :: "(bytes \<Rightarrow> digest) \<Rightarrow> tree_head \<Rightarrow> inclusion_proof \<Rightarrow> digest \<Rightarrow> bool" where
  "verify_with_leaf_hash H h proof leaf_hash =
    (if \<not> head_is_well_formed H h then False
     else if ip_tree_size proof \<noteq> th_tree_size h then False
     else if MAX_INCLUSION_PROOF_SIBLINGS < length (ip_siblings proof) then False
     else (case proof_directions (ip_tree_size proof) (ip_i proof) of
         None \<Rightarrow> False
       | Some directions \<Rightarrow>
           if length directions \<noteq> length (ip_siblings proof) then False
           else apply_siblings H leaf_hash (zip (ip_siblings proof) (rev directions)) = th_root h))"

definition mmr_verify :: "(bytes \<Rightarrow> digest) \<Rightarrow> tree_head \<Rightarrow> inclusion_proof \<Rightarrow> bytes \<Rightarrow> bool" where
  "mmr_verify H h proof entry = verify_with_leaf_hash H h proof (h_leaf H entry)"

section \<open>The writer computes the reference root\<close>

lemma bit_length_eq: "2 ^ j \<le> m \<Longrightarrow> m < 2 ^ Suc j \<Longrightarrow> bit_length m = Suc j"
proof -
  assume m: "2 ^ j \<le> m" "m < 2 ^ Suc j"
  then have "0 < m" by (metis gr0I le_zero_eq power_not_zero zero_neq_numeral)
  note b = bit_length_bound [OF this]
  have "(2 :: nat) ^ (bit_length m - 1) < 2 ^ Suc j" "(2 :: nat) ^ j < 2 ^ bit_length m"
    using b m by linarith+
  then have "bit_length m - 1 < Suc j" "j < bit_length m"
    by (simp_all only: power_strict_increasing_iff one_less_numeral_iff semiring_norm)
  with b show ?thesis by linarith
qed

lemma largest_pow2_eq:
  assumes "2 ^ j < n" "n \<le> 2 ^ Suc j" "j < 64"
  shows "largest_pow2_less_than n = 2 ^ j"
proof -
  have "bit_length (n - 1) = Suc j"
    by (rule bit_length_eq) (use assms in auto)
  then show ?thesis
    using assms(3) by (simp add: largest_pow2_less_than_def leading_zeros_def)
qed

lemma largest_pow2_spec:
  assumes "2 \<le> n" "n \<le> 2 ^ 64"
  obtains j where "j < 64" "2 ^ j < n" "n \<le> 2 ^ Suc j" "largest_pow2_less_than n = 2 ^ j"
proof -
  let ?b = "bit_length (n - 1)"
  have b: "2 ^ (?b - 1) \<le> n - 1" "n - 1 < 2 ^ ?b" "0 < ?b"
    using bit_length_bound [of "n - 1"] assms by auto
  obtain j where j: "?b = Suc j" using b(3) by (cases ?b) auto
  have "(2 :: nat) ^ j < 2 ^ 64"
    using b(1) assms j by auto
  then have "j < 64" by (rule power_less_imp_less_exp [rotated]) simp
  moreover have "2 ^ j < n" "n \<le> 2 ^ Suc j"
    using b j assms by auto
  ultimately show ?thesis
    using that largest_pow2_eq by blast
qed

lemma subtree_root_single: "hi = Suc lo \<Longrightarrow> subtree_root H xs lo hi = xs ! lo"
  by (simp add: subtree_root.simps)

lemma subtree_root_split:
  assumes "2 ^ j < hi - lo" "hi - lo \<le> 2 ^ Suc j" "j < 64"
  shows "subtree_root H xs lo hi
    = h_node H (subtree_root H xs lo (lo + 2 ^ j)) (subtree_root H xs (lo + 2 ^ j) hi)"
proof -
  have "1 < hi - lo"
    using assms(1) one_le_power [of "2 :: nat" j] by linarith
  then show ?thesis
    using largest_pow2_eq [OF assms] by (subst subtree_root.simps) (simp add: Let_def)
qed

lemma subtree_root_append:
  "hi \<le> length xs \<Longrightarrow> lo < hi \<Longrightarrow> subtree_root H (xs @ ys) lo hi = subtree_root H xs lo hi"
proof (induction H xs lo hi rule: subtree_root.induct)
  case (1 H xs lo hi)
  show ?case
  proof (cases "hi - lo \<le> 1")
    case True
    with 1 show ?thesis
      by (simp add: subtree_root.simps [of H _ lo hi] nth_append)
  next
    case False
    then show ?thesis
      using 1 largest_pow2_range [of "hi - lo"]
      by (simp add: subtree_root.simps [of H _ lo hi] Let_def)
  qed
qed

fun peak_ranges :: "nat \<Rightarrow> nat \<Rightarrow> (nat \<times> nat) list" where
  "peak_ranges k j =
    (if k = 0 then []
     else if k mod 2 = 1 then peak_ranges (k div 2) (Suc j) @ [((k - 1) * 2 ^ j, k * 2 ^ j)]
     else peak_ranges (k div 2) (Suc j))"

declare peak_ranges.simps [simp del]

lemma peak_ranges_simps:
  "peak_ranges 0 j = []"
  "peak_ranges (2 * q) j = peak_ranges q (Suc j)"
  "peak_ranges (Suc (2 * q)) j = peak_ranges q (Suc j) @ [(2 * q * 2 ^ j, Suc (2 * q) * 2 ^ j)]"
  by (simp_all add: peak_ranges.simps [of 0] peak_ranges.simps [of "2 * q"] peak_ranges.simps [of "Suc (2 * q)"])

lemma merge_peaks_simps:
  "merge_peaks H ps c (2 * q) = Some (ps, c)"
  "merge_peaks H (ps @ [p]) c (Suc (2 * q)) = merge_peaks H ps (h_node H p c) q"
  by (simp_all add: merge_peaks.simps [of H _ _ "2 * q"] merge_peaks.simps [of H _ _ "Suc (2 * q)"])

lemma parity_cases:
  obtains q where "k = 2 * q" | q where "k = Suc (2 * q)"
  by (metis oddE evenE Suc_eq_plus1)

definition range_root :: "(bytes \<Rightarrow> digest) \<Rightarrow> digest list \<Rightarrow> nat \<times> nat \<Rightarrow> digest" where
  "range_root H xs r = subtree_root H xs (fst r) (snd r)"

lemma pow_less_64:
  fixes k j :: nat
  assumes "k * 2 ^ j \<le> 2 ^ 63" "0 < k"
  shows "j < 64"
proof -
  from assms have "(2 :: nat) ^ j \<le> 2 ^ 63"
    by (metis One_nat_def Suc_leI le_trans mult_1 mult_le_mono1)
  then have "j \<le> 63" by (rule power_le_imp_le_exp [rotated]) simp
  then show ?thesis by simp
qed

lemma merge_peaks_ranges:
  assumes "Suc k * 2 ^ j \<le> 2 ^ 63"
  shows "\<exists>ps c. merge_peaks H (map (range_root H xs) (peak_ranges k j))
      (range_root H xs (k * 2 ^ j, Suc k * 2 ^ j)) k = Some (ps, c)
    \<and> ps @ [c] = map (range_root H xs) (peak_ranges (Suc k) j)"
  using assms
proof (induction k arbitrary: j rule: less_induct)
  case (less k)
  show ?case
  proof (cases k rule: parity_cases)
    case (1 q)
    then show ?thesis
      by (simp add: merge_peaks_simps peak_ranges_simps(2,3))
  next
    case (2 q)
    have j: "j < 64" using less.prems pow_less_64 by blast
    have "subtree_root H xs (2 * q * 2 ^ j) (Suc (Suc (2 * q)) * 2 ^ j)
      = h_node H (subtree_root H xs (2 * q * 2 ^ j) (2 * q * 2 ^ j + 2 ^ j))
          (subtree_root H xs (2 * q * 2 ^ j + 2 ^ j) (Suc (Suc (2 * q)) * 2 ^ j))"
      by (rule subtree_root_split [OF _ _ j]) simp_all
    then have "h_node H (range_root H xs (2 * q * 2 ^ j, Suc (2 * q) * 2 ^ j))
        (range_root H xs (Suc (2 * q) * 2 ^ j, Suc (Suc (2 * q)) * 2 ^ j))
      = range_root H xs (q * 2 ^ Suc j, Suc q * 2 ^ Suc j)"
      by (simp add: range_root_def algebra_simps)
    then show ?thesis
      using less.IH [of q "Suc j"] less.prems peak_ranges_simps(2) [of "Suc q" j]
      by (simp add: 2 peak_ranges_simps(3) merge_peaks_simps)
  qed
qed

lemma fold_peak_ranges:
  assumes "0 < m" "m \<le> 2 ^ j" "k * 2 ^ j + m \<le> 2 ^ 63"
  shows "foldl (\<lambda>acc p. h_node H p acc) (range_root H xs (k * 2 ^ j, k * 2 ^ j + m))
      (rev (map (range_root H xs) (peak_ranges k j)))
    = subtree_root H xs 0 (k * 2 ^ j + m)"
  using assms
proof (induction k arbitrary: j m rule: less_induct)
  case (less k)
  show ?case
  proof (cases "k = 0")
    case True
    then show ?thesis by (simp add: peak_ranges_simps range_root_def)
  next
    case False
    then have j: "j < 64" using less.prems(3) pow_less_64 [of k j] by simp
    show ?thesis
    proof (cases k rule: parity_cases)
      case (1 q)
      then show ?thesis
        using less.IH [of q m "Suc j"] False less.prems peak_ranges_simps(2) [of q j]
        by (simp add: algebra_simps)
    next
      case (2 q)
      have "subtree_root H xs (2 * q * 2 ^ j) (Suc (2 * q) * 2 ^ j + m)
        = h_node H (subtree_root H xs (2 * q * 2 ^ j) (2 * q * 2 ^ j + 2 ^ j))
            (subtree_root H xs (2 * q * 2 ^ j + 2 ^ j) (Suc (2 * q) * 2 ^ j + m))"
        by (rule subtree_root_split [OF _ _ j]) (use less.prems in simp_all)
      then have "h_node H (range_root H xs (2 * q * 2 ^ j, Suc (2 * q) * 2 ^ j))
          (range_root H xs (Suc (2 * q) * 2 ^ j, Suc (2 * q) * 2 ^ j + m))
        = range_root H xs (q * 2 ^ Suc j, q * 2 ^ Suc j + (2 ^ j + m))"
        by (simp add: range_root_def algebra_simps)
      then show ?thesis
        using less.IH [of q "2 ^ j + m" "Suc j"] less.prems peak_ranges_simps(3) [of q j]
        by (simp add: 2 algebra_simps)
    qed
  qed
qed

definition mmr_holds :: "(bytes \<Rightarrow> digest) \<Rightarrow> mmr_tree \<Rightarrow> digest list \<Rightarrow> bool" where
  "mmr_holds H t xs \<longleftrightarrow> length xs < 2 ^ 32 \<and> mt_tree_size t = of_nat (length xs)
    \<and> mt_peaks t = map (range_root H xs) (peak_ranges (length xs) 0)"

lemma length_peak_ranges: "length (peak_ranges k j) = count_ones k"
proof (induction k arbitrary: j rule: less_induct)
  case (less k)
  then show ?case
    by (subst peak_ranges.simps, subst count_ones.simps) (auto elim: oddE)
qed

lemma peak_ranges_bounds: "(lo, hi) \<in> set (peak_ranges k j) \<Longrightarrow> lo < hi \<and> hi \<le> k * 2 ^ j"
proof (induction k arbitrary: j rule: less_induct)
  case (less k)
  have IH: "lo < hi \<and> hi \<le> q * 2 ^ Suc j" if "q < k" "(lo, hi) \<in> set (peak_ranges q (Suc j))" for q
    using less.IH [OF that] .
  show ?case
  proof (cases k rule: parity_cases)
    case (1 q)
    with less.prems IH [of q] peak_ranges_simps(2) [of q j] show ?thesis
      by (cases "q = 0") (auto simp: peak_ranges_simps(1) algebra_simps)
  next
    case (2 q)
    with less.prems IH [of q] peak_ranges_simps(3) [of q j] show ?thesis
      by (auto simp: algebra_simps)
  qed
qed

lemma count_ones_le: "count_ones k \<le> k"
proof (induction k rule: count_ones.induct)
  case (1 n)
  show ?case
  proof (cases "n = 0")
    case False
    have "n mod 2 + n div 2 \<le> n" by linarith
    with 1 False show ?thesis by (simp add: count_ones.simps [of n])
  qed (simp add: count_ones.simps)
qed

lemma unat_of_nat_u32: "n < 2 ^ 32 \<Longrightarrow> unat (of_nat n :: u32) = n"
  by (simp add: unat_of_nat)

lemma mmr_holds_well_formed:
  assumes "mmr_holds H t xs"
  shows "writer_state_is_well_formed (mt_tree_size t) (mt_peaks t)"
proof (cases "xs = []")
  case True
  then show ?thesis
    using assms by (simp add: mmr_holds_def writer_state_is_well_formed_def peak_ranges_simps)
next
  case False
  have "length xs < 2 ^ 32" using assms by (simp add: mmr_holds_def)
  moreover from this have "(of_nat (length xs) :: u32) \<noteq> 0"
    using False unat_of_nat_u32 [of "length xs"] by auto
  ultimately show ?thesis
    using assms count_ones_le [of "length xs"]
    by (simp add: mmr_holds_def writer_state_is_well_formed_def is_supported_live_tree_size_def
        peak_count_matches_def length_peak_ranges unat_of_nat_u32)
qed

lemma range_root_append:
  "map (range_root H (xs @ ys)) (peak_ranges (length xs) 0) = map (range_root H xs) (peak_ranges (length xs) 0)"
  using peak_ranges_bounds [of _ _ "length xs" 0]
  by (auto simp: range_root_def intro!: subtree_root_append)

lemma u32_lt_max: "n < 2 ^ 32 \<Longrightarrow> (of_nat n :: u32) < MAX_TREE_SIZE \<longleftrightarrow> n < 2 ^ 32 - 1"
  by (simp add: MAX_TREE_SIZE_def word_less_nat_alt unat_of_nat)

lemma append_hash_holds:
  assumes "mmr_holds H t xs" "length xs < 2 ^ 32 - 1"
  shows "\<exists>t'. append_hash H t x = Some t' \<and> mmr_holds H t' (xs @ [x])"
proof -
  let ?n = "length xs" and ?ys = "xs @ [x]"
  have n: "?n < 2 ^ 32" using assms(2) by linarith
  have peaks: "mt_peaks t = map (range_root H ?ys) (peak_ranges ?n 0)"
    using assms(1) by (simp add: mmr_holds_def range_root_append)
  have x: "x = range_root H ?ys (?n * 2 ^ 0, Suc ?n * 2 ^ 0)"
    by (simp add: range_root_def subtree_root_single)
  obtain ps c where "merge_peaks H (mt_peaks t) x ?n = Some (ps, c)"
    and "ps @ [c] = map (range_root H ?ys) (peak_ranges (Suc ?n) 0)"
    using merge_peaks_ranges [of ?n 0 H ?ys, folded peaks x] n by auto
  moreover have "mt_tree_size t = of_nat ?n" "unat (mt_tree_size t) = ?n"
    using assms(1) unat_of_nat_u32 [OF n] by (simp_all add: mmr_holds_def)
  ultimately show ?thesis
    using mmr_holds_well_formed [OF assms(1)] assms(2) u32_lt_max [OF n]
    by (simp add: append_hash_def mmr_holds_def add.commute)
qed

lemma append_hash_full:
  assumes "mmr_holds H t xs" "2 ^ 32 - 1 \<le> length xs"
  shows "append_hash H t x = None"
  using assms u32_lt_max [of "length xs"] by (simp add: append_hash_def mmr_holds_def)

lemma fold_peaks_holds:
  assumes "mmr_holds H t xs" "xs \<noteq> []"
  shows "fold_peaks H (mt_peaks t) = Some (subtree_root H xs 0 (length xs))"
proof -
  have fold: "fold_peaks H (map (range_root H xs) (peak_ranges k j)) = Some (subtree_root H xs 0 (k * 2 ^ j))"
    if "0 < k" "k * 2 ^ j \<le> 2 ^ 63" for k j
    using that
  proof (induction k arbitrary: j rule: less_induct)
    case (less k)
    show ?case
    proof (cases k rule: parity_cases)
      case (1 q)
      with less.prems less.IH [of q "Suc j"] peak_ranges_simps(2) [of q j] show ?thesis
        by (simp add: algebra_simps)
    next
      case (2 q)
      have "foldl (\<lambda>acc p. h_node H p acc) (range_root H xs (q * 2 ^ Suc j, q * 2 ^ Suc j + 2 ^ j))
          (rev (map (range_root H xs) (peak_ranges q (Suc j))))
        = subtree_root H xs 0 (q * 2 ^ Suc j + 2 ^ j)"
        by (rule fold_peak_ranges) (use less.prems 2 in \<open>simp_all add: algebra_simps\<close>)
      with 2 peak_ranges_simps(3) [of q j] show ?thesis
        by (simp add: fold_peaks_def algebra_simps)
    qed
  qed
  show ?thesis
    using assms fold [of "length xs" 0] by (simp add: mmr_holds_def)
qed

lemma mmr_root_holds:
  assumes "mmr_holds H t xs"
  shows "mmr_root H t = (if xs = [] then None else Some (subtree_root H xs 0 (length xs)))"
proof (cases "xs = []")
  case True
  then show ?thesis
    using assms by (simp add: mmr_root_def mmr_holds_def fold_peaks_def peak_ranges_simps)
next
  case False
  then show ?thesis
    using fold_peaks_holds [OF assms] mmr_holds_well_formed [OF assms] by (simp add: mmr_root_def)
qed

section \<open>Leaf accumulators\<close>

text \<open>
  The contract shared by the writer and the proof cache: starting from the empty state, leaves are
  added one at a time up to a capacity, and the commitment of a state is a function of the leaves
  it holds.
\<close>

locale leaf_accumulator =
  fixes empty :: 's
    and add :: "'s \<Rightarrow> digest \<Rightarrow> 's option"
    and commit :: "'s \<Rightarrow> digest option"
    and holds :: "'s \<Rightarrow> digest list \<Rightarrow> bool"
    and cap :: nat
    and root :: "digest list \<Rightarrow> digest"
  assumes holds_empty: "holds empty []"
    and add_holds: "holds s xs \<Longrightarrow> length xs < cap \<Longrightarrow> \<exists>s'. add s x = Some s' \<and> holds s' (xs @ [x])"
    and add_full: "holds s xs \<Longrightarrow> cap \<le> length xs \<Longrightarrow> add s x = None"
    and commit_holds: "holds s xs \<Longrightarrow> commit s = (if xs = [] then None else Some (root xs))"
begin

lemma add_all_holds:
  assumes "holds s xs" "length xs + length ys \<le> cap"
  shows "\<exists>s'. foldl (\<lambda>st x. Option.bind st (\<lambda>s. add s x)) (Some s) ys = Some s' \<and> holds s' (xs @ ys)"
  using assms
proof (induction ys arbitrary: s xs)
  case (Cons y ys)
  then obtain s' where "add s y = Some s'" "holds s' (xs @ [y])"
    using add_holds [of s xs y] by auto
  with Cons.IH [of s' "xs @ [y]"] Cons.prems show ?case by simp
qed simp

lemma build_commit:
  assumes "ys \<noteq> []" "length ys \<le> cap"
  shows "Option.bind (foldl (\<lambda>st x. Option.bind st (\<lambda>s. add s x)) (Some empty) ys) commit = Some (root ys)"
  using add_all_holds [OF holds_empty, of ys] assms commit_holds by fastforce

lemma add_defined_iff: "holds s xs \<Longrightarrow> (\<exists>s'. add s x = Some s') \<longleftrightarrow> length xs < cap"
  using add_holds add_full by (metis not_less option.distinct(1))

end

definition tree_root :: "(bytes \<Rightarrow> digest) \<Rightarrow> digest list \<Rightarrow> digest" where
  "tree_root H xs = subtree_root H xs 0 (length xs)"

interpretation writer: leaf_accumulator mmr_new "append_hash H" "mmr_root H" "mmr_holds H" "2 ^ 32 - 1" "tree_root H"
  for H
proof
  show "mmr_holds H mmr_new []"
    by (simp add: mmr_holds_def mmr_new_def peak_ranges_simps)
qed (auto simp: tree_root_def append_hash_holds append_hash_full mmr_root_holds)

section \<open>The proof cache\<close>

function tree_ranges :: "nat \<Rightarrow> nat \<Rightarrow> (nat \<times> nat) set" where
  "tree_ranges lo hi = insert (lo, hi)
    (if 1 < hi - lo then
       (let mid = lo + largest_pow2_less_than (hi - lo) in tree_ranges lo mid \<union> tree_ranges mid hi)
     else {})"
  by pat_completeness auto
termination
proof (relation "measure (\<lambda>(lo, hi). hi - lo)")
  show "wf (measure (\<lambda>(lo :: nat, hi). hi - lo))" by simp
  fix lo hi x :: nat
  assume *: "1 < hi - lo" "x = lo + largest_pow2_less_than (hi - lo)"
  then have "lo < x" "x < hi"
    using largest_pow2_range [of "hi - lo"] by auto
  then show "((lo, x), lo, hi) \<in> measure (\<lambda>(lo, hi). hi - lo)"
    and "((x, hi), lo, hi) \<in> measure (\<lambda>(lo, hi). hi - lo)"
    by auto
qed

declare tree_ranges.simps [simp del]

lemma tree_ranges_self: "(lo, hi) \<in> tree_ranges lo hi"
  by (simp add: tree_ranges.simps [of lo hi])

lemma tree_ranges_split:
  assumes "1 < hi - lo"
  defines "mid \<equiv> lo + largest_pow2_less_than (hi - lo)"
  shows "tree_ranges lo hi = insert (lo, hi) (tree_ranges lo mid \<union> tree_ranges mid hi)"
  using assms by (simp add: tree_ranges.simps [of lo hi] Let_def)

lemma tree_ranges_single: "tree_ranges n (Suc n) = {(n, Suc n)}"
  by (simp add: tree_ranges.simps [of n "Suc n"])

lemma spine_split:
  assumes "1 < hi - lo"
  defines "mid \<equiv> lo + largest_pow2_less_than (hi - lo)"
  shows "spine lo hi = (lo, mid) # spine mid hi"
  using assms by (simp add: spine.simps [of lo hi] Let_def)

lemma pow2_step:
  assumes "lo < n" "Suc n - lo \<le> 2 ^ 64"
  defines "mid \<equiv> lo + largest_pow2_less_than (Suc n - lo)"
  shows "lo < mid" "mid \<le> n" "mid < n \<Longrightarrow> mid = lo + largest_pow2_less_than (n - lo)"
proof -
  have "2 \<le> Suc n - lo" using assms(1) by simp
  then obtain j where j: "j < 64" "2 ^ j < Suc n - lo" "Suc n - lo \<le> 2 ^ Suc j"
    "largest_pow2_less_than (Suc n - lo) = 2 ^ j"
    using assms(2) by (rule largest_pow2_spec)
  then show "lo < mid" "mid \<le> n" by (auto simp: mid_def)
  show "mid = lo + largest_pow2_less_than (n - lo)" if "mid < n"
  proof -
    have "largest_pow2_less_than (n - lo) = 2 ^ j"
      by (rule largest_pow2_eq) (use j that in \<open>auto simp: mid_def\<close>)
    then show ?thesis by (simp add: mid_def j)
  qed
qed

lemma left_ranges_cached:
  assumes "lo < n" "Suc n - lo \<le> 2 ^ 64"
  defines "mid \<equiv> lo + largest_pow2_less_than (Suc n - lo)"
  shows "tree_ranges lo mid \<subseteq> tree_ranges lo n"
    and "mid < n \<Longrightarrow> tree_ranges mid n \<subseteq> tree_ranges lo n"
proof -
  note m = pow2_step [OF assms(1,2), folded mid_def]
  have eq: "tree_ranges lo n = insert (lo, n) (tree_ranges lo mid \<union> tree_ranges mid n)" if "mid < n"
  proof -
    have "1 < n - lo" using m(1) that by linarith
    from tree_ranges_split [OF this] m(3) [OF that] show ?thesis by simp
  qed
  show "tree_ranges lo mid \<subseteq> tree_ranges lo n"
    using eq m(2) by (cases "mid = n") auto
  show "mid < n \<Longrightarrow> tree_ranges mid n \<subseteq> tree_ranges lo n"
    using eq by auto
qed

lemma spine_cached:
  assumes "lo \<le> n" "Suc n - lo \<le> 2 ^ 64"
  shows "(l, m) \<in> set (spine lo (Suc n)) \<Longrightarrow> (l, m) \<in> tree_ranges lo n \<and> l < m \<and> m \<le> n \<and> lo \<le> l"
    and "tree_ranges lo (Suc n)
      \<subseteq> (if lo < n then tree_ranges lo n else {}) \<union> {(n, Suc n)} \<union> {(l, Suc n) | l m. (l, m) \<in> set (spine lo (Suc n))}"
proof -
  have "((l, m) \<in> set (spine lo (Suc n)) \<longrightarrow> (l, m) \<in> tree_ranges lo n \<and> l < m \<and> m \<le> n \<and> lo \<le> l)
    \<and> tree_ranges lo (Suc n)
      \<subseteq> (if lo < n then tree_ranges lo n else {}) \<union> {(n, Suc n)} \<union> {(l, Suc n) | l m. (l, m) \<in> set (spine lo (Suc n))}"
    using assms
  proof (induction "Suc n - lo" arbitrary: lo rule: less_induct)
    case less
    show ?case
    proof (cases "lo = n")
      case True
      then show ?thesis
        by (simp add: spine.simps [of n] tree_ranges_single)
    next
      case False
      define mid where "mid = lo + largest_pow2_less_than (Suc n - lo)"
      have lt: "lo < n" using False less.prems by simp
      note m = pow2_step [OF lt less.prems(2), folded mid_def]
      note c = left_ranges_cached [OF lt less.prems(2), folded mid_def]
      have sp: "spine lo (Suc n) = (lo, mid) # spine mid (Suc n)"
        unfolding mid_def by (rule spine_split) (use lt in linarith)
      have tr: "tree_ranges lo (Suc n) = insert (lo, Suc n) (tree_ranges lo mid \<union> tree_ranges mid (Suc n))"
        unfolding mid_def by (rule tree_ranges_split) (use lt in linarith)
      have IH: "((l, m) \<in> set (spine mid (Suc n)) \<longrightarrow> (l, m) \<in> tree_ranges mid n \<and> l < m \<and> m \<le> n \<and> mid \<le> l)
        \<and> tree_ranges mid (Suc n) \<subseteq> (if mid < n then tree_ranges mid n else {}) \<union> {(n, Suc n)}
            \<union> {(l, Suc n) | l m. (l, m) \<in> set (spine mid (Suc n))}"
        by (rule less.hyps) (use m lt less.prems in auto)
      have "(l, m) \<in> set (spine mid (Suc n)) \<Longrightarrow> mid < n"
        using m(2) by (cases "mid = n") (auto simp: spine.simps [of n])
      then show ?thesis
        using IH m(1,2) lt c tree_ranges_self [of lo mid] unfolding sp tr
        by (auto split: if_splits)
    qed
  qed
  then show "(l, m) \<in> set (spine lo (Suc n)) \<Longrightarrow> (l, m) \<in> tree_ranges lo n \<and> l < m \<and> m \<le> n \<and> lo \<le> l"
    and "tree_ranges lo (Suc n)
      \<subseteq> (if lo < n then tree_ranges lo n else {}) \<union> {(n, Suc n)} \<union> {(l, Suc n) | l m. (l, m) \<in> set (spine lo (Suc n))}"
    by blast+
qed

lemma extend_spine_append:
  "extend_spine H n (xs @ ys) c nodes =
    Option.bind (extend_spine H n xs c nodes) (\<lambda>(c', nodes'). extend_spine H n ys c' nodes')"
  by (induction xs arbitrary: c nodes) (auto simp: Let_def split: option.splits)

lemma extend_spine_spec:
  assumes "lo \<le> n" "Suc n - lo \<le> 2 ^ 64"
    and "\<And>r. r \<in> set (spine lo (Suc n)) \<Longrightarrow> nodes r = Some (range_root H ys r)"
  shows "extend_spine H (Suc n) (rev (spine lo (Suc n))) (ys ! n) nodes
    = Some (subtree_root H ys lo (Suc n),
        (\<lambda>r. if snd r = Suc n \<and> fst r \<in> fst ` set (spine lo (Suc n)) then Some (range_root H ys r) else nodes r))"
  using assms
proof (induction "Suc n - lo" arbitrary: lo rule: less_induct)
  case less
  show ?case
  proof (cases "lo = n")
    case True
    then show ?thesis by (simp add: spine.simps [of n] subtree_root_single)
  next
    case False
    define mid where "mid = lo + largest_pow2_less_than (Suc n - lo)"
    have lt: "lo < n" using False less.prems by simp
    note m = pow2_step [OF lt less.prems(2), folded mid_def]
    have sp: "spine lo (Suc n) = (lo, mid) # spine mid (Suc n)"
      unfolding mid_def by (rule spine_split) (use lt in linarith)
    have root: "subtree_root H ys lo (Suc n)
      = h_node H (subtree_root H ys lo mid) (subtree_root H ys mid (Suc n))"
    proof -
      have "\<not> Suc n - lo \<le> 1" using lt by linarith
      then show ?thesis
        by (simp add: subtree_root.simps [of H ys lo "Suc n"] mid_def Let_def del: diff_is_0_eq)
    qed
    have "extend_spine H (Suc n) (rev (spine mid (Suc n))) (ys ! n) nodes
      = Some (subtree_root H ys mid (Suc n),
        (\<lambda>r. if snd r = Suc n \<and> fst r \<in> fst ` set (spine mid (Suc n)) then Some (range_root H ys r) else nodes r))"
      by (rule less.hyps) (use m lt less.prems sp in auto)
    moreover have "nodes (lo, mid) = Some (range_root H ys (lo, mid))"
      using less.prems(3) sp by simp
    ultimately show ?thesis
      using m(2) by (auto simp: sp extend_spine_append root range_root_def fun_eq_iff Let_def)
  qed
qed

definition cache_holds :: "(bytes \<Rightarrow> digest) \<Rightarrow> proof_cache \<Rightarrow> digest list \<Rightarrow> bool" where
  "cache_holds H c xs \<longleftrightarrow> length xs < 2 ^ 32 \<and> pc_leaf_count c = of_nat (length xs)
    \<and> (\<forall>r d. pc_nodes c r = Some d \<longrightarrow> fst r < snd r \<and> snd r \<le> length xs \<and> d = range_root H xs r)
    \<and> (xs \<noteq> [] \<longrightarrow> (\<forall>r \<in> tree_ranges 0 (length xs). pc_nodes c r = Some (range_root H xs r)))"

lemma tree_ranges_bounds: "(l, h) \<in> tree_ranges lo hi \<Longrightarrow> lo < hi \<Longrightarrow> lo \<le> l \<and> l < h \<and> h \<le> hi"
proof (induction lo hi rule: tree_ranges.induct)
  case (1 lo hi)
  show ?case
  proof (cases "1 < hi - lo")
    case True
    then show ?thesis
      using 1 largest_pow2_range [of "hi - lo"] tree_ranges_split [OF True] by fastforce
  next
    case False
    with 1 show ?thesis by (simp add: tree_ranges.simps [of lo hi])
  qed
qed

lemma unat_u32_lt: "unat (w :: u32) < 2 ^ 32"
  using unsigned_less [of w, where 'a = nat] by simp

lemma cache_holdsD:
  "cache_holds H c xs \<Longrightarrow> pc_nodes c r = Some d \<Longrightarrow> fst r < snd r \<and> snd r \<le> length xs \<and> d = range_root H xs r"
  unfolding cache_holds_def by blast

lemma cache_holds_ranges:
  "cache_holds H c xs \<Longrightarrow> xs \<noteq> [] \<Longrightarrow> r \<in> tree_ranges 0 (length xs) \<Longrightarrow> pc_nodes c r = Some (range_root H xs r)"
  unfolding cache_holds_def by blast

lemma extend_with_leaf_holds:
  assumes c: "cache_holds H c xs" and len: "length xs < 2 ^ 32 - 1"
  shows "\<exists>c'. extend_with_leaf H c x = Some c' \<and> cache_holds H c' (xs @ [x])"
proof -
  define n ys where "n = length xs" and "ys = xs @ [x]"
  define nodes0 where "nodes0 = (pc_nodes c)((n, Suc n) \<mapsto> x)"
  define nodes1 where "nodes1 = (\<lambda>r. if snd r = Suc n \<and> fst r \<in> fst ` set (spine 0 (Suc n))
    then Some (range_root H ys r) else nodes0 r)"
  have n: "n < 2 ^ 32" "Suc n - 0 \<le> 2 ^ 64" using len by (simp_all add: n_def)
  have cnt: "pc_leaf_count c = of_nat n" "unat (pc_leaf_count c) = n" "pc_leaf_count c < MAX_TREE_SIZE"
    using c len u32_lt_max [OF n(1)] unat_of_nat_u32 [OF n(1)] by (simp_all add: cache_holds_def n_def)
  have leaf: "x = ys ! n" "range_root H ys (n, Suc n) = x"
    by (simp_all add: ys_def n_def range_root_def subtree_root_single)
  have old: "range_root H xs r = range_root H ys r" if "fst r < snd r" "snd r \<le> n" for r
    using that subtree_root_append [of "snd r" xs "fst r" H "[x]"] by (simp add: range_root_def ys_def n_def)
  have all: "pc_nodes c r = Some (range_root H ys r)" if "r \<in> tree_ranges 0 n" "0 < n" for r
  proof -
    have "pc_nodes c r = Some (range_root H xs r)"
      using c that by (auto simp: cache_holds_def n_def)
    then show ?thesis
      using old [of r] tree_ranges_bounds [of "fst r" "snd r" 0 n] that by simp
  qed
  have "nodes0 r = Some (range_root H ys r)" if "r \<in> set (spine 0 (Suc n))" for r
    using spine_cached(1) [of 0 n "fst r" "snd r"] n(2) that all [of r] by (auto simp: nodes0_def)
  from extend_spine_spec [OF le0 n(2) this, folded leaf(1) nodes1_def]
  have "extend_spine H (n + 1) (rev (spine 0 (n + 1))) x ((pc_nodes c)((n, n + 1) \<mapsto> x))
    = Some (subtree_root H ys 0 (Suc n), nodes1)"
    unfolding nodes0_def by (simp only: Suc_eq_plus1)
  then have "extend_with_leaf H c x = Some \<lparr>pc_leaf_count = of_nat (Suc n), pc_nodes = nodes1\<rparr>"
    using cnt(3) unfolding extend_with_leaf_def Let_def cnt(2) by (simp only: if_False not_not option.map prod.case Suc_eq_plus1) simp
  moreover have "cache_holds H \<lparr>pc_leaf_count = of_nat (Suc n), pc_nodes = nodes1\<rparr> ys"
  proof -
    have "fst r < snd r \<and> snd r \<le> Suc n \<and> d = range_root H ys r" if r: "nodes1 r = Some d" for r d
    proof -
      consider "snd r = Suc n" "fst r \<in> fst ` set (spine 0 (Suc n))" "d = range_root H ys r"
        | "r = (n, Suc n)" "d = x" | "pc_nodes c r = Some d"
        using r unfolding nodes1_def nodes0_def fun_upd_apply
        by (metis (no_types, lifting) option.inject)
      then show ?thesis
      proof cases
        case 1
        then obtain m where "(fst r, m) \<in> set (spine 0 (Suc n))" by auto
        from spine_cached(1) [OF le0 n(2) this] 1 show ?thesis by simp
      next
        case 3
        then show ?thesis using cache_holdsD [OF c 3] old [of r] by (simp add: n_def)
      qed (simp add: leaf)
    qed
    moreover have "nodes1 r = Some (range_root H ys r)" if r: "r \<in> tree_ranges 0 (Suc n)" for r
    proof -
      consider "r \<in> tree_ranges 0 n" "0 < n" | "r = (n, Suc n)"
        | "snd r = Suc n" "fst r \<in> fst ` set (spine 0 (Suc n))"
      proof -
        assume cases: "r \<in> tree_ranges 0 n \<Longrightarrow> 0 < n \<Longrightarrow> thesis" "r = (n, Suc n) \<Longrightarrow> thesis"
          "snd r = Suc n \<Longrightarrow> fst r \<in> fst ` set (spine 0 (Suc n)) \<Longrightarrow> thesis"
        have "r \<in> (if 0 < n then tree_ranges 0 n else {}) \<union> {(n, Suc n)}
            \<union> {(l, Suc n) | l m. (l, m) \<in> set (spine 0 (Suc n))}"
          using spine_cached(2) [OF le0 n(2)] r by blast
        then show thesis
          using cases by (cases "0 < n") (auto, (metis fst_conv image_eqI)+)
      qed
      then show ?thesis
      proof cases
        case 1
        then have "nodes0 r = Some (range_root H ys r)"
          using all [of r] tree_ranges_bounds [of "fst r" "snd r" 0 n] by (auto simp: nodes0_def)
        then show ?thesis by (simp add: nodes1_def)
      next
        case 2
        then show ?thesis by (simp add: nodes1_def nodes0_def leaf)
      qed (simp add: nodes1_def)
    qed
    moreover have "length ys = Suc n" "Suc n < 2 ^ 32"
      using len by (simp_all add: ys_def n_def)
    ultimately show ?thesis
      unfolding cache_holds_def proof_cache.select_convs by metis
  qed
  ultimately show ?thesis by (auto simp: ys_def)
qed

definition cache_commit :: "proof_cache \<Rightarrow> digest option" where
  "cache_commit c = cached_subtree_root c 0 (unat (pc_leaf_count c))"

interpretation cache: leaf_accumulator cache_new "extend_with_leaf H" cache_commit "cache_holds H" "2 ^ 32 - 1" "tree_root H"
  for H
proof
  show "cache_holds H cache_new []"
    by (simp add: cache_holds_def cache_new_def)
next
  fix c xs x
  assume c: "cache_holds H c xs"
  show "2 ^ 32 - 1 \<le> length xs \<Longrightarrow> extend_with_leaf H c x = None"
    using c u32_lt_max [of "length xs"] by (simp add: extend_with_leaf_def cache_holds_def)
  have len: "unat (pc_leaf_count c) = length xs"
    using c unat_of_nat_u32 [of "length xs"] by (simp add: cache_holds_def)
  have "pc_nodes c (0, 0) = None"
    using cache_holdsD [OF c, of "(0, 0)"] by (cases "pc_nodes c (0, 0)") auto
  then show "cache_commit c = (if xs = [] then None else Some (tree_root H xs))"
    using cache_holds_ranges [OF c _ tree_ranges_self] len
    by (cases "xs = []") (simp_all add: cache_commit_def cached_subtree_root_def tree_root_def range_root_def)
qed (rule extend_with_leaf_holds)

section \<open>Generated proofs verify\<close>

function path_steps :: "(bytes \<Rightarrow> digest) \<Rightarrow> digest list \<Rightarrow> nat \<Rightarrow> nat \<Rightarrow> nat \<Rightarrow> (digest \<times> bool) list" where
  "path_steps H xs i lo hi =
    (if 1 < hi - lo then
       (let mid = lo + largest_pow2_less_than (hi - lo)
        in if i < mid then (range_root H xs (mid, hi), True) # path_steps H xs i lo mid
           else (range_root H xs (lo, mid), False) # path_steps H xs i mid hi)
     else [])"
  by pat_completeness auto
termination
proof (relation "measure (\<lambda>(_, _, _, lo, hi). hi - lo)")
  show "wf (measure (\<lambda>(_ :: bytes \<Rightarrow> digest, _ :: digest list, _ :: nat, lo :: nat, hi). hi - lo))" by simp
  fix H :: "bytes \<Rightarrow> digest" and xs :: "digest list" and i lo hi x :: nat
  assume *: "1 < hi - lo" "x = lo + largest_pow2_less_than (hi - lo)"
  then have "lo < x" "x < hi"
    using largest_pow2_range [of "hi - lo"] by auto
  then show "((H, xs, i, lo, x), H, xs, i, lo, hi) \<in> measure (\<lambda>(_, _, _, lo, hi). hi - lo)"
    and "((H, xs, i, x, hi), H, xs, i, lo, hi) \<in> measure (\<lambda>(_, _, _, lo, hi). hi - lo)"
    by auto
qed

declare path_steps.simps [simp del]

lemma prove_walk_path:
  assumes "\<And>r. r \<in> tree_ranges lo hi \<Longrightarrow> nodes r = Some (range_root H xs r)"
  shows "prove_walk nodes i lo hi sibs = Some (sibs @ map fst (path_steps H xs i lo hi))"
  using assms
proof (induction "hi - lo" arbitrary: lo hi sibs rule: less_induct)
  case less
  show ?case
  proof (cases "1 < hi - lo")
    case True
    define mid where "mid = lo + largest_pow2_less_than (hi - lo)"
    have mid: "mid - lo < hi - lo" "hi - mid < hi - lo"
      using largest_pow2_range [of "hi - lo"] True by (auto simp: mid_def)
    note tr = tree_ranges_split [OF True, folded mid_def]
    have "nodes (mid, hi) = Some (range_root H xs (mid, hi))" "nodes (lo, mid) = Some (range_root H xs (lo, mid))"
      using less.prems tr tree_ranges_self by blast+
    moreover have "\<And>r. r \<in> tree_ranges lo mid \<Longrightarrow> nodes r = Some (range_root H xs r)"
      "\<And>r. r \<in> tree_ranges mid hi \<Longrightarrow> nodes r = Some (range_root H xs r)"
      using less.prems tr by blast+
    ultimately show ?thesis
      using True less.hyps [OF mid(1)] less.hyps [OF mid(2)]
      by (simp add: prove_walk.simps [of _ _ lo hi] path_steps.simps [of _ _ _ lo hi] Let_def flip: mid_def)
  qed (simp add: prove_walk.simps [of _ _ lo hi] path_steps.simps [of _ _ _ lo hi])
qed

lemma path_steps_depth:
  assumes "hi - lo \<le> 2 ^ d" "d \<le> 64"
  shows "length (path_steps H xs i lo hi) \<le> d"
  using assms
proof (induction d arbitrary: lo hi)
  case (Suc d)
  show ?case
  proof (cases "1 < hi - lo")
    case True
    have "2 \<le> hi - lo" "hi - lo \<le> 2 ^ 64"
      using True Suc.prems power_increasing [of "Suc d" 64 "2 :: nat"] by linarith+
    then obtain j where j: "j < 64" "2 ^ j < hi - lo" "hi - lo \<le> 2 ^ Suc j"
      "largest_pow2_less_than (hi - lo) = 2 ^ j"
      by (rule largest_pow2_spec)
    have "(2 :: nat) ^ j < 2 ^ Suc d" using j Suc.prems by linarith
    then have "j < Suc d" by (rule power_less_imp_less_exp [rotated]) simp
    then have "(2 :: nat) ^ j \<le> 2 ^ d" by (intro power_increasing) simp_all
    moreover have "hi - (lo + 2 ^ j) \<le> 2 ^ j" using j(3) by simp
    ultimately have "lo + 2 ^ j - lo \<le> 2 ^ d" "hi - (lo + 2 ^ j) \<le> 2 ^ d" by linarith+
    with Suc.IH [of "lo + 2 ^ j" lo] Suc.IH [of hi "lo + 2 ^ j"] Suc.prems True show ?thesis
      by (simp add: path_steps.simps [of _ _ _ lo hi] j Let_def)
  qed (simp add: path_steps.simps [of _ _ _ lo hi])
qed (subst path_steps.simps, simp)

lemma directions_walk_path:
  assumes "length ds + length (path_steps H xs i lo hi) \<le> 32"
  shows "directions_walk i lo hi ds = Some (ds @ map snd (path_steps H xs i lo hi))"
  using assms
proof (induction i lo hi ds rule: directions_walk.induct)
  case (1 i lo hi ds)
  then show ?case
    by (cases "1 < hi - lo")
      (auto simp: directions_walk.simps [of i lo hi] path_steps.simps [of _ _ i lo hi] Let_def
        MAX_INCLUSION_PROOF_SIBLINGS_def)
qed

lemma apply_siblings_snoc:
  "apply_siblings H x (steps @ [(s, d)]) =
    (if d then h_node H (apply_siblings H x steps) s else h_node H s (apply_siblings H x steps))"
  by (simp add: apply_siblings_def)

lemma subtree_root_mid:
  assumes "1 < hi - lo"
  defines "mid \<equiv> lo + largest_pow2_less_than (hi - lo)"
  shows "subtree_root H xs lo hi = h_node H (subtree_root H xs lo mid) (subtree_root H xs mid hi)"
    and "lo < mid" "mid < hi"
  using assms largest_pow2_range [of "hi - lo"]
  by (auto simp: subtree_root.simps [of H xs lo hi] Let_def)

lemma apply_path:
  assumes "lo \<le> i" "i < hi"
  shows "apply_siblings H (xs ! i) (rev (path_steps H xs i lo hi)) = subtree_root H xs lo hi"
  using assms
proof (induction "hi - lo" arbitrary: lo hi rule: less_induct)
  case less
  show ?case
  proof (cases "1 < hi - lo")
    case True
    define mid where "mid = lo + largest_pow2_less_than (hi - lo)"
    note mid = subtree_root_mid [OF True, folded mid_def]
    have "mid - lo < hi - lo" "hi - mid < hi - lo" using mid by auto
    with less True show ?thesis
      by (simp add: path_steps.simps [of _ _ _ lo hi] mid(1) apply_siblings_snoc range_root_def Let_def
          flip: mid_def)
  next
    case False
    with less.prems have "hi = Suc lo" "i = lo" by auto
    then show ?thesis
      by (subst path_steps.simps) (simp add: apply_siblings_def subtree_root_single)
  qed
qed

lemma zip_rev_path: "zip (rev (map fst p)) (rev (map snd p)) = rev p"
  by (induction p) (simp_all add: zip_append)

definition head_of :: "(bytes \<Rightarrow> digest) \<Rightarrow> tree_head \<Rightarrow> digest list \<Rightarrow> bool" where
  "head_of H h xs \<longleftrightarrow> xs \<noteq> [] \<and> mmr_holds H \<lparr>mt_peaks = th_peaks h, mt_tree_size = th_tree_size h\<rparr> xs
    \<and> th_root h = tree_root H xs"

lemma head_of_well_formed: "head_of H h xs \<Longrightarrow> head_is_well_formed H h"
proof -
  assume h: "head_of H h xs"
  let ?t = "\<lparr>mt_peaks = th_peaks h, mt_tree_size = th_tree_size h\<rparr>"
  have t: "mmr_holds H ?t xs" "xs \<noteq> []" "th_root h = tree_root H xs" using h by (simp_all add: head_of_def)
  have "length xs < 2 ^ 32" "th_tree_size h = of_nat (length xs)"
    using t(1) by (simp_all add: mmr_holds_def)
  then have "th_tree_size h \<noteq> 0" using t(2) unat_of_nat_u32 [of "length xs"] by auto
  then show ?thesis
    using mmr_holds_well_formed [OF t(1)] fold_peaks_holds [OF t(1,2)] t(3)
    by (simp add: head_is_well_formed_def tree_head_parts_are_well_formed_def
        writer_state_is_well_formed_def tree_root_def)
qed

lemma mmr_tree_head_of:
  assumes "mmr_holds H t xs" "xs \<noteq> []"
  shows "\<exists>h. mmr_tree_head H t = Some h \<and> head_of H h xs"
proof -
  have "mmr_holds H \<lparr>mt_peaks = mt_peaks t, mt_tree_size = mt_tree_size t\<rparr> xs"
    using assms(1) by (simp add: mmr_holds_def)
  then show ?thesis
    using writer.commit_holds [OF assms(1)] assms(2) by (simp add: mmr_tree_head_def head_of_def)
qed

lemma cache_prove_path:
  assumes "cache_holds H c xs" "unat i < length xs"
  shows "cache_prove c i = Some (Some \<lparr>ip_i = i, ip_tree_size = of_nat (length xs),
      ip_siblings = rev (map fst (path_steps H xs (unat i) 0 (length xs)))\<rparr>)"
proof -
  have c: "pc_leaf_count c = of_nat (length xs)" "unat (pc_leaf_count c) = length xs"
    using assms(1) unat_of_nat_u32 [of "length xs"] by (simp_all add: cache_holds_def)
  have "xs \<noteq> []" using assms(2) by auto
  then have "prove_walk (pc_nodes c) (unat i) 0 (length xs) []
      = Some ([] @ map fst (path_steps H xs (unat i) 0 (length xs)))"
    using prove_walk_path cache_holds_ranges [OF assms(1)] by blast
  moreover have "i < pc_leaf_count c"
    using assms(2) c(2) by (simp add: word_less_nat_alt)
  ultimately show ?thesis
    by (simp add: cache_prove_def c(2)) (simp add: c(1))
qed

lemma generated_proof_verifies:
  assumes h: "head_of H h xs" and i: "unat i < length xs"
  shows "verify_with_leaf_hash H h \<lparr>ip_i = i, ip_tree_size = of_nat (length xs),
      ip_siblings = rev (map fst (path_steps H xs (unat i) 0 (length xs)))\<rparr> (xs ! unat i)"
proof -
  let ?p = "path_steps H xs (unat i) 0 (length xs)"
  have size: "th_tree_size h = of_nat (length xs)" "length xs < 2 ^ 32" "th_root h = tree_root H xs"
    using h by (simp_all add: head_of_def mmr_holds_def)
  have n: "unat (of_nat (length xs) :: u32) = length xs"
    using unat_of_nat_u32 [OF size(2)] .
  have depth: "length ?p \<le> 32"
    using path_steps_depth [of "length xs" 0 32] size(2) by simp
  have "proof_directions (of_nat (length xs)) i = Some (map snd ?p)"
    using directions_walk_path [of "[]" H xs "unat i" 0 "length xs"] depth i n
    by (auto simp: proof_directions_def is_supported_live_tree_size_def word_le_nat_alt)
  moreover have "apply_siblings H (xs ! unat i) (rev ?p) = tree_root H xs"
    using apply_path [of 0 "unat i" "length xs" H xs] i by (simp add: tree_root_def)
  ultimately show ?thesis
    using head_of_well_formed [OF h] size depth
    by (simp add: verify_with_leaf_hash_def MAX_INCLUSION_PROOF_SIBLINGS_def zip_rev_path)
qed

section \<open>Verified proofs are sound\<close>

text \<open>
  \<open>step_inputs\<close> lists the byte strings the verifier hashes while it folds the siblings,
  \<open>path_inputs\<close> those hashed by the tree on the path to leaf \<open>i\<close>, and \<open>subtree_inputs\<close> all those
  hashed by the tree.
\<close>

fun step_inputs :: "(bytes \<Rightarrow> digest) \<Rightarrow> digest \<Rightarrow> (digest \<times> bool) list \<Rightarrow> bytes list" where
  "step_inputs H acc [] = []"
| "step_inputs H acc ((s, l) # steps) =
    (let b = (if l then node_bytes acc s else node_bytes s acc) in b # step_inputs H (H b) steps)"

function path_inputs :: "(bytes \<Rightarrow> digest) \<Rightarrow> digest list \<Rightarrow> nat \<Rightarrow> nat \<Rightarrow> nat \<Rightarrow> bytes list" where
  "path_inputs H xs i lo hi =
    (if 1 < hi - lo then
       (let mid = lo + largest_pow2_less_than (hi - lo)
        in node_bytes (subtree_root H xs lo mid) (subtree_root H xs mid hi) #
           (if i < mid then path_inputs H xs i lo mid else path_inputs H xs i mid hi))
     else [])"
  by pat_completeness auto
termination
proof (relation "measure (\<lambda>(_, _, _, lo, hi). hi - lo)")
  show "wf (measure (\<lambda>(_ :: bytes \<Rightarrow> digest, _ :: digest list, _ :: nat, lo :: nat, hi). hi - lo))" by simp
  fix H :: "bytes \<Rightarrow> digest" and xs :: "digest list" and i lo hi x :: nat
  assume *: "1 < hi - lo" "x = lo + largest_pow2_less_than (hi - lo)"
  then have "lo < x" "x < hi"
    using largest_pow2_range [of "hi - lo"] by auto
  then show "((H, xs, i, lo, x), H, xs, i, lo, hi) \<in> measure (\<lambda>(_, _, _, lo, hi). hi - lo)"
    and "((H, xs, i, x, hi), H, xs, i, lo, hi) \<in> measure (\<lambda>(_, _, _, lo, hi). hi - lo)"
    by auto
qed

declare path_inputs.simps [simp del]

lemma digest_bytes_inject [simp]: "digest_bytes a = digest_bytes b \<longleftrightarrow> a = b"
proof -
  have "unat d < 256 ^ 32" for d :: digest
    using unsigned_less [of d, where 'a = nat] by simp
  then show ?thesis
    unfolding digest_bytes_def by (simp add: nat_be_inject word_unat_eq_iff del: nat_be.simps)
qed

lemma length_digest_bytes [simp]: "length (digest_bytes d) = 32"
  by (simp add: digest_bytes_def del: nat_be.simps)

lemma node_bytes_inject [simp]: "node_bytes a b = node_bytes c d \<longleftrightarrow> a = c \<and> b = d"
  by (auto simp: node_bytes_def)

lemma step_inputs_snoc:
  "step_inputs H x (steps @ [(s, d)]) = step_inputs H x steps @
    [if d then node_bytes (apply_siblings H x steps) s else node_bytes s (apply_siblings H x steps)]"
proof (induction steps arbitrary: x)
  case (Cons st steps)
  then show ?case
    by (cases st) (auto simp: apply_siblings_def h_node_def Let_def)
qed (simp add: apply_siblings_def)

lemma path_steps_mid:
  assumes "1 < hi - lo"
  defines "mid \<equiv> lo + largest_pow2_less_than (hi - lo)"
  shows "path_steps H xs i lo hi = (if i < mid
      then (range_root H xs (mid, hi), True) # path_steps H xs i lo mid
      else (range_root H xs (lo, mid), False) # path_steps H xs i mid hi)"
    and "path_inputs H xs i lo hi = node_bytes (subtree_root H xs lo mid) (subtree_root H xs mid hi) #
      (if i < mid then path_inputs H xs i lo mid else path_inputs H xs i mid hi)"
  using assms by (simp_all add: path_steps.simps [of _ _ _ lo hi] path_inputs.simps [of _ _ _ lo hi] Let_def)

lemma zip_snoc_last:
  assumes "length sibs = Suc n" "length ds = n"
  shows "zip sibs (ds @ [d]) = zip (butlast sibs) ds @ [(last sibs, d)]"
proof -
  have "sibs = butlast sibs @ [last sibs]" using assms by (metis append_butlast_last_id list.size(3) nat.distinct(1))
  moreover have "length (butlast sibs) = length ds" using assms by simp
  ultimately show ?thesis by (metis zip_append zip_Cons_Cons zip_Nil)
qed

lemma apply_siblings_sound:
  assumes "lo \<le> i" "i < hi" "length sibs = length (path_steps H xs i lo hi)"
    and "apply_siblings H leaf (zip sibs (rev (map snd (path_steps H xs i lo hi)))) = subtree_root H xs lo hi"
    and "inj_on H (set (step_inputs H leaf (zip sibs (rev (map snd (path_steps H xs i lo hi)))))
      \<union> set (path_inputs H xs i lo hi))"
  shows "leaf = xs ! i"
  using assms
proof (induction "hi - lo" arbitrary: lo hi sibs rule: less_induct)
  case less
  show ?case
  proof (cases "1 < hi - lo")
    case True
    define mid where "mid = lo + largest_pow2_less_than (hi - lo)"
    note mid = subtree_root_mid [OF True, folded mid_def]
    note ps = path_steps_mid [OF True, folded mid_def]
    define lo' hi' where "lo' = (if i < mid then lo else mid)" and "hi' = (if i < mid then mid else hi)"
    let ?ds = "rev (map snd (path_steps H xs i lo' hi'))" and ?sibs = "butlast sibs"
    have ds: "rev (map snd (path_steps H xs i lo hi)) = ?ds @ [i < mid]"
      by (simp add: ps lo'_def hi'_def)
    have len: "length sibs = Suc (length ?ds)"
      using less.prems(3) ps by (simp add: lo'_def hi'_def split: if_splits)
    note z = zip_snoc_last [OF len refl, of "i < mid"]
    let ?acc = "apply_siblings H leaf (zip ?sibs ?ds)"
    let ?q = "if i < mid then node_bytes ?acc (last sibs) else node_bytes (last sibs) ?acc"
    have same: "H ?q = H (node_bytes (subtree_root H xs lo mid) (subtree_root H xs mid hi))"
      using less.prems(4) unfolding ds z apply_siblings_snoc mid(1) by (simp add: h_node_def split: if_splits)
    have inj: "inj_on H (set (step_inputs H leaf (zip ?sibs ?ds)) \<union> {?q}
        \<union> {node_bytes (subtree_root H xs lo mid) (subtree_root H xs mid hi)} \<union> set (path_inputs H xs i lo' hi'))"
      by (rule inj_on_subset [OF less.prems(5) [unfolded ds z step_inputs_snoc ps(2)]])
        (auto simp: lo'_def hi'_def)
    have "?q = node_bytes (subtree_root H xs lo mid) (subtree_root H xs mid hi)"
      by (rule inj_onD [OF inj same]) blast+
    then have acc: "?acc = subtree_root H xs lo' hi'"
      by (simp add: lo'_def hi'_def split: if_splits)
    show ?thesis
    proof (rule less.hyps [of hi' lo' ?sibs])
      show "hi' - lo' < hi - lo" using mid by (auto simp: lo'_def hi'_def)
      show "inj_on H (set (step_inputs H leaf (zip ?sibs ?ds)) \<union> set (path_inputs H xs i lo' hi'))"
        by (rule inj_on_subset [OF inj]) auto
    qed (use less.prems acc len in \<open>auto simp: lo'_def hi'_def\<close>)
  next
    case False
    with less.prems have eq: "hi = Suc lo" "i = lo" by auto
    have "path_steps H xs i lo hi = []" using False by (subst path_steps.simps) simp
    with less.prems(4) eq show ?thesis by (simp add: apply_siblings_def subtree_root_single)
  qed
qed

lemma directions_walk_fst_indep: "map snd (path_steps H xs i lo hi) = map snd (path_steps H' ys i lo hi)"
proof (induction H xs i lo hi rule: path_steps.induct)
  case (1 H xs i lo hi)
  then show ?case
    by (cases "1 < hi - lo")
      (simp_all add: path_steps.simps [of H xs i lo hi] path_steps.simps [of H' ys i lo hi] Let_def)
qed

definition verifier_inputs :: "(bytes \<Rightarrow> digest) \<Rightarrow> inclusion_proof \<Rightarrow> digest \<Rightarrow> bytes list" where
  "verifier_inputs H proof leaf = (case proof_directions (ip_tree_size proof) (ip_i proof) of
      None \<Rightarrow> [] | Some ds \<Rightarrow> step_inputs H leaf (zip (ip_siblings proof) (rev ds)))"

section \<open>Appending to heads\<close>

lemma count_ones_zero: "count_ones 0 = 0"
  by (simp add: count_ones.simps)

lemma count_ones_even: "count_ones (2 * q) = count_ones q"
  by (cases "q = 0") (simp_all add: count_ones.simps [of "2 * q"])

lemma count_ones_odd: "count_ones (Suc (2 * q)) = Suc (count_ones q)"
  by (simp add: count_ones.simps [of "Suc (2 * q)"])

lemma merge_peaks_total:
  assumes "length peaks = count_ones k"
  shows "\<exists>ps c. merge_peaks H peaks carry k = Some (ps, c) \<and> Suc (length ps) = count_ones (Suc k)"
  using assms
proof (induction k arbitrary: peaks carry rule: less_induct)
  case (less k)
  show ?case
  proof (cases k rule: parity_cases)
    case (1 q)
    with less.prems show ?thesis by (simp add: merge_peaks_simps count_ones_even count_ones_odd)
  next
    case (2 q)
    then have "peaks \<noteq> []" using less.prems by (auto simp: count_ones_odd)
    then obtain ps p where "peaks = ps @ [p]" by (metis append_butlast_last_id)
    with 2 less.IH [of q ps "h_node H p carry"] less.prems count_ones_even [of "Suc q"] show ?thesis
      by (simp add: merge_peaks_simps count_ones_odd)
  qed
qed

lemma fold_peaks_nonempty: "fold_peaks H (ps @ [c]) \<noteq> None"
  by (simp add: fold_peaks_def)

lemma append_hash_total:
  assumes "writer_state_is_well_formed (mt_tree_size t) (mt_peaks t)" "mt_tree_size t \<noteq> MAX_TREE_SIZE"
  shows "\<exists>t' r. append_hash H t x = Some t' \<and> mmr_root H t' = Some r \<and> mt_tree_size t' = mt_tree_size t + 1"
proof -
  let ?n = "unat (mt_tree_size t)"
  have lt: "mt_tree_size t < MAX_TREE_SIZE"
    using assms(2) unat_u32_lt [of "mt_tree_size t"]
    by (simp add: MAX_TREE_SIZE_def order_less_le word_le_nat_alt)
  then have n: "?n < 2 ^ 32 - 1"
    by (simp add: MAX_TREE_SIZE_def word_less_nat_alt)
  have len: "length (mt_peaks t) = count_ones ?n"
    using assms(1) count_ones_zero
    by (auto simp: writer_state_is_well_formed_def peak_count_matches_def split: if_splits)
  obtain ps c where m: "merge_peaks H (mt_peaks t) x ?n = Some (ps, c)" "Suc (length ps) = count_ones (Suc ?n)"
    using merge_peaks_total [OF len] by blast
  have suc: "unat (mt_tree_size t + 1) = Suc ?n"
    using n by (simp add: unat_word_ariths)
  have "count_ones (Suc ?n) < 2 ^ 32"
    using count_ones_le [of "Suc ?n"] n by linarith
  moreover have "mt_tree_size t + 1 \<noteq> 0" using suc by force
  ultimately have "writer_state_is_well_formed (mt_tree_size t + 1) (ps @ [c])"
    using m(2) suc
    by (simp add: writer_state_is_well_formed_def is_supported_live_tree_size_def peak_count_matches_def)
  then show ?thesis
    using assms(1) lt m(1) fold_peaks_nonempty [of H ps c] by (auto simp: append_hash_def mmr_root_def)
qed

lemma head_well_formed_writer:
  "head_is_well_formed H h \<Longrightarrow> writer_state_is_well_formed (th_tree_size h) (th_peaks h) \<and> 0 < th_tree_size h"
  by (simp add: head_is_well_formed_def tree_head_parts_are_well_formed_def writer_state_is_well_formed_def
      is_supported_live_tree_size_def word_gt_0)

lemma try_append_head_of:
  assumes h: "head_of H h xs" and len: "length xs < 2 ^ 32 - 1"
  shows "\<exists>h'. try_append H h e = Some (True, h') \<and> head_of H h' (xs @ [h_leaf H e])"
proof -
  let ?t = "\<lparr>mt_peaks = th_peaks h, mt_tree_size = th_tree_size h\<rparr>"
  have t: "mmr_holds H ?t xs" and wf: "head_is_well_formed H h"
    using h head_of_well_formed [OF h] by (simp_all add: head_of_def)
  obtain t' where t': "append_hash H ?t (h_leaf H e) = Some t'" "mmr_holds H t' (xs @ [h_leaf H e])"
    using writer.add_holds [OF t len] by blast
  obtain h' where h': "mmr_tree_head H t' = Some h'" "head_of H h' (xs @ [h_leaf H e])"
    using mmr_tree_head_of [OF t'(2)] by auto
  have "th_tree_size h < MAX_TREE_SIZE"
    using t len u32_lt_max [of "length xs"] by (simp add: mmr_holds_def)
  with t' h' wf head_well_formed_writer [OF wf] show ?thesis
    by (cases "mmr_root H t'") (auto simp: try_append_def mmr_append_def rooted_head_def mmr_tree_head_def)
qed

fun mmr_build_from :: "(bytes \<Rightarrow> digest) \<Rightarrow> mmr_tree \<Rightarrow> bytes list \<Rightarrow> mmr_tree option" where
  "mmr_build_from H t [] = Some t"
| "mmr_build_from H t (e # es) = Option.bind (mmr_append H t e) (\<lambda>(t', _). mmr_build_from H t' es)"

lemma mmr_build_from_holds:
  assumes "mmr_holds H t xs" "xs \<noteq> []" "length xs + length es \<le> 2 ^ 32 - 1"
  shows "\<exists>t'. mmr_build_from H t es = Some t' \<and> mmr_holds H t' (xs @ map (h_leaf H) es)"
  using assms
proof (induction es arbitrary: t xs)
  case (Cons e es)
  then obtain t' where t': "append_hash H t (h_leaf H e) = Some t'" "mmr_holds H t' (xs @ [h_leaf H e])"
    using writer.add_holds [of H t xs "h_leaf H e"] by auto
  have "0 < mt_tree_size t"
    using Cons.prems unat_of_nat_u32 [of "length xs"] by (auto simp: mmr_holds_def word_less_nat_alt)
  with t' Cons.IH [OF t'(2)] Cons.prems show ?case by (simp add: mmr_append_def)
qed simp

section \<open>Properties\<close>

text \<open>
  C19: Starting from an empty writer, recording the initial leaf and any number of entries up to
  the capacity never panics, and the root obtained from the peaks is the RFC 6962 root of the leaf
  hashes in order.
\<close>

theorem writer_computes_reference_root:
  assumes "length entries < 2 ^ 32 - 1"
  shows "\<exists>t. Option.bind (initialize H mmr_new dc) (\<lambda>t. mmr_build_from H t entries) = Some t
    \<and> mmr_root H t = Some (subtree_root H (h_init H dc # map (h_leaf H) entries) 0 (Suc (length entries)))
    \<and> unat (mt_tree_size t) = Suc (length entries) \<and> length (mt_peaks t) = peak_count t"
proof -
  obtain t0 where t0: "append_hash H mmr_new (h_init H dc) = Some t0" "mmr_holds H t0 [h_init H dc]"
    using writer.add_holds [OF writer.holds_empty, of H "h_init H dc"] by auto
  obtain t where t: "mmr_build_from H t0 entries = Some t" "mmr_holds H t (h_init H dc # map (h_leaf H) entries)"
    using mmr_build_from_holds [OF t0(2), of entries] assms by auto
  have "unat (mt_tree_size t) = Suc (length entries)"
    using t(2) unat_of_nat_u32 [of "Suc (length entries)"] by (simp add: mmr_holds_def)
  moreover from this have "length (mt_peaks t) = peak_count t"
    using t(2) by (simp add: peak_count_def mmr_holds_def length_peak_ranges)
  ultimately show ?thesis
    using t0 t writer.commit_holds [OF t(2)] by (simp add: initialize_def mmr_new_def tree_root_def)
qed

theorem writer_computes_reference_root_witness:
  "\<exists>t. Option.bind (initialize (\<lambda>b. of_nat (be_nat b)) mmr_new [7]) (\<lambda>t. mmr_build_from (\<lambda>b. of_nat (be_nat b)) t [[1], [2, 3]]) = Some t
    \<and> unat (mt_tree_size t) = 3"
  using writer_computes_reference_root [of "[[1], [2, 3]]" "\<lambda>b. of_nat (be_nat b)" "[7]"] by auto

text \<open>
  C20: For every list of leaf hashes below the capacity and every index, the proof cache produces a
  proof without panicking, it has at most 32 siblings, and it verifies against the head of a
  writer that holds the same leaves.
\<close>

theorem generated_proofs_verify:
  assumes "head_of H h xs" "unat i < length xs"
  shows "\<exists>p. prove_from_leaf_hashes H xs i = Some (Some p) \<and> length (ip_siblings p) \<le> 32
    \<and> verify_with_leaf_hash H h p (xs ! unat i)"
proof -
  have len: "length xs < 2 ^ 32" using assms(1) by (simp add: head_of_def mmr_holds_def)
  have "extend_all H c ys = foldl (\<lambda>st x. Option.bind st (\<lambda>s. extend_with_leaf H s x)) (Some c) ys" for c ys
  proof (induction ys arbitrary: c)
    case (Cons y ys)
    have none: "foldl (\<lambda>st x. Option.bind st (\<lambda>s. extend_with_leaf H s x)) None ys = None"
      by (induction ys) simp_all
    show ?case by (cases "extend_with_leaf H c y") (simp_all add: Cons none)
  qed simp
  with cache.add_all_holds [OF cache.holds_empty, of xs H] len obtain c where
    c: "extend_all H cache_new xs = Some c" "cache_holds H c xs" by auto
  show ?thesis
    using c cache_prove_path [OF c(2) assms(2)] generated_proof_verifies [OF assms] len assms(2)
      path_steps_depth [of "length xs" 0 32 H xs "unat i"]
    by (simp add: prove_from_leaf_hashes_def from_leaf_hashes_def)
qed

theorem generated_proofs_verify_witness:
  "\<exists>p. prove_from_leaf_hashes (\<lambda>b. of_nat (be_nat b)) [5] 0 = Some (Some p)
    \<and> verify_with_leaf_hash (\<lambda>b. of_nat (be_nat b)) \<lparr>th_root = 5, th_tree_size = 1, th_peaks = [5]\<rparr> p 5"
proof -
  have "head_of (\<lambda>b. of_nat (be_nat b)) \<lparr>th_root = 5, th_tree_size = 1, th_peaks = [5]\<rparr> [5]"
    using peak_ranges_simps(3) [of 0 0]
    by (simp add: head_of_def mmr_holds_def tree_root_def range_root_def subtree_root_single peak_ranges_simps(1))
  from generated_proofs_verify [OF this, of 0] show ?thesis by auto
qed

text \<open>
  C16: A verified inclusion proof against the head of a leaf list identifies the leaf at the proof's
  index, provided the hash has no collision among the strings hashed by this verification and on
  the tree's path to that leaf.
\<close>

theorem verified_proofs_sound:
  assumes "head_of H h xs" "verify_with_leaf_hash H h p leaf"
    and "inj_on H (set (verifier_inputs H p leaf) \<union> set (path_inputs H xs (unat (ip_i p)) 0 (length xs)))"
  shows "unat (ip_i p) < length xs \<and> leaf = xs ! unat (ip_i p)"
proof -
  let ?i = "unat (ip_i p)" and ?ps = "path_steps H xs (unat (ip_i p)) 0 (length xs)"
  have size: "th_tree_size h = of_nat (length xs)" "length xs < 2 ^ 32" "th_root h = tree_root H xs"
    using assms(1) by (simp_all add: head_of_def mmr_holds_def)
  have n: "unat (of_nat (length xs) :: u32) = length xs"
    using unat_of_nat_u32 [OF size(2)] .
  have p: "ip_tree_size p = of_nat (length xs)"
    using assms(2) size(1) by (simp add: verify_with_leaf_hash_def split: if_splits)
  have i: "?i < length xs"
    using assms(2) n by (auto simp: verify_with_leaf_hash_def p proof_directions_def word_le_nat_alt not_le
        split: if_splits)
  have "length ?ps \<le> 32"
    using path_steps_depth [of "length xs" 0 32] size(2) by simp
  then have ds: "proof_directions (ip_tree_size p) (ip_i p) = Some (map snd ?ps)"
    using directions_walk_path [of "[]" H xs ?i 0 "length xs"] i n p
    by (auto simp: proof_directions_def is_supported_live_tree_size_def word_le_nat_alt)
  with assms(2) have "length (ip_siblings p) = length ?ps"
    "apply_siblings H leaf (zip (ip_siblings p) (rev (map snd ?ps))) = subtree_root H xs 0 (length xs)"
    by (simp_all add: verify_with_leaf_hash_def size(3) tree_root_def split: if_splits)
  with apply_siblings_sound [of 0 ?i "length xs" "ip_siblings p" H xs leaf] assms(3) i ds show ?thesis
    by (simp add: verifier_inputs_def)
qed

lemma two_leaves:
  "largest_pow2_less_than 2 = 1"
  "peak_ranges 2 0 = [(0, 2)]"
  "subtree_root H [a, b] 0 2 = h_node H a b"
  "path_inputs H [a, b] 1 0 2 = [node_bytes a b]"
  "directions_walk 1 0 2 [] = Some [False]"
proof -
  show k: "largest_pow2_less_than 2 = 1"
    using largest_pow2_eq [of 0 2] by simp
  show "peak_ranges 2 0 = [(0, 2)]"
    using peak_ranges_simps(2) [of 1 0] peak_ranges_simps(3) [of 0 1] by (simp add: peak_ranges_simps(1))
  show "subtree_root H [a, b] 0 2 = h_node H a b"
    by (simp add: subtree_root.simps [of H "[a, b]" 0 2] k subtree_root_single)
  show "path_inputs H [a, b] 1 0 2 = [node_bytes a b]"
    by (simp add: path_inputs.simps [of H "[a, b]" "Suc 0" 0 2] k subtree_root_single path_inputs.simps [of H "[a, b]" _ "Suc 0" 2])
  show "directions_walk 1 0 2 [] = Some [False]"
    by (simp add: directions_walk.simps [of "Suc 0" 0 2] directions_walk.simps [of "Suc 0" "Suc 0" 2] k MAX_INCLUSION_PROOF_SIBLINGS_def)
qed

theorem verified_proofs_sound_witness:
  "verify_with_leaf_hash (\<lambda>b. of_nat (be_nat b))
      \<lparr>th_root = h_node (\<lambda>b. of_nat (be_nat b)) 5 6, th_tree_size = 2, th_peaks = [h_node (\<lambda>b. of_nat (be_nat b)) 5 6]\<rparr>
      \<lparr>ip_i = 1, ip_tree_size = 2, ip_siblings = [5]\<rparr> 6 \<and> (6 :: digest) = [5, 6] ! 1"
proof -
  let ?H = "\<lambda>b. of_nat (be_nat b) :: digest"
  let ?h = "\<lparr>th_root = h_node ?H 5 6, th_tree_size = 2, th_peaks = [h_node ?H 5 6]\<rparr>"
  let ?p = "\<lparr>ip_i = 1, ip_tree_size = 2, ip_siblings = [5]\<rparr> :: inclusion_proof"
  have h: "head_of ?H ?h [5, 6]"
    by (simp add: head_of_def mmr_holds_def tree_root_def range_root_def two_leaves [unfolded numeral_2_eq_2])
  have ds: "proof_directions 2 1 = Some [False]"
    using two_leaves(5) by (simp add: proof_directions_def is_supported_live_tree_size_def word_le_nat_alt)
  have v: "verify_with_leaf_hash ?H ?h ?p 6"
    using head_of_well_formed [OF h]
    by (simp add: verify_with_leaf_hash_def ds MAX_INCLUSION_PROOF_SIBLINGS_def apply_siblings_def)
  have "verifier_inputs ?H ?p 6 = [node_bytes 5 6]"
    by (simp add: verifier_inputs_def ds)
  with verified_proofs_sound [OF h v] v two_leaves(4) [of ?H 5 6, unfolded numeral_2_eq_2] show ?thesis by simp
qed

text \<open>
  C21: \<open>try_append\<close> never panics, whatever head it is given: it succeeds exactly on well-formed heads
  below the maximal size, leaves every other head unchanged, and on the head of a leaf list it
  yields the head of the list extended with the new leaf.
\<close>

theorem try_append_refines_append:
  "(\<exists>ok h'. try_append H h e = Some (ok, h')
     \<and> ok = (head_is_well_formed H h \<and> th_tree_size h \<noteq> MAX_TREE_SIZE)
     \<and> (if ok then th_tree_size h' = th_tree_size h + 1 else h' = h))
   \<and> (head_of H h xs \<and> length xs < 2 ^ 32 - 1 \<longrightarrow>
       (\<exists>h'. try_append H h e = Some (True, h') \<and> head_of H h' (xs @ [h_leaf H e])))"
proof (intro conjI impI)
  show "\<exists>ok h'. try_append H h e = Some (ok, h')
     \<and> ok = (head_is_well_formed H h \<and> th_tree_size h \<noteq> MAX_TREE_SIZE)
     \<and> (if ok then th_tree_size h' = th_tree_size h + 1 else h' = h)"
  proof (cases "head_is_well_formed H h \<and> th_tree_size h \<noteq> MAX_TREE_SIZE")
    case False
    then show ?thesis by (simp add: try_append_def)
  next
    case True
    note w = head_well_formed_writer [OF conjunct1 [OF True]]
    obtain t' r where "append_hash H \<lparr>mt_peaks = th_peaks h, mt_tree_size = th_tree_size h\<rparr> (h_leaf H e) = Some t'"
      "mmr_root H t' = Some r" "mt_tree_size t' = th_tree_size h + 1"
      using append_hash_total [of "\<lparr>mt_peaks = th_peaks h, mt_tree_size = th_tree_size h\<rparr>" H "h_leaf H e"] w True
      by auto
    with True w show ?thesis
      by (auto simp: try_append_def mmr_append_def rooted_head_def)
  qed
qed (use try_append_head_of in blast)

theorem try_append_refines_append_witness:
  "\<exists>h'. try_append (\<lambda>b. of_nat (be_nat b)) \<lparr>th_root = 5, th_tree_size = 1, th_peaks = [5]\<rparr> [9] = Some (True, h')
    \<and> head_of (\<lambda>b. of_nat (be_nat b)) h' [5, h_leaf (\<lambda>b. of_nat (be_nat b)) [9]]"
proof -
  have "head_of (\<lambda>b. of_nat (be_nat b)) \<lparr>th_root = 5, th_tree_size = 1, th_peaks = [5]\<rparr> [5]"
    using peak_ranges_simps(3) [of 0 0]
    by (simp add: head_of_def mmr_holds_def tree_root_def range_root_def subtree_root_single peak_ranges_simps(1))
  with try_append_refines_append [of "\<lambda>b. of_nat (be_nat b)" _ "[9]" "[5]"] show ?thesis by auto
qed

text \<open>
  C22: The direction list of a proof exists exactly for a non-empty tree and an index inside it, and
  has at most 32 entries: the overflow exit of the walk is never taken.
\<close>

theorem proof_directions_total:
  "case proof_directions n i of None \<Rightarrow> n = 0 \<or> n \<le> i | Some ds \<Rightarrow> i < n \<and> length ds \<le> 32"
proof (cases "n = 0 \<or> n \<le> i")
  case False
  have "length (path_steps (\<lambda>_. 0) [] (unat i) 0 (unat n)) \<le> 32"
    using path_steps_depth [of "unat n" 0 32] unat_u32_lt [of n] by simp
  with directions_walk_path [of "[]" "\<lambda>_. 0" "[]" "unat i" 0 "unat n"] False show ?thesis
    by (simp add: proof_directions_def is_supported_live_tree_size_def not_le)
qed (auto simp: proof_directions_def is_supported_live_tree_size_def)

end
