(* ===== verification/Time_Policy.thy ===== *)
theory Time_Policy
  imports Prelude
begin

text \<open>
  The timestamp policy of \<open>ffproof/changelog_core/src/time.rs\<close>: acceptance at the live server, the
  client's clock guardrail and the high-water mark of replay.  Times are \<open>u64\<close> seconds with
  saturating arithmetic; an error is the payload-free \<open>TimestampRejected\<close>.

  The lemmas show that a history the server accepted with a monotone clock is never rejected by the
  high-water mark, and bound how old a replayed change can be.
\<close>

section \<open>Saturating arithmetic\<close>

definition saturating_add :: "u64 \<Rightarrow> u64 \<Rightarrow> u64" where
  "saturating_add a b = (if unat a + unat b < 2 ^ 64 then a + b else 0xFFFFFFFFFFFFFFFF)"

definition saturating_sub :: "u64 \<Rightarrow> u64 \<Rightarrow> u64" where
  "saturating_sub a b = (if b \<le> a then a - b else 0)"

lemma unat_u64_lt: "unat (w :: u64) < 2 ^ 64"
  using unsigned_less [of w, where 'a = nat] by simp

lemma unat_saturating_add: "unat (saturating_add a b) = min (unat a + unat b) (2 ^ 64 - 1)"
proof (cases "unat a + unat b < 2 ^ 64")
  case True
  then have "unat (a + b) = unat a + unat b"
    by (simp add: unat_word_ariths)
  with True show ?thesis by (simp add: saturating_add_def)
qed (simp add: saturating_add_def)

lemma unat_saturating_sub: "unat (saturating_sub a b) = unat a - unat b"
  by (simp add: saturating_sub_def unat_sub word_le_nat_alt)

section \<open>Policy\<close>

datatype time_error = TimestampRejected

definition CHANGE_EXPIRY_SECONDS :: u64 where "CHANGE_EXPIRY_SECONDS = 100"
definition CLOCK_SKEW_TOLERANCE_SECONDS :: u64 where "CLOCK_SKEW_TOLERANCE_SECONDS = 5"
definition CLIENT_CLOCK_TOLERANCE_SECONDS :: u64 where "CLIENT_CLOCK_TOLERANCE_SECONDS = 120"
definition TIMESTAMP_HWM_TOLERANCE_SECONDS :: u64 where
  "TIMESTAMP_HWM_TOLERANCE_SECONDS = CHANGE_EXPIRY_SECONDS + CLOCK_SKEW_TOLERANCE_SECONDS"

lemmas time_consts = CHANGE_EXPIRY_SECONDS_def CLOCK_SKEW_TOLERANCE_SECONDS_def
  CLIENT_CLOCK_TOLERANCE_SECONDS_def TIMESTAMP_HWM_TOLERANCE_SECONDS_def

definition validate_change_timestamp_at_acceptance :: "u64 \<Rightarrow> u64 \<Rightarrow> time_error + unit" where
  "validate_change_timestamp_at_acceptance change_timestamp accepted_at_server_time =
    (if saturating_add accepted_at_server_time CLOCK_SKEW_TOLERANCE_SECONDS < change_timestamp
     then Inl TimestampRejected
     else if CHANGE_EXPIRY_SECONDS < saturating_sub accepted_at_server_time change_timestamp
     then Inl TimestampRejected
     else Inr ())"

definition validate_accepted_at_server_time_against_local_clock :: "u64 \<Rightarrow> u64 \<Rightarrow> time_error + unit" where
  "validate_accepted_at_server_time_against_local_clock accepted_at_server_time local_time =
    (let latest = saturating_add local_time CLIENT_CLOCK_TOLERANCE_SECONDS in
     if latest < accepted_at_server_time then Inl TimestampRejected
     else if CLIENT_CLOCK_TOLERANCE_SECONDS < saturating_sub local_time accepted_at_server_time
     then Inl TimestampRejected
     else Inr ())"

text \<open>The source updates the mark in place; the result pairs its flag with the new mark.\<close>

definition validate_timestamp_hwm :: "u64 \<Rightarrow> u64 \<Rightarrow> bool \<times> u64" where
  "validate_timestamp_hwm change_timestamp timestamp_hwm =
    (if timestamp_hwm \<le> change_timestamp then (True, change_timestamp)
     else (saturating_sub timestamp_hwm change_timestamp \<le> TIMESTAMP_HWM_TOLERANCE_SECONDS, timestamp_hwm))"

section \<open>Lemmas\<close>

lemma accepted_iff:
  "validate_change_timestamp_at_acceptance t s = Inr () \<longleftrightarrow>
    unat t \<le> min (unat s + 5) (2 ^ 64 - 1) \<and> unat s - unat t \<le> 100"
  by (auto simp: validate_change_timestamp_at_acceptance_def word_less_nat_alt unat_saturating_add
      unat_saturating_sub time_consts not_less)

lemma local_clock_iff:
  "validate_accepted_at_server_time_against_local_clock s l = Inr () \<longleftrightarrow>
    unat s \<le> min (unat l + 120) (2 ^ 64 - 1) \<and> unat l - unat s \<le> 120"
  by (auto simp: validate_accepted_at_server_time_against_local_clock_def word_less_nat_alt
      unat_saturating_add unat_saturating_sub time_consts not_less Let_def)

lemma hwm_step:
  "validate_timestamp_hwm t h = (unat h \<le> unat t + 105, if h \<le> t then t else h)"
  by (auto simp: validate_timestamp_hwm_def word_le_nat_alt unat_saturating_sub time_consts)

fun hwm_replay :: "u64 list \<Rightarrow> u64 \<Rightarrow> bool \<times> u64" where
  "hwm_replay [] h = (True, h)"
| "hwm_replay (t # ts) h =
    (let (ok, h') = validate_timestamp_hwm t h in if ok then hwm_replay ts h' else (False, h'))"

lemma hwm_replay_accepts:
  assumes "sorted_wrt (\<le>) (map snd cs)"
    and "\<forall>(t, s) \<in> set cs. validate_change_timestamp_at_acceptance t s = Inr ()"
    and "\<forall>(t, s) \<in> set cs. unat h \<le> unat s + 5"
  shows "fst (hwm_replay (map fst cs) h)"
  using assms
proof (induction cs arbitrary: h)
  case (Cons c cs)
  obtain t s where c: "c = (t, s)" by (cases c)
  have acc: "unat t \<le> unat s + 5" "unat s - unat t \<le> 100"
    using Cons.prems(2) c accepted_iff [of t s] by auto
  have ok: "unat h \<le> unat t + 105" using acc Cons.prems(3) c by auto
  have "unat (if h \<le> t then t else h) \<le> unat s' + 5" if "(t', s') \<in> set cs" for t' s'
    using Cons.prems(1,3) acc c that by (force simp: word_le_nat_alt)
  then have "fst (hwm_replay (map fst cs) (if h \<le> t then t else h))"
    using Cons.prems(1,2) by (intro Cons.IH) auto
  with ok c show ?case by (simp add: hwm_step)
qed simp

section \<open>Properties\<close>

text \<open>
  C32: A history of changes that the live server accepted, with a server clock that never went
  backwards, is accepted in full by the high-water-mark check of replay that starts from zero.
\<close>

theorem hwm_never_rejects_accepted_history:
  assumes "sorted_wrt (\<le>) (map snd cs)"
    and "\<forall>(t, s) \<in> set cs. validate_change_timestamp_at_acceptance t s = Inr ()"
  shows "fst (hwm_replay (map fst cs) 0)"
  using hwm_replay_accepts [OF assms, of 0] by simp

theorem hwm_never_rejects_accepted_history_witness:
  "fst (hwm_replay [1005, 901, 950] 0)"
proof -
  have "fst (hwm_replay (map fst [(1005, 1000 :: u64), (901, 1001), (950, 1002)]) 0)"
    by (rule hwm_never_rejects_accepted_history) (simp_all add: accepted_iff word_le_nat_alt)
  then show ?thesis by simp
qed

text \<open>
  C33: A change whose signed timestamp passed the acceptance check and whose reported acceptance
  time passed the local clock check is at most 220 seconds old, and at most 125 seconds ahead of
  the local clock.
\<close>

theorem replay_age_bounded:
  assumes "validate_change_timestamp_at_acceptance t s = Inr ()"
    and "validate_accepted_at_server_time_against_local_clock s l = Inr ()"
  shows "unat l \<le> unat t + 220 \<and> unat t \<le> unat l + 125"
  using assms by (auto simp: accepted_iff local_clock_iff)

theorem replay_age_bounded_witness:
  "validate_change_timestamp_at_acceptance 1000 1100 = Inr () \<and>
    validate_accepted_at_server_time_against_local_clock 1100 1220 = Inr () \<and> unat (1220 :: u64) \<le> unat (1000 :: u64) + 220"
proof -
  have "validate_change_timestamp_at_acceptance 1000 1100 = Inr ()"
    "validate_accepted_at_server_time_against_local_clock 1100 1220 = Inr ()"
    by (simp_all add: accepted_iff local_clock_iff)
  with replay_age_bounded [OF this] show ?thesis
    by simp
qed

end
