(* ===== verification/Access_Control.thy ===== *)
theory Access_Control
  imports Storage_Keys
begin

text \<open>
  Access rules, assertions and actions: \<open>backend/acl-types/src/lib.rs\<close> and the construction of
  their syntax trees in \<open>ast_build.rs\<close>.

  A JSON number is an abstract value read through the parameter \<open>as_i64\<close> (\<open>serde_json\<close>'s
  \<open>Number::as_i64\<close>); the pest parser, generated from \<open>predicate.pest\<close>, is a parameter that returns a
  parse tree of named pairs.  Error messages become the constructors of \<open>acl_error\<close>.

  The lemmas show that a rule only looks at the columns it lists, that evaluation is total on
  integer rows, how missing values behave, and that the conversion of assertions to plain rules
  rejects exactly the assertions with an \<open>exists\<close>.
\<close>

section \<open>Rules and assertions\<close>

datatype access_operation = Write | Delete

definition access_operation_str :: "access_operation \<Rightarrow> bytes" where
  "access_operation_str op = (case op of Write \<Rightarrow> str ''write'' | Delete \<Rightarrow> str ''delete'')"

datatype comparison_op = Equal | NotEqual | Less | LessEqual | Greater | GreaterEqual

fun comparison_op_str :: "comparison_op \<Rightarrow> bytes" where
  "comparison_op_str Equal = str ''==''"
| "comparison_op_str NotEqual = str ''!=''"
| "comparison_op_str Less = str ''<''"
| "comparison_op_str LessEqual = str ''<=''"
| "comparison_op_str Greater = str ''>''"
| "comparison_op_str GreaterEqual = str ''>=''"

datatype column_namespace = Resource | SelfRow

datatype rule_value = RInt i64 | AuthUserId | RColumn column_namespace bytes

datatype access_rule =
    Comparison rule_value comparison_op rule_value
  | RAnd access_rule access_rule
  | ROr access_rule access_rule
  | RNot access_rule

datatype assertion =
    ARule access_rule
  | AExists bytes access_rule
  | AAnd assertion assertion
  | AOr assertion assertion
  | ANot assertion

datatype action_leg =
    LInsert bytes
  | LUpdate bytes "bytes list option"
  | LDelete bytes
  | LCascadeDelete bytes bytes bytes

record action =
  act_name :: bytes
  act_asserts :: "assertion list"
  act_legs :: "action_leg list"

record action_body =
  ab_asserts :: "assertion list"
  ab_legs :: "action_leg list"

definition action_to_body :: "action \<Rightarrow> action_body" where
  "action_to_body a = \<lparr>ab_asserts = act_asserts a, ab_legs = act_legs a\<rparr>"

definition into_action :: "action_body \<Rightarrow> bytes \<Rightarrow> action" where
  "into_action b name = \<lparr>act_name = name, act_asserts = ab_asserts b, act_legs = ab_legs b\<rparr>"

fun leg_table :: "action_leg \<Rightarrow> bytes" where
  "leg_table (LInsert t) = t"
| "leg_table (LUpdate t _) = t"
| "leg_table (LDelete t) = t"
| "leg_table (LCascadeDelete t _ _) = t"

section \<open>Evaluation\<close>

datatype acl_error = ResourceUnavailable | NotAnInteger | SelfOutsideAction

fun json_as_i64 :: "('n \<Rightarrow> i64 option) \<Rightarrow> 'n json \<Rightarrow> i64 option" where
  "json_as_i64 as_i64 (JNumber n) = as_i64 n"
| "json_as_i64 as_i64 _ = None"

definition column_value :: "('n \<Rightarrow> i64 option) \<Rightarrow> 'n json option \<Rightarrow> acl_error + i64 option" where
  "column_value as_i64 v = (case v of
      Some v \<Rightarrow> if v = JNull then Inr None
        else (case json_as_i64 as_i64 v of Some i \<Rightarrow> Inr (Some i) | None \<Rightarrow> Inl NotAnInteger)
    | None \<Rightarrow> Inr None)"

fun resolve_value ::
  "('n \<Rightarrow> i64 option) \<Rightarrow> rule_value \<Rightarrow> i64 option \<Rightarrow> 'n json option \<Rightarrow> (bytes \<Rightarrow> 'n json option) option
    \<Rightarrow> acl_error + i64 option"
where
  "resolve_value as_i64 (RInt i) uid resource_data self_row = Inr (Some i)"
| "resolve_value as_i64 AuthUserId uid resource_data self_row = Inr uid"
| "resolve_value as_i64 (RColumn Resource name) uid resource_data self_row =
    (case resource_data of
       None \<Rightarrow> Inl ResourceUnavailable
     | Some resource \<Rightarrow> column_value as_i64 (json_get name resource))"
| "resolve_value as_i64 (RColumn SelfRow name) uid resource_data self_row =
    (case self_row of
       Some row \<Rightarrow> column_value as_i64 (row name)
     | None \<Rightarrow> Inl SelfOutsideAction)"

fun compare_i64 :: "comparison_op \<Rightarrow> i64 \<Rightarrow> i64 \<Rightarrow> bool" where
  "compare_i64 Equal l r = (l = r)"
| "compare_i64 NotEqual l r = (l \<noteq> r)"
| "compare_i64 Greater l r = (r <s l)"
| "compare_i64 GreaterEqual l r = (r \<le>s l)"
| "compare_i64 Less l r = (l <s r)"
| "compare_i64 LessEqual l r = (l \<le>s r)"

fun evaluate_with_self ::
  "('n \<Rightarrow> i64 option) \<Rightarrow> access_rule \<Rightarrow> i64 option \<Rightarrow> 'n json option \<Rightarrow> (bytes \<Rightarrow> 'n json option) option
    \<Rightarrow> acl_error + bool"
where
  "evaluate_with_self as_i64 (Comparison left op right) uid resource_data self_row =
    res_bind (resolve_value as_i64 left uid resource_data self_row) (\<lambda>left_val.
    res_bind (resolve_value as_i64 right uid resource_data self_row) (\<lambda>right_val.
      Inr (case (left_val, right_val) of
          (Some l, Some r) \<Rightarrow> compare_i64 op l r
        | _ \<Rightarrow> False)))"
| "evaluate_with_self as_i64 (RAnd left right) uid resource_data self_row =
    res_bind (evaluate_with_self as_i64 left uid resource_data self_row) (\<lambda>b.
      if \<not> b then Inr False else evaluate_with_self as_i64 right uid resource_data self_row)"
| "evaluate_with_self as_i64 (ROr left right) uid resource_data self_row =
    res_bind (evaluate_with_self as_i64 left uid resource_data self_row) (\<lambda>b.
      if b then Inr True else evaluate_with_self as_i64 right uid resource_data self_row)"
| "evaluate_with_self as_i64 (RNot inner) uid resource_data self_row =
    res_bind (evaluate_with_self as_i64 inner uid resource_data self_row) (\<lambda>b. Inr (\<not> b))"

definition evaluate :: "('n \<Rightarrow> i64 option) \<Rightarrow> access_rule \<Rightarrow> i64 option \<Rightarrow> 'n json option \<Rightarrow> acl_error + bool" where
  "evaluate as_i64 rule uid resource_data = evaluate_with_self as_i64 rule uid resource_data None"

fun resource_column_of :: "rule_value \<Rightarrow> bytes list" where
  "resource_column_of (RColumn Resource name) = [name]"
| "resource_column_of _ = []"

fun collect_resource_columns :: "access_rule \<Rightarrow> bytes list \<Rightarrow> bytes list" where
  "collect_resource_columns (Comparison left op right) out =
    out @ resource_column_of left @ resource_column_of right"
| "collect_resource_columns (RAnd a b) out = collect_resource_columns b (collect_resource_columns a out)"
| "collect_resource_columns (ROr a b) out = collect_resource_columns b (collect_resource_columns a out)"
| "collect_resource_columns (RNot r) out = collect_resource_columns r out"

section \<open>Syntax trees\<close>

datatype pest_rule =
    R_predicate | R_or | R_and | R_unary | R_primary | R_not_op | R_exists_call | R_comparison
  | R_value | R_auth_uid | R_self_col | R_row_col | R_cmp_op | R_integer | R_ident | R_EOI

datatype pest_pair = Pair (as_rule: pest_rule) (as_str: bytes) (into_inner: "pest_pair list")

datatype parse_error = PestError | EmptyInput | Internal | ExistsInAcl | NestedExists | InvalidInteger

fun assertion_into_access_rule :: "assertion \<Rightarrow> parse_error + access_rule" where
  "assertion_into_access_rule (ARule r) = Inr r"
| "assertion_into_access_rule (AExists _ _) = Inl ExistsInAcl"
| "assertion_into_access_rule (AAnd l r) =
    res_bind (assertion_into_access_rule l) (\<lambda>l'. res_bind (assertion_into_access_rule r) (\<lambda>r'. Inr (RAnd l' r')))"
| "assertion_into_access_rule (AOr l r) =
    res_bind (assertion_into_access_rule l) (\<lambda>l'. res_bind (assertion_into_access_rule r) (\<lambda>r'. Inr (ROr l' r')))"
| "assertion_into_access_rule (ANot inner) =
    res_bind (assertion_into_access_rule inner) (\<lambda>r. Inr (RNot r))"

definition next_required :: "pest_pair list \<Rightarrow> parse_error + pest_pair \<times> pest_pair list" where
  "next_required pairs = (case pairs of [] \<Rightarrow> Inl Internal | p # ps \<Rightarrow> Inr (p, ps))"

definition column_name_from_dotted :: "pest_pair \<Rightarrow> bytes \<Rightarrow> parse_error + bytes" where
  "column_name_from_dotted pair pre =
    (if prefix pre (as_str pair) then Inr (drop (length pre) (as_str pair)) else Inl Internal)"

definition build_cmp_op :: "pest_pair \<Rightarrow> parse_error + comparison_op" where
  "build_cmp_op pair =
    (let s = as_str pair in
     if s = str ''=='' then Inr Equal
     else if s = str ''!='' then Inr NotEqual
     else if s = str ''<='' then Inr LessEqual
     else if s = str ''>='' then Inr GreaterEqual
     else if s = str ''<'' then Inr Less
     else if s = str ''>'' then Inr Greater
     else Inl Internal)"

definition build_value :: "pest_pair \<Rightarrow> parse_error + rule_value" where
  "build_value pair = (case into_inner pair of
      [] \<Rightarrow> Inl Internal
    | inner # _ \<Rightarrow>
        (case as_rule inner of
           R_auth_uid \<Rightarrow> Inr AuthUserId
         | R_self_col \<Rightarrow> res_bind (column_name_from_dotted inner (str ''self.'')) (\<lambda>name. Inr (RColumn SelfRow name))
         | R_row_col \<Rightarrow> res_bind (column_name_from_dotted inner (str ''row.'')) (\<lambda>name. Inr (RColumn Resource name))
         | R_integer \<Rightarrow> res_bind (ok_or InvalidInteger (parse_i64 (as_str inner))) (\<lambda>i. Inr (RInt i))
         | _ \<Rightarrow> Inl Internal))"

definition build_comparison :: "pest_pair \<Rightarrow> parse_error + access_rule" where
  "build_comparison pair =
    res_bind (next_required (into_inner pair)) (\<lambda>(lhs, inner).
    res_bind (build_value lhs) (\<lambda>left.
    res_bind (next_required inner) (\<lambda>(op_pair, inner).
    res_bind (build_cmp_op op_pair) (\<lambda>op.
    res_bind (next_required inner) (\<lambda>(rhs, inner).
    res_bind (build_value rhs) (\<lambda>right.
      Inr (Comparison left op right)))))))"

lemma next_required_size:
  "next_required ps = Inr (p, qs) \<Longrightarrow> size p < size_list size ps \<and> size_list size qs < size_list size ps"
  by (auto simp: next_required_def split: list.splits)

lemma size_into_inner: "size_list size (into_inner p) < size p"
  by (cases p) simp

lemma into_inner_less:
  "n < size_list size (into_inner p) \<Longrightarrow> n < size p"
  "n < m \<Longrightarrow> m < size_list size (into_inner p) \<Longrightarrow> n < size p"
  using size_into_inner [of p] by simp_all

function build_or :: "pest_pair \<Rightarrow> parse_error + assertion"
  and build_or_rest :: "assertion \<Rightarrow> pest_pair list \<Rightarrow> parse_error + assertion"
  and build_and :: "pest_pair \<Rightarrow> parse_error + assertion"
  and build_and_rest :: "assertion \<Rightarrow> pest_pair list \<Rightarrow> parse_error + assertion"
  and build_unary :: "pest_pair \<Rightarrow> parse_error + assertion"
  and build_primary :: "pest_pair \<Rightarrow> parse_error + assertion"
  and build_exists :: "pest_pair \<Rightarrow> parse_error + assertion"
where
  "build_or pair =
    res_bind (next_required (into_inner pair)) (\<lambda>(first, inner).
    res_bind (build_and first) (\<lambda>acc. build_or_rest acc inner))"
| "build_or_rest acc [] = Inr acc"
| "build_or_rest acc (p # inner) = res_bind (build_and p) (\<lambda>a. build_or_rest (AOr acc a) inner)"
| "build_and pair =
    res_bind (next_required (into_inner pair)) (\<lambda>(first, inner).
    res_bind (build_unary first) (\<lambda>acc. build_and_rest acc inner))"
| "build_and_rest acc [] = Inr acc"
| "build_and_rest acc (p # inner) = res_bind (build_unary p) (\<lambda>a. build_and_rest (AAnd acc a) inner)"
| "build_unary pair =
    res_bind (next_required (into_inner pair)) (\<lambda>(first, inner).
      (case as_rule first of
         R_not_op \<Rightarrow> res_bind (next_required inner) (\<lambda>(inner_unary, _).
            res_bind (build_unary inner_unary) (\<lambda>a. Inr (ANot a)))
       | R_primary \<Rightarrow> build_primary first
       | _ \<Rightarrow> Inl Internal))"
| "build_primary pair =
    res_bind (next_required (into_inner pair)) (\<lambda>(head, _).
      (case as_rule head of
         R_or \<Rightarrow> build_or head
       | R_exists_call \<Rightarrow> build_exists head
       | R_comparison \<Rightarrow> res_bind (build_comparison head) (\<lambda>r. Inr (ARule r))
       | _ \<Rightarrow> Inl Internal))"
| "build_exists pair =
    res_bind (next_required (into_inner pair)) (\<lambda>(table_pair, inner).
      if as_rule table_pair \<noteq> R_ident then Inl Internal
      else res_bind (next_required inner) (\<lambda>(predicate_pair, _).
        res_bind (build_or predicate_pair) (\<lambda>predicate.
        res_bind (map_err (\<lambda>_. NestedExists) (assertion_into_access_rule predicate)) (\<lambda>predicate.
          Inr (AExists (as_str table_pair) predicate)))))"
  by pat_completeness auto
termination
proof (relation "measure (\<lambda>x. case x of
      Inl (Inl p) \<Rightarrow> size p
    | Inl (Inr (Inl (acc, ps))) \<Rightarrow> size_list size ps
    | Inl (Inr (Inr p)) \<Rightarrow> size p
    | Inr (Inl (Inl (acc, ps))) \<Rightarrow> size_list size ps
    | Inr (Inl (Inr p)) \<Rightarrow> size p
    | Inr (Inr (Inl p)) \<Rightarrow> size p
    | Inr (Inr (Inr p)) \<Rightarrow> size p)")
qed (auto dest!: next_required_size simp: into_inner_less)

definition parse_assertion :: "(bytes \<Rightarrow> pest_pair list option) \<Rightarrow> bytes \<Rightarrow> parse_error + assertion" where
  "parse_assertion parse input =
    res_bind (ok_or PestError (parse input)) (\<lambda>pairs.
    res_bind (case pairs of [] \<Rightarrow> Inl EmptyInput | p # _ \<Rightarrow> Inr p) (\<lambda>predicate.
    res_bind (ok_or Internal (find (\<lambda>p. as_rule p = R_or) (into_inner predicate))) build_or))"

definition parse_access_rule :: "(bytes \<Rightarrow> pest_pair list option) \<Rightarrow> bytes \<Rightarrow> parse_error + access_rule" where
  "parse_access_rule parse input =
    res_bind (parse_assertion parse input) assertion_into_access_rule"

declare build_or.simps [simp del] build_and.simps [simp del] build_unary.simps [simp del]
  build_primary.simps [simp del] build_exists.simps [simp del]

section \<open>Which columns a rule looks at\<close>

lemma collect_resource_columns_append:
  "collect_resource_columns rule out = out @ collect_resource_columns rule []"
proof (induction rule arbitrary: out)
  case (RAnd r1 r2)
  show ?case
    unfolding collect_resource_columns.simps
    by (subst (1 2) RAnd.IH(2)) (subst (1) RAnd.IH(1), simp)
next
  case (ROr r1 r2)
  show ?case
    unfolding collect_resource_columns.simps
    by (subst (1 2) ROr.IH(2)) (subst (1) ROr.IH(1), simp)
next
  case (RNot r)
  show ?case
    unfolding collect_resource_columns.simps by (rule RNot.IH)
qed simp

lemma collect_resource_columns_binary [simp]:
  "set (collect_resource_columns (RAnd a b) []) =
    set (collect_resource_columns a []) \<union> set (collect_resource_columns b [])"
  "set (collect_resource_columns (ROr a b) []) =
    set (collect_resource_columns a []) \<union> set (collect_resource_columns b [])"
  unfolding collect_resource_columns.simps
  by (subst collect_resource_columns_append, simp)+

declare collect_resource_columns.simps(2,3) [simp del]

lemma resolve_value_local:
  assumes "\<forall>c \<in> set (resource_column_of v). json_get c r1 = json_get c r2"
  shows "resolve_value as_i64 v uid (Some r1) self_row = resolve_value as_i64 v uid (Some r2) self_row"
  using assms by (induction as_i64 v uid "Some r1" self_row rule: resolve_value.induct) simp_all

text \<open>C34: a rule only looks at the columns that \<open>collect_resource_columns\<close> lists.  Two rows that
  agree on those columns get the same verdict (or the same error), so the verifier may read just
  the listed columns from the authenticated tree and evaluate the rule on them.\<close>

theorem evaluate_reads_collected_columns:
  assumes "\<forall>c \<in> set (collect_resource_columns rule []). json_get c r1 = json_get c r2"
  shows "evaluate_with_self as_i64 rule uid (Some r1) self_row =
    evaluate_with_self as_i64 rule uid (Some r2) self_row"
  using assms
proof (induction rule)
  case (Comparison l op r)
  then have "resolve_value as_i64 l uid (Some r1) self_row = resolve_value as_i64 l uid (Some r2) self_row"
    and "resolve_value as_i64 r uid (Some r1) self_row = resolve_value as_i64 r uid (Some r2) self_row"
    by (auto intro: resolve_value_local)
  then show ?case
    by simp
qed (simp_all cong: if_cong)

theorem evaluate_reads_collected_columns_witness:
  "evaluate_with_self Some (Comparison (RColumn Resource (str ''owner'')) Equal AuthUserId) (Some 7)
      (Some (JObject [(str ''owner'', JNumber 7), (str ''n'', JNumber 1)])) None =
    evaluate_with_self Some (Comparison (RColumn Resource (str ''owner'')) Equal AuthUserId) (Some 7)
      (Some (JObject [(str ''owner'', JNumber 7), (str ''n'', JNumber 2)])) None"
  by (rule evaluate_reads_collected_columns) simp

section \<open>Verdicts\<close>

text \<open>The columns of the second namespace, and when a rule evaluates without an error.\<close>

fun uses_self :: "access_rule \<Rightarrow> bool" where
  "uses_self (Comparison l op r) = (\<exists>v \<in> set [l, r]. \<exists>c. v = RColumn SelfRow c)"
| "uses_self (RAnd a b) = (uses_self a \<or> uses_self b)"
| "uses_self (ROr a b) = (uses_self a \<or> uses_self b)"
| "uses_self (RNot a) = uses_self a"

text \<open>What the operators mean, over the integers that the stored words stand for, and the Boolean
  reading of a rule.\<close>

fun int_comparison :: "comparison_op \<Rightarrow> int \<Rightarrow> int \<Rightarrow> bool" where
  "int_comparison Equal x y \<longleftrightarrow> x = y"
| "int_comparison NotEqual x y \<longleftrightarrow> x \<noteq> y"
| "int_comparison Less x y \<longleftrightarrow> x < y"
| "int_comparison LessEqual x y \<longleftrightarrow> x \<le> y"
| "int_comparison Greater x y \<longleftrightarrow> x > y"
| "int_comparison GreaterEqual x y \<longleftrightarrow> x \<ge> y"

lemma compare_i64_int: "compare_i64 op l r \<longleftrightarrow> int_comparison op (sint l) (sint r)"
  by (cases op) (auto simp: word_sless_alt word_sle_eq signed_word_eqI)

definition operand_comparison :: "(rule_value \<Rightarrow> i64 option) \<Rightarrow> rule_value \<Rightarrow> comparison_op \<Rightarrow> rule_value \<Rightarrow> bool option" where
  "operand_comparison \<rho> l op r = Option.bind (\<rho> l) (\<lambda>x. map_option (\<lambda>y. int_comparison op (sint x) (sint y)) (\<rho> r))"

fun rule_denotes :: "(rule_value \<Rightarrow> i64 option) \<Rightarrow> access_rule \<Rightarrow> bool" where
  "rule_denotes \<rho> (Comparison l op r) = (operand_comparison \<rho> l op r = Some True)"
| "rule_denotes \<rho> (RAnd a b) = (rule_denotes \<rho> a \<and> rule_denotes \<rho> b)"
| "rule_denotes \<rho> (ROr a b) = (rule_denotes \<rho> a \<or> rule_denotes \<rho> b)"
| "rule_denotes \<rho> (RNot a) = (\<not> rule_denotes \<rho> a)"

definition row_values :: "('n \<Rightarrow> i64 option) \<Rightarrow> i64 option \<Rightarrow> 'n json \<Rightarrow> rule_value \<Rightarrow> i64 option" where
  "row_values as_i64 uid row v = (case v of RInt i \<Rightarrow> Some i | AuthUserId \<Rightarrow> uid
    | RColumn _ name \<Rightarrow> Option.bind (json_get name row) (json_as_i64 as_i64))"

lemma column_value_ok:
  assumes "\<forall>x. v = Some x \<longrightarrow> x = JNull \<or> json_as_i64 as_i64 x \<noteq> None"
  shows "column_value as_i64 v = Inr (Option.bind v (json_as_i64 as_i64))"
  using assms by (auto simp: column_value_def split: option.splits)

lemma evaluate_rule_denotes:
  assumes "\<not> uses_self rule"
    and "\<forall>c \<in> set (collect_resource_columns rule []). \<forall>x. json_get c row = Some x \<longrightarrow>
      x = JNull \<or> json_as_i64 as_i64 x \<noteq> None"
  shows "evaluate as_i64 rule uid (Some row) = Inr (rule_denotes (row_values as_i64 uid row) rule)"
  using assms unfolding evaluate_def
proof (induction rule)
  case (Comparison l op r)
  have "resolve_value as_i64 v uid (Some row) None = Inr (row_values as_i64 uid row v)"
    if "v = l \<or> v = r" for v
    using that Comparison
    by (induction as_i64 v uid "Some row" "None :: (bytes \<Rightarrow> 'a json option) option" rule: resolve_value.induct)
      (auto simp: row_values_def column_value_ok)
  then show ?case
    by (auto simp: operand_comparison_def compare_i64_int split: option.splits)
qed (simp_all add: ball_Un)

text \<open>C35: on a row whose listed columns are integers, \<open>null\<close> or absent, a rule without
  \<open>self\<close> references never fails, and its verdict is the Boolean reading of the rule in which a
  comparison holds when both operands are present and the operator relates the two integers that the
  stored words stand for.  The short-circuit evaluation therefore agrees with plain conjunction and
  disjunction, and the operators are the signed ones.\<close>

theorem evaluate_denotes:
  assumes "\<not> uses_self rule"
    and "\<forall>c \<in> set (collect_resource_columns rule []). \<forall>x. json_get c row = Some x \<longrightarrow>
      x = JNull \<or> json_as_i64 as_i64 x \<noteq> None"
  shows "evaluate as_i64 rule uid (Some row) = Inr (rule_denotes (row_values as_i64 uid row) rule)"
  using assms by (rule evaluate_rule_denotes)

theorem evaluate_denotes_witness:
  "evaluate Some (RNot (Comparison (RColumn Resource (str ''owner'')) Less (RInt 3))) None
      (Some (JObject [(str ''owner'', JNumber (- 2))])) = Inr False"
proof -
  let ?rule = "RNot (Comparison (RColumn Resource (str ''owner'')) Less (RInt 3))"
  have "evaluate Some ?rule None (Some (JObject [(str ''owner'', JNumber (- 2))])) =
      Inr (rule_denotes (row_values Some None (JObject [(str ''owner'', JNumber (- 2))])) ?rule)"
    by (rule evaluate_denotes) simp_all
  then show ?thesis
    by (simp add: operand_comparison_def row_values_def)
qed

text \<open>SQL evaluates a condition in three-valued logic: a comparison with \<open>NULL\<close> is unknown, and the
  connectives propagate it.\<close>

definition sql_and :: "bool option \<Rightarrow> bool option \<Rightarrow> bool option" where
  "sql_and a b = (if a = Some False \<or> b = Some False then Some False
    else if a = Some True \<and> b = Some True then Some True else None)"

definition sql_not :: "bool option \<Rightarrow> bool option" where
  "sql_not a = map_option Not a"

definition sql_or :: "bool option \<Rightarrow> bool option \<Rightarrow> bool option" where
  "sql_or a b = sql_not (sql_and (sql_not a) (sql_not b))"

fun sql_verdict :: "(rule_value \<Rightarrow> i64 option) \<Rightarrow> access_rule \<Rightarrow> bool option" where
  "sql_verdict \<rho> (Comparison l op r) = operand_comparison \<rho> l op r"
| "sql_verdict \<rho> (RAnd a b) = sql_and (sql_verdict \<rho> a) (sql_verdict \<rho> b)"
| "sql_verdict \<rho> (ROr a b) = sql_or (sql_verdict \<rho> a) (sql_verdict \<rho> b)"
| "sql_verdict \<rho> (RNot a) = sql_not (sql_verdict \<rho> a)"

fun negation_free :: "access_rule \<Rightarrow> bool" where
  "negation_free (Comparison l op r) = True"
| "negation_free (RAnd a b) = (negation_free a \<and> negation_free b)"
| "negation_free (ROr a b) = (negation_free a \<and> negation_free b)"
| "negation_free (RNot a) = False"

lemmas sql_logic = sql_and_def sql_or_def sql_not_def

lemma sql_logic_iff:
  "sql_and a b = Some v \<longleftrightarrow> (if v then a = Some True \<and> b = Some True else a = Some False \<or> b = Some False)"
  "sql_or a b = Some v \<longleftrightarrow> (if v then a = Some True \<or> b = Some True else a = Some False \<and> b = Some False)"
  "sql_not a = Some v \<longleftrightarrow> a = Some (\<not> v)"
  by (cases a; cases b; cases v; simp add: sql_logic; blast)+

lemma sql_verdict_known: "sql_verdict \<rho> rule = Some v \<Longrightarrow> rule_denotes \<rho> rule = v"
proof (induction rule arbitrary: v)
  case (RAnd a b)
  then show ?case
    by (cases v) (auto simp: sql_logic_iff)
next
  case (ROr a b)
  then show ?case
    by (cases v) (auto simp: sql_logic_iff)
next
  case (RNot a)
  then show ?case
    by (simp add: sql_logic_iff)
qed simp

lemma sql_verdict_allows: "negation_free rule \<Longrightarrow> rule_denotes \<rho> rule \<Longrightarrow> sql_verdict \<rho> rule = Some True"
  by (induction rule) (auto simp: sql_logic_iff)

text \<open>C36: where missing values are treated as SQL treats \<open>NULL\<close>.  Whenever SQL's three-valued logic gives
  a verdict on a rule, the evaluation gives the same one, negations included; and when SQL leaves the
  verdict of a rule without negation unknown, the evaluation denies, as SQL's \<open>WHERE\<close> does.\<close>

theorem evaluate_agrees_with_sql:
  assumes "\<not> uses_self rule"
    and "\<forall>c \<in> set (collect_resource_columns rule []). \<forall>x. json_get c row = Some x \<longrightarrow>
      x = JNull \<or> json_as_i64 as_i64 x \<noteq> None"
  shows "case sql_verdict (row_values as_i64 uid row) rule of
      Some b \<Rightarrow> evaluate as_i64 rule uid (Some row) = Inr b
    | None \<Rightarrow> negation_free rule \<longrightarrow> evaluate as_i64 rule uid (Some row) = Inr False"
  by (auto simp: evaluate_rule_denotes [OF assms] dest: sql_verdict_known sql_verdict_allows split: option.split)

theorem evaluate_agrees_with_sql_witness:
  "let rule = ROr (Comparison (RColumn Resource (str ''owner'')) Equal AuthUserId)
        (Comparison (RColumn Resource (str ''level'')) Greater (RInt 3));
      row = JObject [(str ''owner'', JNull), (str ''level'', JNumber (- 1))]
    in sql_verdict (row_values Some (Some 7) row) rule = None \<and> evaluate Some rule (Some 7) (Some row) = Inr False"
proof -
  let ?rule = "ROr (Comparison (RColumn Resource (str ''owner'')) Equal AuthUserId)
      (Comparison (RColumn Resource (str ''level'')) Greater (RInt 3))"
  let ?row = "JObject [(str ''owner'', JNull), (str ''level'', JNumber (- 1))]"
  have "sql_verdict (row_values Some (Some 7) ?row) ?rule = None"
    by (simp add: operand_comparison_def row_values_def sql_logic str_inject)
  moreover have "case sql_verdict (row_values Some (Some 7) ?row) ?rule of
      Some b \<Rightarrow> evaluate Some ?rule (Some 7) (Some ?row) = Inr b
    | None \<Rightarrow> negation_free ?rule \<longrightarrow> evaluate Some ?rule (Some 7) (Some ?row) = Inr False"
    by (rule evaluate_agrees_with_sql) (auto simp: str_inject)
  ultimately show ?thesis
    by simp
qed

text \<open>The agreement ends at negation: a comparison with a missing operand denies, but its negation
  allows, where SQL's verdict on both is unknown.  \<open>!(row.owner == 5)\<close> admits a row with no \<open>owner\<close>.\<close>

theorem missing_operand_negation_allows:
  assumes "json_get c row = None \<or> json_get c row = Some JNull"
  shows "evaluate as_i64 (Comparison (RColumn Resource c) op (RInt i)) uid (Some row) = Inr False"
    and "evaluate as_i64 (RNot (Comparison (RColumn Resource c) op (RInt i))) uid (Some row) = Inr True"
    and "sql_verdict (row_values as_i64 uid row) (RNot (Comparison (RColumn Resource c) op (RInt i))) = None"
  using assms by (auto simp: evaluate_def column_value_def operand_comparison_def row_values_def sql_logic)

section \<open>Parse trees of the grammar\<close>

text \<open>The shape of the trees of \<open>predicate.pest\<close>: what each rule of the grammar may have below it.\<close>

fun conforms :: "pest_pair \<Rightarrow> bool" where
  "conforms (Pair r s cs) = ((\<forall>c \<in> set cs. conforms c) \<and> (case r of
      R_predicate \<Rightarrow> map as_rule cs = [R_or, R_EOI]
    | R_or \<Rightarrow> cs \<noteq> [] \<and> (\<forall>c \<in> set cs. as_rule c = R_and)
    | R_and \<Rightarrow> cs \<noteq> [] \<and> (\<forall>c \<in> set cs. as_rule c = R_unary)
    | R_unary \<Rightarrow> map as_rule cs \<in> {[R_not_op, R_unary], [R_primary]}
    | R_primary \<Rightarrow> map as_rule cs \<in> {[R_or], [R_exists_call], [R_comparison]}
    | R_exists_call \<Rightarrow> map as_rule cs = [R_ident, R_or]
    | R_comparison \<Rightarrow> map as_rule cs = [R_value, R_cmp_op, R_value]
    | R_value \<Rightarrow> map as_rule cs \<in> {[R_auth_uid], [R_self_col], [R_row_col], [R_integer]}
    | R_self_col \<Rightarrow> prefix (str ''self.'') s
    | R_row_col \<Rightarrow> prefix (str ''row.'') s
    | R_cmp_op \<Rightarrow> s \<in> range comparison_op_str
    | _ \<Rightarrow> True))"

lemma map_err_Inl_iff: "map_err f r = Inl e \<longleftrightarrow> (\<exists>d. r = Inl d \<and> e = f d)"
  by (cases r) (auto simp: map_err_def)

lemma build_cmp_op_str [simp]: "build_cmp_op (Pair r (comparison_op_str op) cs) = Inr op"
  by (cases op) (simp_all add: build_cmp_op_def Let_def str_inject)

lemma conforms_cmp_op:
  assumes "conforms p" and "as_rule p = R_cmp_op"
  shows "\<exists>op. build_cmp_op p = Inr op"
  using assms by (cases p) auto

lemma conforms_value:
  assumes "conforms p" and "as_rule p = R_value" and "build_value p = Inl e"
  shows "e = InvalidInteger"
proof (cases p)
  case (Pair r s cs)
  then obtain c where cs: "cs = [c]" and c: "conforms c"
      and "as_rule c \<in> {R_auth_uid, R_self_col, R_row_col, R_integer}"
    using assms(1,2) by (cases cs) (auto simp: map_eq_Cons_conv)
  then show ?thesis
    using assms(3) Pair
    by (cases c) (auto simp: build_value_def column_name_from_dotted_def ok_or_def split: option.splits)
qed

lemma conforms_comparison:
  assumes "conforms p" and "as_rule p = R_comparison" and "build_comparison p = Inl e"
  shows "e = InvalidInteger"
proof (cases p)
  case (Pair r s cs)
  then obtain l op v where cs: "cs = [l, op, v]" and ok: "conforms l" "conforms op" "conforms v"
      and rules: "as_rule l = R_value" "as_rule op = R_cmp_op" "as_rule v = R_value"
    using assms(1,2) by (auto simp: map_eq_Cons_conv)
  obtain op' where "build_cmp_op op = Inr op'"
    using conforms_cmp_op ok(2) rules(2) by blast
  then show ?thesis
    using assms(3) Pair cs conforms_value [OF ok(1) rules(1)] conforms_value [OF ok(3) rules(3)]
    by (auto simp: build_comparison_def next_required_def res_bind_Inl_iff)
qed

lemma conforms_build:
  "conforms p \<Longrightarrow> as_rule p = R_or \<Longrightarrow> build_or p = Inl e \<Longrightarrow> e \<in> {NestedExists, InvalidInteger}"
  "\<forall>c \<in> set ps. conforms c \<and> as_rule c = R_and \<Longrightarrow> build_or_rest acc ps = Inl e \<Longrightarrow>
    e \<in> {NestedExists, InvalidInteger}"
  "conforms p \<Longrightarrow> as_rule p = R_and \<Longrightarrow> build_and p = Inl e \<Longrightarrow> e \<in> {NestedExists, InvalidInteger}"
  "\<forall>c \<in> set ps. conforms c \<and> as_rule c = R_unary \<Longrightarrow> build_and_rest acc ps = Inl e \<Longrightarrow>
    e \<in> {NestedExists, InvalidInteger}"
  "conforms p \<Longrightarrow> as_rule p = R_unary \<Longrightarrow> build_unary p = Inl e \<Longrightarrow> e \<in> {NestedExists, InvalidInteger}"
  "conforms p \<Longrightarrow> as_rule p = R_primary \<Longrightarrow> build_primary p = Inl e \<Longrightarrow> e \<in> {NestedExists, InvalidInteger}"
  "conforms p \<Longrightarrow> as_rule p = R_exists_call \<Longrightarrow> build_exists p = Inl e \<Longrightarrow> e \<in> {NestedExists, InvalidInteger}"
proof (induction p and acc ps and p and acc ps and p and p and p
    rule: build_or_build_or_rest_build_and_build_and_rest_build_unary_build_primary_build_exists.induct)
  case (1 pair)
  from "1.IH" "1.prems"(1,2) "1.prems"(3) [unfolded build_or.simps [of pair]] show ?case
    by (cases pair; cases "into_inner pair")
      (auto simp: next_required_def res_bind_Inl_iff)
next
  case (3 acc p inner)
  then show ?case
    by (auto simp: res_bind_Inl_iff)
next
  case (4 pair)
  from "4.IH" "4.prems"(1,2) "4.prems"(3) [unfolded build_and.simps [of pair]] show ?case
    by (cases pair; cases "into_inner pair")
      (auto simp: next_required_def res_bind_Inl_iff)
next
  case (6 acc p inner)
  then show ?case
    by (auto simp: res_bind_Inl_iff)
next
  case (7 pair)
  from "7.IH" "7.prems"(1,2) "7.prems"(3) [unfolded build_unary.simps [of pair]] show ?case
    by (cases pair)
      (auto simp: next_required_def res_bind_Inl_iff map_eq_Cons_conv)
next
  case (8 pair)
  from "8.IH" "8.prems"(1,2) "8.prems"(3) [unfolded build_primary.simps [of pair]] show ?case
    by (cases pair)
      (auto simp: next_required_def res_bind_Inl_iff map_eq_Cons_conv
        dest: conforms_comparison)
next
  case (9 pair)
  from "9.IH" "9.prems"(1,2) "9.prems"(3) [unfolded build_exists.simps [of pair]] show ?case
    by (cases pair)
      (auto simp: next_required_def res_bind_Inl_iff map_eq_Cons_conv
        map_err_Inl_iff)
qed simp_all

lemma conforms_predicate:
  assumes "conforms p" and "as_rule p = R_predicate"
  obtains s a b where "p = Pair R_predicate s [a, b]" and "as_rule a = R_or" and "conforms a"
  using assms by (cases p) (auto simp: map_eq_Cons_conv)

text \<open>C37: for a parser that returns trees of the grammar, \<open>parse_assertion\<close> never reports one of its
  internal errors: it fails only when the text does not match the grammar, an integer literal does
  not fit 64 bits, or an \<open>exists\<close> is nested in another.\<close>

theorem parse_assertion_errors:
  assumes grammar: "\<And>input pairs. parse input = Some pairs \<Longrightarrow>
      \<exists>p. pairs = [p] \<and> as_rule p = R_predicate \<and> conforms p"
    and "parse_assertion parse input = Inl e"
  shows "e = PestError \<and> parse input = None \<or> e = NestedExists \<or> e = InvalidInteger"
proof (cases "parse input")
  case None
  then show ?thesis
    using assms(2) by (simp add: parse_assertion_def ok_or_def)
next
  case (Some pairs)
  then obtain s a b where "pairs = [Pair R_predicate s [a, b]]" and "as_rule a = R_or" and "conforms a"
    using grammar [OF Some] by (auto elim: conforms_predicate)
  then show ?thesis
    using assms(2) Some conforms_build(1) [of a e] by (simp add: parse_assertion_def ok_or_def)
qed

definition nested_tree :: "pest_pair" where
  "nested_tree = (let
     tower = (\<lambda>p. Pair R_or [] [Pair R_and [] [Pair R_unary [] [Pair R_primary [] [p]]]]);
     uid = Pair R_value [] [Pair R_auth_uid [] []]
   in Pair R_predicate []
       [tower (Pair R_exists_call [] [Pair R_ident (str ''a'') [],
          tower (Pair R_exists_call [] [Pair R_ident (str ''b'') [],
            tower (Pair R_comparison [] [uid, Pair R_cmp_op (str ''=='') [], uid])])]),
        Pair R_EOI [] []])"

lemma nested_tree_conforms: "as_rule nested_tree = R_predicate \<and> conforms nested_tree"
  using rangeI [of comparison_op_str Equal] by (simp add: nested_tree_def Let_def)

lemma nested_tree_error: "parse_assertion (\<lambda>_. Some [nested_tree]) [] = Inl NestedExists"
  by (simp add: parse_assertion_def nested_tree_def Let_def ok_or_def next_required_def build_or.simps
    build_and.simps build_unary.simps build_primary.simps build_exists.simps build_comparison_def
    build_value_def build_cmp_op_def)

theorem parse_assertion_errors_witness:
  "parse_assertion (\<lambda>_. Some [nested_tree]) [] = Inl NestedExists \<and>
    (NestedExists = PestError \<and> (\<lambda>_. Some [nested_tree]) ([] :: bytes) = None \<or>
     NestedExists = NestedExists \<or> NestedExists = InvalidInteger)"
  by (rule conjI [OF nested_tree_error parse_assertion_errors [OF _ nested_tree_error]])
    (simp add: nested_tree_conforms)

end
