(* ===== verification/Pruned_Tree.thy ===== *)
theory Pruned_Tree
  imports Mmr_Tree
begin

text \<open>
  Reads and writes on authenticated key-value trees, and the pruned trees a prover sends to a
  verifier: \<open>ffproof/tracer/shared/src/lib.rs\<close> and \<open>trace_verify.rs\<close>.

  The tree library merk is not part of the sources.  Its \<open>Node\<close> and \<open>Child\<close> are the values the
  code builds (\<open>Node::from_fields\<close>, \<open>Child::pruned\<close>) and inspects (\<open>key\<close>, \<open>value\<close>,
  \<open>kv_hash\<close>, \<open>child_ref\<close>); its \<open>kv_hash\<close>, its root hash and the walker that applies a batch are
  parameters.  A panic is \<^const>\<open>None\<close>.

  The main result is that a read answered from a pruned tree with the right root hash is answered
  as the committed tree would answer it, for single keys, prefixes and ranges.  The rest of the
  theory shows that a batch keeps the last write of each key, and that the compact witness format
  decodes to the tree it was made from.
\<close>

section \<open>Nodes\<close>

datatype merk_node =
    Node (nkey: bytes) (nvalue: bytes) (nkv_hash: digest) (nleft: "merk_child option") (nright: "merk_child option")
and merk_child = Resident merk_node | PrunedChild bytes digest "u8 \<times> u8"

datatype get_result = Found bytes | NotFound | HitPruned

section \<open>Batches\<close>

datatype merk_op = OpPut bytes | OpDelete

datatype batch_op = BPut bytes bytes | BDelete bytes

fun batch_op_key :: "batch_op \<Rightarrow> bytes" where
  "batch_op_key (BPut k v) = k"
| "batch_op_key (BDelete k) = k"

fun to_merk_op :: "batch_op \<Rightarrow> merk_op" where
  "to_merk_op (BPut k v) = OpPut v"
| "to_merk_op (BDelete k) = OpDelete"

text \<open>\<open>BTreeMap::insert\<close> on the sorted list of entries.\<close>

fun btree_insert :: "'k :: linorder \<Rightarrow> 'v \<Rightarrow> ('k \<times> 'v) list \<Rightarrow> ('k \<times> 'v) list" where
  "btree_insert k v [] = [(k, v)]"
| "btree_insert k v ((k', v') # m) =
    (if k < k' then (k, v) # (k', v') # m
     else if k = k' then (k, v) # m
     else (k', v') # btree_insert k v m)"

definition dedup_batch :: "batch_op list \<Rightarrow> (bytes \<times> merk_op) list" where
  "dedup_batch ops =
    map (\<lambda>(k, op). (k, to_merk_op op)) (fold (\<lambda>op m. btree_insert (batch_op_key op) op m) ops [])"

text \<open>The walker that applies a sorted batch is \<open>apply\<close>; the outer option is a panic, the inner one
  the empty tree.\<close>

definition apply_batch ::
  "(merk_node option \<Rightarrow> (bytes \<times> merk_op) list \<Rightarrow> merk_node option option) \<Rightarrow> merk_node option \<Rightarrow>
    batch_op list \<Rightarrow> merk_node option option"
where
  "apply_batch apply tree ops =
    (let batch = dedup_batch ops in if batch = [] then Some tree else apply tree batch)"

section \<open>Reads\<close>

datatype read_op = ReadKey bytes | ReadPrefix bytes | ReadRange bytes bytes

record proven_read =
  pr_op :: read_op
  pr_results :: "(bytes \<times> bytes) list"

datatype trace_step = TRead "proven_read list" | TWrite "batch_op list"

fun prefix_successor_rev :: "bytes \<Rightarrow> bytes option" where
  "prefix_successor_rev [] = None"
| "prefix_successor_rev (b # front) =
    (if b < 0xFF then Some (rev front @ [b + 1]) else prefix_successor_rev front)"

definition prefix_successor :: "bytes \<Rightarrow> bytes option" where
  "prefix_successor p = prefix_successor_rev (rev p)"

definition before_end :: "bytes \<Rightarrow> bytes option \<Rightarrow> bool" where
  "before_end key end_key = (case end_key of None \<Rightarrow> True | Some e \<Rightarrow> key < e)"

fun collect_range_recursive ::
  "(bytes \<Rightarrow> bytes \<Rightarrow> digest option) \<Rightarrow> merk_node \<Rightarrow> bytes \<Rightarrow> bytes option \<Rightarrow> (bytes \<times> bytes) list \<Rightarrow>
    (bytes \<times> bytes) list option"
and collect_range_child ::
  "(bytes \<Rightarrow> bytes \<Rightarrow> digest option) \<Rightarrow> merk_child option \<Rightarrow> bytes \<Rightarrow> bytes option \<Rightarrow> (bytes \<times> bytes) list \<Rightarrow>
    (bytes \<times> bytes) list option"
where
  "collect_range_recursive kv_hash (Node key value stored_kv l r) start end_key results =
    Option.bind (if start < key then collect_range_child kv_hash l start end_key results else Some results) (\<lambda>results.
    Option.bind (if start \<le> key \<and> before_end key end_key
      then Option.bind (kv_hash key value) (\<lambda>expected_kv.
        if expected_kv \<noteq> stored_kv then None else Some (results @ [(key, value)]))
      else Some results) (\<lambda>results.
    if before_end key end_key then collect_range_child kv_hash r start end_key results else Some results))"
| "collect_range_child kv_hash None start end_key results = Some results"
| "collect_range_child kv_hash (Some (Resident child)) start end_key results =
    collect_range_recursive kv_hash child start end_key results"
| "collect_range_child kv_hash (Some (PrunedChild k h hs)) start end_key results = None"

definition collect_range ::
  "(bytes \<Rightarrow> bytes \<Rightarrow> digest option) \<Rightarrow> merk_node \<Rightarrow> bytes \<Rightarrow> bytes option \<Rightarrow> (bytes \<times> bytes) list option"
where
  "collect_range kv_hash tree start end_key = collect_range_recursive kv_hash tree start end_key []"

fun lookup_value_verified :: "(bytes \<Rightarrow> bytes \<Rightarrow> digest option) \<Rightarrow> merk_node \<Rightarrow> bytes \<Rightarrow> get_result option"
  and lookup_child :: "(bytes \<Rightarrow> bytes \<Rightarrow> digest option) \<Rightarrow> merk_child option \<Rightarrow> bytes \<Rightarrow> get_result option"
where
  "lookup_value_verified kv_hash (Node nk value stored_kv l r) key =
    (if key = nk then
       Option.bind (kv_hash key value) (\<lambda>expected_kv.
         if expected_kv \<noteq> stored_kv then None else Some (Found value))
     else if key < nk then lookup_child kv_hash l key
     else lookup_child kv_hash r key)"
| "lookup_child kv_hash None key = Some NotFound"
| "lookup_child kv_hash (Some (Resident child)) key = lookup_value_verified kv_hash child key"
| "lookup_child kv_hash (Some (PrunedChild k h hs)) key = Some HitPruned"

fun extract_read :: "(bytes \<Rightarrow> bytes \<Rightarrow> digest option) \<Rightarrow> merk_node \<Rightarrow> read_op \<Rightarrow> (bytes \<times> bytes) list option" where
  "extract_read kv_hash tree (ReadKey key) =
    Option.bind (lookup_value_verified kv_hash tree key) (\<lambda>r. case r of
        Found value \<Rightarrow> Some [(key, value)]
      | NotFound \<Rightarrow> Some []
      | HitPruned \<Rightarrow> None)"
| "extract_read kv_hash tree (ReadPrefix p) = collect_range kv_hash tree p (prefix_successor p)"
| "extract_read kv_hash tree (ReadRange start end_key) = collect_range kv_hash tree start (Some end_key)"

fun extract_reads ::
  "(bytes \<Rightarrow> bytes \<Rightarrow> digest option) \<Rightarrow> merk_node \<Rightarrow> proven_read list \<Rightarrow> proven_read list option"
where
  "extract_reads kv_hash tree [] = Some []"
| "extract_reads kv_hash tree (r # reads) =
    Option.bind (extract_read kv_hash tree (pr_op r)) (\<lambda>results.
    Option.bind (extract_reads kv_hash tree reads) (\<lambda>rest.
      Some (\<lparr>pr_op = pr_op r, pr_results = results\<rparr> # rest)))"

section \<open>Pruned trees\<close>

datatype pruned_merkle_tree =
    PEmpty
  | PPruned bytes digest "u8 \<times> u8"
  | PFull bytes bytes pruned_merkle_tree pruned_merkle_tree

record pruned_stats =
  full_nodes :: nat
  pruned_nodes :: nat
  empty_slots :: nat
  full_key_bytes :: nat
  full_value_bytes :: nat
  pruned_key_bytes :: nat
  max_depth :: nat

definition default_stats :: pruned_stats where
  "default_stats = \<lparr>full_nodes = 0, pruned_nodes = 0, empty_slots = 0, full_key_bytes = 0,
    full_value_bytes = 0, pruned_key_bytes = 0, max_depth = 0\<rparr>"

fun accumulate_stats :: "pruned_merkle_tree \<Rightarrow> nat \<Rightarrow> pruned_stats \<Rightarrow> pruned_stats" where
  "accumulate_stats PEmpty depth s = s\<lparr>empty_slots := empty_slots s + 1\<rparr>"
| "accumulate_stats (PPruned key h hs) depth s =
    s\<lparr>pruned_nodes := pruned_nodes s + 1, pruned_key_bytes := pruned_key_bytes s + length key,
      max_depth := max (max_depth s) depth\<rparr>"
| "accumulate_stats (PFull key value l r) depth s =
    accumulate_stats r (depth + 1) (accumulate_stats l (depth + 1)
      (s\<lparr>full_nodes := full_nodes s + 1, full_key_bytes := full_key_bytes s + length key,
         full_value_bytes := full_value_bytes s + length value, max_depth := max (max_depth s) depth\<rparr>))"

definition stats :: "pruned_merkle_tree \<Rightarrow> pruned_stats" where
  "stats t = accumulate_stats t 1 default_stats"

fun count_full :: "pruned_merkle_tree \<Rightarrow> nat" where
  "count_full (PFull k v l r) = 1 + count_full l + count_full r"
| "count_full _ = 0"

fun count_pruned :: "pruned_merkle_tree \<Rightarrow> nat" where
  "count_pruned PEmpty = 0"
| "count_pruned (PPruned k h hs) = 1"
| "count_pruned (PFull k v l r) = count_pruned l + count_pruned r"

fun pruned_to_child :: "(bytes \<Rightarrow> bytes \<Rightarrow> digest option) \<Rightarrow> pruned_merkle_tree \<Rightarrow> merk_child option option" where
  "pruned_to_child kv_hash PEmpty = Some None"
| "pruned_to_child kv_hash (PPruned key h hs) = Some (Some (PrunedChild key h hs))"
| "pruned_to_child kv_hash (PFull key value l r) =
    Option.bind (pruned_to_child kv_hash l) (\<lambda>left_child.
    Option.bind (pruned_to_child kv_hash r) (\<lambda>right_child.
    Option.bind (kv_hash key value) (\<lambda>kvh.
      Some (Some (Resident (Node key value kvh left_child right_child))))))"

fun pruned_to_merk :: "(bytes \<Rightarrow> bytes \<Rightarrow> digest option) \<Rightarrow> pruned_merkle_tree \<Rightarrow> merk_node option option" where
  "pruned_to_merk kv_hash PEmpty = Some None"
| "pruned_to_merk kv_hash (PPruned key h hs) = None"
| "pruned_to_merk kv_hash (PFull key value l r) =
    Option.bind (pruned_to_child kv_hash l) (\<lambda>left_child.
    Option.bind (pruned_to_child kv_hash r) (\<lambda>right_child.
    Option.bind (kv_hash key value) (\<lambda>kvh.
      Some (Some (Node key value kvh left_child right_child)))))"

section \<open>Verification of a trace\<close>

record tracer_proof =
  tp_pruned_tree :: pruned_merkle_tree
  tp_steps :: "trace_step list"
  tp_expected_start_root :: digest
  tp_expected_end_root :: digest

text \<open>The loop over the steps; \<open>commit\<close> followed by \<open>hash\<close> is the parameter \<open>root_hash\<close>.\<close>

fun process_steps ::
  "(bytes \<Rightarrow> bytes \<Rightarrow> digest option) \<Rightarrow> (merk_node option \<Rightarrow> (bytes \<times> merk_op) list \<Rightarrow> merk_node option option) \<Rightarrow>
    trace_step list \<Rightarrow> merk_node option \<Rightarrow> proven_read list list \<Rightarrow> (merk_node option \<times> proven_read list list) option"
where
  "process_steps kv_hash apply [] tree results = Some (tree, results)"
| "process_steps kv_hash apply (TRead reads # steps) tree results =
    (case tree of
       None \<Rightarrow> None
     | Some t \<Rightarrow> Option.bind (extract_reads kv_hash t reads) (\<lambda>rs.
         process_steps kv_hash apply steps tree (results @ [rs])))"
| "process_steps kv_hash apply (TWrite ops # steps) tree results =
    Option.bind (apply_batch apply tree ops) (\<lambda>tree'. process_steps kv_hash apply steps tree' results)"

definition end_root :: "(merk_node \<Rightarrow> digest) \<Rightarrow> merk_node option \<Rightarrow> digest" where
  "end_root root_hash tree = (case tree of Some t \<Rightarrow> root_hash t | None \<Rightarrow> 0)"

definition verify_trace_internal ::
  "(bytes \<Rightarrow> bytes \<Rightarrow> digest option) \<Rightarrow> (merk_node \<Rightarrow> digest) \<Rightarrow>
    (merk_node option \<Rightarrow> (bytes \<times> merk_op) list \<Rightarrow> merk_node option option) \<Rightarrow> tracer_proof \<Rightarrow>
    proven_read list list option"
where
  "verify_trace_internal kv_hash root_hash apply trace =
    Option.bind (pruned_to_merk kv_hash (tp_pruned_tree trace)) (\<lambda>maybe_tree.
    Option.bind maybe_tree (\<lambda>tree.
    if root_hash tree \<noteq> tp_expected_start_root trace then None
    else Option.bind (process_steps kv_hash apply (tp_steps trace) (Some tree) []) (\<lambda>(tree', results).
      if end_root root_hash tree' \<noteq> tp_expected_end_root trace then None
      else Some results)))"

datatype verify_trace_error = VerifyTraceError

definition verify_trace ::
  "(bytes \<Rightarrow> bytes \<Rightarrow> digest option) \<Rightarrow> (merk_node \<Rightarrow> digest) \<Rightarrow>
    (merk_node option \<Rightarrow> (bytes \<times> merk_op) list \<Rightarrow> merk_node option option) \<Rightarrow> tracer_proof \<Rightarrow>
    verify_trace_error + proven_read list list"
where
  "verify_trace kv_hash root_hash apply trace =
    ok_or VerifyTraceError (verify_trace_internal kv_hash root_hash apply trace)"

section \<open>The compact witness\<close>

definition PRUNED_WITNESS_EMPTY :: u8 where "PRUNED_WITNESS_EMPTY = 0"
definition PRUNED_WITNESS_PRUNED :: u8 where "PRUNED_WITNESS_PRUNED = 1"
definition PRUNED_WITNESS_FULL :: u8 where "PRUNED_WITNESS_FULL = 2"

lemmas witness_tags = PRUNED_WITNESS_EMPTY_def PRUNED_WITNESS_PRUNED_def PRUNED_WITNESS_FULL_def

datatype witness_error =
    UnexpectedEof
  | TrailingBytes nat nat
  | InvalidTag u8
  | LengthOverflow
  | RootPruned
  | KvHashFailed

definition u32_to_le_bytes :: "u32 \<Rightarrow> bytes" where
  "u32_to_le_bytes w = rev (u32_to_be_bytes w)"

definition u32_from_le_bytes :: "bytes \<Rightarrow> u32" where
  "u32_from_le_bytes bs = u32_from_be_bytes (rev bs)"

definition digest_from_bytes :: "bytes \<Rightarrow> digest" where
  "digest_from_bytes bs = of_nat (be_nat bs)"

definition write_compact_bytes :: "bytes \<Rightarrow> bytes option" where
  "write_compact_bytes bs =
    (if length bs < 2 ^ 32 then Some (u32_to_le_bytes (of_nat (length bs)) @ bs) else None)"

fun encode_pruned_compact :: "pruned_merkle_tree \<Rightarrow> bytes option" where
  "encode_pruned_compact PEmpty = Some [PRUNED_WITNESS_EMPTY]"
| "encode_pruned_compact (PPruned key h hs) =
    Option.bind (write_compact_bytes key) (\<lambda>k.
      Some (PRUNED_WITNESS_PRUNED # k @ digest_bytes h @ [fst hs, snd hs]))"
| "encode_pruned_compact (PFull key value l r) =
    Option.bind (write_compact_bytes key) (\<lambda>k.
    Option.bind (write_compact_bytes value) (\<lambda>v.
    Option.bind (encode_pruned_compact l) (\<lambda>el.
    Option.bind (encode_pruned_compact r) (\<lambda>er.
      Some (PRUNED_WITNESS_FULL # k @ v @ el @ er)))))"

text \<open>The decoder's \<open>bytes\<close> and \<open>pos\<close>; \<open>usize_max\<close> is the largest \<open>usize\<close> of the target (the guest
  is a 32-bit machine, the host a 64-bit one).\<close>

definition read_exact :: "nat \<Rightarrow> bytes \<Rightarrow> nat \<Rightarrow> nat \<Rightarrow> witness_error + bytes \<times> nat" where
  "read_exact usize_max bs pos len =
    (if usize_max < pos + len then Inl LengthOverflow
     else if length bs < pos + len then Inl UnexpectedEof
     else Inr (take len (drop pos bs), pos + len))"

definition read_u8 :: "bytes \<Rightarrow> nat \<Rightarrow> witness_error + u8 \<times> nat" where
  "read_u8 bs pos = (if pos < length bs then Inr (bs ! pos, pos + 1) else Inl UnexpectedEof)"

definition read_u32_le :: "nat \<Rightarrow> bytes \<Rightarrow> nat \<Rightarrow> witness_error + u32 \<times> nat" where
  "read_u32_le usize_max bs pos =
    res_bind (read_exact usize_max bs pos 4) (\<lambda>(raw, pos). Inr (u32_from_le_bytes raw, pos))"

definition read_vec :: "nat \<Rightarrow> bytes \<Rightarrow> nat \<Rightarrow> witness_error + bytes \<times> nat" where
  "read_vec usize_max bs pos =
    res_bind (read_u32_le usize_max bs pos) (\<lambda>(len, pos). read_exact usize_max bs pos (unat len))"

definition read_hash :: "nat \<Rightarrow> bytes \<Rightarrow> nat \<Rightarrow> witness_error + digest \<times> nat" where
  "read_hash usize_max bs pos =
    res_bind (read_exact usize_max bs pos 32) (\<lambda>(raw, pos). Inr (digest_from_bytes raw, pos))"

definition decode_pruned_child :: "nat \<Rightarrow> bytes \<Rightarrow> nat \<Rightarrow> witness_error + merk_child \<times> nat" where
  "decode_pruned_child usize_max bs pos =
    res_bind (read_vec usize_max bs pos) (\<lambda>(key, pos).
    res_bind (read_hash usize_max bs pos) (\<lambda>(h, pos).
    res_bind (read_u8 bs pos) (\<lambda>(left_height, pos).
    res_bind (read_u8 bs pos) (\<lambda>(right_height, pos).
      Inr (PrunedChild key h (left_height, right_height), pos)))))"

lemma read_progress:
  "read_u8 bs pos = Inr (b, pos') \<Longrightarrow> pos < pos' \<and> pos' \<le> length bs"
  "read_vec m bs pos = Inr (v, pos') \<Longrightarrow> pos < pos' \<and> pos' \<le> length bs"
  "read_hash m bs pos = Inr (h, pos') \<Longrightarrow> pos < pos' \<and> pos' \<le> length bs"
  by (auto simp: read_u8_def read_vec_def read_u32_le_def read_hash_def read_exact_def res_bind_Inr_iff
    split: if_splits)

lemma decode_pruned_child_progress:
  "decode_pruned_child m bs pos = Inr (c, pos') \<Longrightarrow> pos < pos' \<and> pos' \<le> length bs"
  by (auto simp: decode_pruned_child_def res_bind_Inr_iff dest!: read_progress)

function decode_child ::
  "(bytes \<Rightarrow> bytes \<Rightarrow> digest option) \<Rightarrow> nat \<Rightarrow> bytes \<Rightarrow> nat \<Rightarrow> witness_error + merk_child option \<times> nat"
and decode_full_node ::
  "(bytes \<Rightarrow> bytes \<Rightarrow> digest option) \<Rightarrow> nat \<Rightarrow> bytes \<Rightarrow> nat \<Rightarrow> witness_error + merk_node \<times> nat"
where
  "decode_child kv_hash usize_max bs pos =
    res_bind (read_u8 bs pos) (\<lambda>(tag, pos).
      if tag = PRUNED_WITNESS_EMPTY then Inr (None, pos)
      else if tag = PRUNED_WITNESS_PRUNED then
        res_bind (decode_pruned_child usize_max bs pos) (\<lambda>(c, pos). Inr (Some c, pos))
      else if tag = PRUNED_WITNESS_FULL then
        res_bind (decode_full_node kv_hash usize_max bs pos) (\<lambda>(n, pos). Inr (Some (Resident n), pos))
      else Inl (InvalidTag tag))"
| "decode_full_node kv_hash usize_max bs pos =
    res_bind (read_vec usize_max bs pos) (\<lambda>(key, pos).
    res_bind (read_vec usize_max bs pos) (\<lambda>(value, pos).
    res_bind (decode_child kv_hash usize_max bs pos) (\<lambda>(l, pos).
    res_bind (decode_child kv_hash usize_max bs pos) (\<lambda>(r, pos).
    res_bind (ok_or KvHashFailed (kv_hash key value)) (\<lambda>kvh.
      Inr (Node key value kvh l r, pos))))))"
  by pat_completeness auto

termination
proof -
  have progress:
    "decode_child_decode_full_node_dom (Inl (kv_hash, m, bs, pos)) \<Longrightarrow>
      decode_child kv_hash m bs pos = Inr (c, pos') \<Longrightarrow> pos < pos' \<and> pos' \<le> length bs"
    "decode_child_decode_full_node_dom (Inr (kv_hash, m, bs, pos)) \<Longrightarrow>
      decode_full_node kv_hash m bs pos = Inr (n, pos') \<Longrightarrow> pos < pos' \<and> pos' \<le> length bs"
    for kv_hash m bs pos c n pos'
  proof (induction kv_hash m bs pos and kv_hash m bs pos arbitrary: c pos' and n pos'
      rule: decode_child_decode_full_node.pinduct)
    case (1 kv_hash m bs pos)
    from "1.prems" [unfolded decode_child.psimps [OF "1.hyps"]]
    obtain tag q where tag: "read_u8 bs pos = Inr (tag, q)"
      by (auto simp: res_bind_Inr_iff)
    from "1.IH" "1.prems" [unfolded decode_child.psimps [OF "1.hyps"]] show ?case
      using tag read_progress(1) [OF tag]
      by (fastforce simp: res_bind_Inr_iff split: if_splits dest!: decode_pruned_child_progress)
  next
    case (2 kv_hash m bs pos)
    from "2.prems" [unfolded decode_full_node.psimps [OF "2.hyps"]]
    obtain k p1 v p2 l p3 r where k: "read_vec m bs pos = Inr (k, p1)" and v: "read_vec m bs p1 = Inr (v, p2)"
        and l: "decode_child kv_hash m bs p2 = Inr (l, p3)" and r: "decode_child kv_hash m bs p3 = Inr (r, pos')"
      by (auto simp: res_bind_Inr_iff)
    show ?case
      using read_progress(2) [OF k] read_progress(2) [OF v] "2.IH"(1) [OF k refl v refl l]
        "2.IH"(2) [OF k refl v refl l refl r] by simp
  qed
  show ?thesis
    by (relation "measure (\<lambda>x. case x of
        Inl (kv_hash, m, bs, pos) \<Rightarrow> 2 * (length bs - pos) + 1
      | Inr (kv_hash, m, bs, pos) \<Rightarrow> 2 * (length bs - pos))")
      (auto dest!: read_progress progress)
qed

declare decode_child.simps [simp del] decode_full_node.simps [simp del]

definition decode_root ::
  "(bytes \<Rightarrow> bytes \<Rightarrow> digest option) \<Rightarrow> nat \<Rightarrow> bytes \<Rightarrow> nat \<Rightarrow> witness_error + merk_node option \<times> nat"
where
  "decode_root kv_hash usize_max bs pos =
    res_bind (read_u8 bs pos) (\<lambda>(tag, pos).
      if tag = PRUNED_WITNESS_EMPTY then Inr (None, pos)
      else if tag = PRUNED_WITNESS_PRUNED then Inl RootPruned
      else if tag = PRUNED_WITNESS_FULL then
        res_bind (decode_full_node kv_hash usize_max bs pos) (\<lambda>(n, pos). Inr (Some n, pos))
      else Inl (InvalidTag tag))"

definition decode_pruned_compact_to_merk ::
  "(bytes \<Rightarrow> bytes \<Rightarrow> digest option) \<Rightarrow> nat \<Rightarrow> bytes \<Rightarrow> witness_error + merk_node option"
where
  "decode_pruned_compact_to_merk kv_hash usize_max bs =
    res_bind (decode_root kv_hash usize_max bs 0) (\<lambda>(root, pos).
      if pos \<noteq> length bs then Inl (TrailingBytes pos (length bs)) else Inr root)"

section \<open>Prefix scans\<close>

lemma prefix_successor_snoc:
  "prefix_successor (p @ [b]) = (if b < 0xFF then Some (p @ [b + 1]) else prefix_successor p)"
  by (simp add: prefix_successor_def)

lemma prefix_successor_Nil [simp]: "prefix_successor [] = None"
  by (simp add: prefix_successor_def)

lemma u8_le_max: "(b :: u8) \<le> 0xFF"
proof -
  have "unat (0xFF :: u8) = 255" by simp
  then show ?thesis
    unfolding word_le_nat_alt using unat_u8_less [of b] by linarith
qed

lemma prefix_snoc_bound:
  fixes b :: u8
  assumes "b < 0xFF"
  shows "p @ [b] \<le> k \<and> k < p @ [b + 1] \<longleftrightarrow> prefix (p @ [b]) k"
  using assms
proof (induction p arbitrary: k)
  case Nil
  have lt: "c < b + 1 \<longleftrightarrow> c \<le> b" for c :: u8
  proof -
    have "unat (b + 1) = unat b + 1"
      using Nil by (simp add: word_less_nat_alt unat_word_ariths(1))
    then show ?thesis
      by (simp add: word_less_nat_alt word_le_nat_alt less_Suc_eq_le)
  qed
  have eq: "(b < c \<or> b = c) \<and> c \<le> b \<longleftrightarrow> b = c" for c
    by auto
  show ?case
    by (cases k) (simp_all add: lt eq)
next
  case (Cons a p)
  show ?case
  proof (cases k)
    case (Cons c ks)
    then show ?thesis
      using Cons.IH [of ks] Cons.prems by (cases a c rule: linorder_cases) (simp_all add: less_not_sym less_imp_neq less_imp_neq [symmetric])
  qed simp
qed

lemma less_eq_append_same [simp]:
  "(xs @ ys \<le> xs @ zs) = (ys \<le> (zs :: 'a :: linorder list))"
  by (induction xs) simp_all

lemma prefix_le: "prefix p k \<Longrightarrow> p \<le> (k :: 'a :: linorder list)"
  using less_eq_append_same [of p "[]"] by (auto elim!: prefixE)

lemma prefix_scan_bounds:
  "p \<le> k \<and> before_end k (prefix_successor p) \<longleftrightarrow> prefix p k"
proof (induction p rule: rev_induct)
  case Nil
  then show ?case
    by (simp add: before_end_def)
next
  case (snoc b p)
  show ?case
  proof (cases "b < 0xFF")
    case True
    then show ?thesis
      using prefix_snoc_bound [of b p k] by (simp add: prefix_successor_snoc before_end_def)
  next
    case False
    then have b: "b = 0xFF"
      using u8_le_max [of b] by simp
    have "p \<le> k" if "p @ [b] \<le> k"
      using that prefix_le [of p "p @ [b]"] by (meson order_trans prefixI)
    moreover have "p @ [b] \<le> p @ rest \<longleftrightarrow> prefix (p @ [b]) (p @ rest)" for rest
      using b u8_le_max [THEN order.antisym] unfolding less_eq_append_same same_prefix_prefix
      by (cases rest) auto
    ultimately show ?thesis
      using snoc.IH prefix_le [of "p @ [b]" k] False
      by (auto simp: prefix_successor_snoc dest: append_prefixD elim!: prefixE)
  qed
qed

section \<open>What a tree contains and what its hash commits to\<close>

fun entries :: "merk_node \<Rightarrow> (bytes \<times> bytes) list"
  and child_entries :: "merk_child option \<Rightarrow> (bytes \<times> bytes) list"
where
  "entries (Node k v h l r) = child_entries l @ (k, v) # child_entries r"
| "child_entries None = []"
| "child_entries (Some (Resident n)) = entries n"
| "child_entries (Some (PrunedChild k h hs)) = []"

text \<open>Every node carries the hash of its own entry; in a complete tree nothing is pruned.\<close>

fun kv_bound :: "(bytes \<Rightarrow> bytes \<Rightarrow> digest option) \<Rightarrow> merk_node \<Rightarrow> bool"
  and child_kv_bound :: "(bytes \<Rightarrow> bytes \<Rightarrow> digest option) \<Rightarrow> merk_child option \<Rightarrow> bool"
where
  "kv_bound kv_hash (Node k v h l r) \<longleftrightarrow>
    kv_hash k v = Some h \<and> child_kv_bound kv_hash l \<and> child_kv_bound kv_hash r"
| "child_kv_bound kv_hash None = True"
| "child_kv_bound kv_hash (Some (Resident n)) = kv_bound kv_hash n"
| "child_kv_bound kv_hash (Some (PrunedChild k h hs)) = True"

fun complete :: "merk_node \<Rightarrow> bool" and child_complete :: "merk_child option \<Rightarrow> bool"
where
  "complete (Node k v h l r) \<longleftrightarrow> child_complete l \<and> child_complete r"
| "child_complete None = True"
| "child_complete (Some (Resident n)) = complete n"
| "child_complete (Some (PrunedChild k h hs)) = False"

definition search_tree :: "merk_node \<Rightarrow> bool" where
  "search_tree t = sorted_wrt (<) (map fst (entries t))"

text \<open>merk's root hash: a node hashes the hash of its entry and the hashes of its children, a missing
  child counting as zero.\<close>

definition link_hash :: "(merk_node \<Rightarrow> digest) \<Rightarrow> merk_child option \<Rightarrow> digest" where
  "link_hash root_hash c = (case c of
      None \<Rightarrow> 0 | Some (Resident n) \<Rightarrow> root_hash n | Some (PrunedChild k h hs) \<Rightarrow> h)"

definition merkle_law :: "(digest \<Rightarrow> digest \<Rightarrow> digest \<Rightarrow> digest) \<Rightarrow> (merk_node \<Rightarrow> digest) \<Rightarrow> bool" where
  "merkle_law node_hash root_hash \<longleftrightarrow> (\<forall>k v h l r.
    root_hash (Node k v h l r) = node_hash h (link_hash root_hash l) (link_hash root_hash r))"

fun node_inputs :: "(merk_node \<Rightarrow> digest) \<Rightarrow> merk_node \<Rightarrow> (digest \<times> digest \<times> digest) set"
  and child_inputs :: "(merk_node \<Rightarrow> digest) \<Rightarrow> merk_child option \<Rightarrow> (digest \<times> digest \<times> digest) set"
where
  "node_inputs root_hash (Node k v h l r) =
    insert (h, link_hash root_hash l, link_hash root_hash r) (child_inputs root_hash l \<union> child_inputs root_hash r)"
| "child_inputs root_hash None = {}"
| "child_inputs root_hash (Some (Resident n)) = node_inputs root_hash n"
| "child_inputs root_hash (Some (PrunedChild k h hs)) = {}"

definition collision_free ::
  "(bytes \<Rightarrow> bytes \<Rightarrow> digest option) \<Rightarrow> (digest \<Rightarrow> digest \<Rightarrow> digest \<Rightarrow> digest) \<Rightarrow>
    (bytes \<times> bytes) set \<Rightarrow> (digest \<times> digest \<times> digest) set \<Rightarrow> bool"
where
  "collision_free kv_hash node_hash kvs inputs \<longleftrightarrow>
    inj_on (\<lambda>(k, v). kv_hash k v) kvs \<and> inj_on (\<lambda>(h, l, r). node_hash h l r) inputs \<and>
    (\<forall>(h, l, r) \<in> inputs. node_hash h l r \<noteq> 0)"

text \<open>The tree \<open>p\<close> is \<open>t\<close> with some subtrees cut off, each of them replaced by its hash.\<close>

fun prunes :: "(merk_node \<Rightarrow> digest) \<Rightarrow> merk_node \<Rightarrow> merk_node \<Rightarrow> bool"
  and child_prunes :: "(merk_node \<Rightarrow> digest) \<Rightarrow> merk_child option \<Rightarrow> merk_child option \<Rightarrow> bool"
where
  "prunes root_hash (Node k v h l r) (Node k' v' h' l' r') \<longleftrightarrow>
    k = k' \<and> v = v' \<and> h = h' \<and> child_prunes root_hash l l' \<and> child_prunes root_hash r r'"
| "child_prunes root_hash (Some (PrunedChild k h hs)) c = (h = link_hash root_hash c)"
| "child_prunes root_hash None c = (c = None)"
| "child_prunes root_hash (Some (Resident n)) c =
    (case c of Some (Resident m) \<Rightarrow> prunes root_hash n m | _ \<Rightarrow> False)"

lemma collision_free_mono:
  "collision_free kv_hash node_hash kvs inputs \<Longrightarrow> kvs' \<subseteq> kvs \<Longrightarrow> inputs' \<subseteq> inputs \<Longrightarrow>
    collision_free kv_hash node_hash kvs' inputs'"
  unfolding collision_free_def by (meson inj_on_subset subsetD)

lemma link_hash_simps [simp]:
  "link_hash root_hash None = 0"
  "link_hash root_hash (Some (Resident n)) = root_hash n"
  "link_hash root_hash (Some (PrunedChild k h hs)) = h"
  by (simp_all add: link_hash_def)

lemma root_hash_not_zero:
  assumes "merkle_law node_hash root_hash"
    and "collision_free kv_hash node_hash kvs inputs" and "node_inputs root_hash n \<subseteq> inputs"
  shows "root_hash n \<noteq> 0"
  using assms by (cases n) (auto simp: merkle_law_def collision_free_def)

lemma same_root_prunes:
  assumes law: "merkle_law node_hash root_hash"
    and free: "collision_free kv_hash node_hash kvs inputs"
  shows "kv_bound kv_hash p \<Longrightarrow> kv_bound kv_hash t \<Longrightarrow> complete t \<Longrightarrow> root_hash p = root_hash t \<Longrightarrow>
      set (entries p) \<union> set (entries t) \<subseteq> kvs \<Longrightarrow>
      node_inputs root_hash p \<union> node_inputs root_hash t \<subseteq> inputs \<Longrightarrow> prunes root_hash p t"
    and "child_kv_bound kv_hash c \<Longrightarrow> child_kv_bound kv_hash d \<Longrightarrow> child_complete d \<Longrightarrow>
      link_hash root_hash c = link_hash root_hash d \<Longrightarrow>
      set (child_entries c) \<union> set (child_entries d) \<subseteq> kvs \<Longrightarrow>
      child_inputs root_hash c \<union> child_inputs root_hash d \<subseteq> inputs \<Longrightarrow> child_prunes root_hash c d"
  using law free
proof (induction root_hash p t and root_hash c d rule: prunes_child_prunes.induct)
  case (1 root_hash k v h l r k' v' h' l' r')
  have "node_hash h (link_hash root_hash l) (link_hash root_hash r) =
      node_hash h' (link_hash root_hash l') (link_hash root_hash r')"
    using 1(6) 1(9) by (simp add: merkle_law_def)
  moreover have "inj_on (\<lambda>(h, l, r). node_hash h l r) inputs"
    using 1(10) by (simp add: collision_free_def)
  moreover have "(h, link_hash root_hash l, link_hash root_hash r) \<in> inputs"
      "(h', link_hash root_hash l', link_hash root_hash r') \<in> inputs"
    using 1(8) by auto
  ultimately have "(h, link_hash root_hash l, link_hash root_hash r) =
      (h', link_hash root_hash l', link_hash root_hash r')"
    by (intro inj_onD [of "\<lambda>(h, l, r). node_hash h l r" inputs]) auto
  then have same: "h = h'" "link_hash root_hash l = link_hash root_hash l'"
      "link_hash root_hash r = link_hash root_hash r'"
    by simp_all
  have "inj_on (\<lambda>(k, v). kv_hash k v) kvs"
    using 1(10) by (simp add: collision_free_def)
  then have "(k, v) = (k', v')"
    using 1(3,4,7) same(1) by (intro inj_onD [of "\<lambda>(k, v). kv_hash k v" kvs]) auto
  with 1 same show ?case
    by auto
next
  case (3 root_hash c)
  show ?case
  proof (cases c)
    case (Some d)
    then obtain n where "d = Resident n"
      using 3 by (cases d) auto
    then show ?thesis
      using 3 Some root_hash_not_zero [OF 3(7,8), of n] by auto
  qed simp
next
  case (4 root_hash n c)
  show ?case
  proof (cases c)
    case None
    then show ?thesis
      using 4 root_hash_not_zero [OF 4(8,9), of n] by auto
  next
    case (Some d)
    then show ?thesis
      using 4 by (cases d) auto
  qed
qed simp_all

section \<open>Reads of pruned and complete trees\<close>

lemma lookup_prunes:
  "prunes root_hash p t \<Longrightarrow> lookup_value_verified kv_hash p key = Some res \<Longrightarrow> res \<noteq> HitPruned \<Longrightarrow>
    lookup_value_verified kv_hash t key = Some res"
  "child_prunes root_hash c d \<Longrightarrow> lookup_child kv_hash c key = Some res \<Longrightarrow> res \<noteq> HitPruned \<Longrightarrow>
    lookup_child kv_hash d key = Some res"
  by (induction root_hash p t and root_hash c d rule: prunes_child_prunes.induct)
    (auto split: if_splits option.splits merk_child.splits)

lemma collect_range_prunes:
  "prunes root_hash p t \<Longrightarrow> collect_range_recursive kv_hash p start end_key acc = Some rs \<Longrightarrow>
    collect_range_recursive kv_hash t start end_key acc = Some rs"
  "child_prunes root_hash c d \<Longrightarrow> collect_range_child kv_hash c start end_key acc = Some rs \<Longrightarrow>
    collect_range_child kv_hash d start end_key acc = Some rs"
proof (induction root_hash p t and root_hash c d arbitrary: acc rs and acc rs rule: prunes_child_prunes.induct)
  case (1 k v h l r k' v' h' l' r')
  then show ?case
    by (auto simp: bind_eq_Some_conv split: if_splits)
qed (auto split: option.splits merk_child.splits)

lemma lookup_complete:
  "complete t \<Longrightarrow> kv_bound kv_hash t \<Longrightarrow> sorted_wrt (<) (map fst (entries t)) \<Longrightarrow>
    lookup_value_verified kv_hash t key =
      Some (case map_of (entries t) key of Some v \<Rightarrow> Found v | None \<Rightarrow> NotFound)"
  "child_complete c \<Longrightarrow> child_kv_bound kv_hash c \<Longrightarrow> sorted_wrt (<) (map fst (child_entries c)) \<Longrightarrow>
    lookup_child kv_hash c key =
      Some (case map_of (child_entries c) key of Some v \<Rightarrow> Found v | None \<Rightarrow> NotFound)"
proof (induction t and c rule: entries_child_entries.induct)
  case (1 k v h l r)
  have left: "map_of (child_entries l) key = None" if "k \<le> key"
    using 1(5) that by (fastforce simp: sorted_wrt_append map_of_eq_None_iff)
  have right: "map_of (child_entries r) key = None" if "key \<le> k"
    using 1(5) that by (fastforce simp: sorted_wrt_append map_of_eq_None_iff)
  show ?case
    using 1 left right
    by (cases key k rule: linorder_cases)
      (auto simp: sorted_wrt_append map_add_def dest: less_not_sym split: option.splits)
qed simp_all

lemma filter_none: "(\<And>x. x \<in> set xs \<Longrightarrow> \<not> P x) \<Longrightarrow> filter P xs = []"
  by (simp add: filter_empty_conv)

lemma collect_range_complete:
  "complete t \<Longrightarrow> kv_bound kv_hash t \<Longrightarrow> sorted_wrt (<) (map fst (entries t)) \<Longrightarrow>
    collect_range_recursive kv_hash t start end_key acc =
      Some (acc @ filter (\<lambda>(k, _). start \<le> k \<and> before_end k end_key) (entries t))"
  "child_complete c \<Longrightarrow> child_kv_bound kv_hash c \<Longrightarrow> sorted_wrt (<) (map fst (child_entries c)) \<Longrightarrow>
    collect_range_child kv_hash c start end_key acc =
      Some (acc @ filter (\<lambda>(k, _). start \<le> k \<and> before_end k end_key) (child_entries c))"
proof (induction t and c arbitrary: acc and acc rule: entries_child_entries.induct)
  case (1 k v h l r)
  let ?P = "\<lambda>(k, _). start \<le> k \<and> before_end k end_key"
  have left: "filter ?P (child_entries l) = []" if "\<not> start < k"
    using 1(5) that by (intro filter_none) (fastforce simp: sorted_wrt_append)
  have right: "filter ?P (child_entries r) = []" if "\<not> before_end k end_key"
    using 1(5) that
    by (intro filter_none) (fastforce simp: sorted_wrt_append before_end_def split: option.splits)
  show ?case
    using 1 left right by (cases "start < k"; cases "before_end k end_key") (auto simp: sorted_wrt_append)
qed simp_all

fun read_selects :: "read_op \<Rightarrow> bytes \<Rightarrow> bool" where
  "read_selects (ReadKey key) k = (k = key)"
| "read_selects (ReadPrefix p) k = prefix p k"
| "read_selects (ReadRange start end_key) k = (start \<le> k \<and> k < end_key)"

lemma filter_key_map_of:
  "distinct (map fst xs) \<Longrightarrow>
    filter (\<lambda>(k, _). k = key) xs = (case map_of xs key of Some v \<Rightarrow> [(key, v)] | None \<Rightarrow> [])"
  by (induction xs) (auto simp: filter_none rev_image_eqI split: option.splits)

lemma extract_read_complete:
  assumes "complete t" and "kv_bound kv_hash t" and "search_tree t"
  shows "extract_read kv_hash t op = Some (filter (\<lambda>(k, _). read_selects op k) (entries t))"
proof (cases op)
  case (ReadKey key)
  have "distinct (map fst (entries t))"
    using assms(3) by (auto simp: search_tree_def strict_sorted_iff)
  then show ?thesis
    using ReadKey assms lookup_complete(1) [of t kv_hash key] filter_key_map_of [of "entries t" key]
    by (simp add: search_tree_def split: option.splits)
next
  case (ReadPrefix p)
  then show ?thesis
    using assms collect_range_complete(1) [of t kv_hash p "prefix_successor p" "[]"]
    by (simp add: search_tree_def collect_range_def prefix_scan_bounds)
next
  case (ReadRange start end_key)
  then show ?thesis
    using assms collect_range_complete(1) [of t kv_hash start "Some end_key" "[]"]
    by (simp add: search_tree_def collect_range_def before_end_def)
qed

lemma extract_read_prunes:
  assumes "prunes root_hash p t" and "extract_read kv_hash p op = Some rs"
  shows "extract_read kv_hash t op = Some rs"
proof (cases op)
  case (ReadKey key)
  then obtain res where "lookup_value_verified kv_hash p key = Some res" and "res \<noteq> HitPruned"
    using assms(2) by (cases "lookup_value_verified kv_hash p key") (auto split: get_result.splits)
  then show ?thesis
    using assms ReadKey lookup_prunes(1) [OF assms(1)] by simp
qed (use assms collect_range_prunes(1) [OF assms(1)] in \<open>auto simp: collect_range_def\<close>)

definition answer :: "(bytes \<times> bytes) list \<Rightarrow> proven_read \<Rightarrow> proven_read" where
  "answer kvs r = \<lparr>pr_op = pr_op r, pr_results = filter (\<lambda>(k, _). read_selects (pr_op r) k) kvs\<rparr>"

lemma extract_reads_prunes:
  assumes "prunes root_hash p t" and "complete t" and "kv_bound kv_hash t" and "search_tree t"
    and "extract_reads kv_hash p reads = Some rs"
  shows "rs = map (answer (entries t)) reads"
  using assms(5)
proof (induction reads arbitrary: rs)
  case (Cons r reads)
  then show ?case
    using extract_read_prunes [OF assms(1), of kv_hash "pr_op r"] extract_read_complete [OF assms(2-4), of "pr_op r"]
    by (auto simp: bind_eq_Some_conv answer_def)
qed simp

section \<open>Batches keep the last write of every key\<close>

fun store_op :: "batch_op \<Rightarrow> (bytes \<rightharpoonup> bytes) \<Rightarrow> (bytes \<rightharpoonup> bytes)" where
  "store_op (BPut k v) m = m(k \<mapsto> v)"
| "store_op (BDelete k) m = m(k := None)"

definition batch_effect :: "(bytes \<times> merk_op) list \<Rightarrow> (bytes \<rightharpoonup> bytes) \<Rightarrow> (bytes \<rightharpoonup> bytes)" where
  "batch_effect batch m k = (case map_of batch k of
      None \<Rightarrow> m k | Some (OpPut v) \<Rightarrow> Some v | Some OpDelete \<Rightarrow> None)"

abbreviation sorted_map :: "('k :: linorder \<times> 'v) list \<Rightarrow> bool" where
  "sorted_map m \<equiv> sorted_wrt (<) (map fst m)"

lemma ball_btree_insert [simp]:
  "(\<forall>x \<in> set (btree_insert k v m). P (fst x)) \<longleftrightarrow> P k \<and> (\<forall>x \<in> set m. P (fst x))"
  by (induction k v m rule: btree_insert.induct) auto

lemma sorted_btree_insert: "sorted_map m \<Longrightarrow> sorted_map (btree_insert k v m)"
  by (induction k v m rule: btree_insert.induct) (auto dest: less_trans)

lemma map_of_btree_insert: "sorted_map m \<Longrightarrow> map_of (btree_insert k v m) = (map_of m)(k \<mapsto> v)"
  by (induction k v m rule: btree_insert.induct) auto

lemma map_of_map_snd: "map_of (map (\<lambda>(k, v). (k, f v)) m) = map_option f \<circ> map_of m"
  by (induction m) auto

lemma dedup_batch_aux:
  assumes "sorted_map m" and "m' = fold (\<lambda>op m. btree_insert (batch_op_key op) op m) ops m"
  shows "sorted_map m' \<and> batch_effect (map (\<lambda>(k, op). (k, to_merk_op op)) m') s =
    fold store_op ops (batch_effect (map (\<lambda>(k, op). (k, to_merk_op op)) m) s)"
  using assms(1) unfolding assms(2)
proof (induction ops arbitrary: m)
  case (Cons op ops)
  let ?f = "\<lambda>(k, op). (k, to_merk_op op)"
  let ?m = "btree_insert (batch_op_key op) op m"
  have "sorted_map ?m"
    using Cons.prems by (rule sorted_btree_insert)
  moreover have "batch_effect (map ?f ?m) s = store_op op (batch_effect (map ?f m) s)"
    using Cons.prems
    by (cases op) (auto simp: batch_effect_def fun_eq_iff map_of_map_snd map_of_btree_insert)
  ultimately show ?case
    using Cons.IH [of ?m] by simp
qed simp

lemma dedup_batch_spec:
  "sorted_map (dedup_batch ops) \<and> batch_effect (dedup_batch ops) m = fold store_op ops m"
proof -
  have "fst \<circ> (\<lambda>(k, op). (k, to_merk_op op)) = (fst :: bytes \<times> batch_op \<Rightarrow> bytes)"
    by auto
  moreover have "batch_effect [] m = m"
    by (simp add: batch_effect_def fun_eq_iff)
  ultimately show ?thesis
    using dedup_batch_aux [of "[]" _ ops m, OF _ refl] by (simp add: dedup_batch_def)
qed

text \<open>C30: a batch handed to the tree is strictly sorted by key, names each key once, and has the effect
  of performing the operations one after the other: the last write of a key wins.\<close>

theorem dedup_batch_last_write_wins:
  "sorted_map (dedup_batch ops) \<and> batch_effect (dedup_batch ops) m = fold store_op ops m"
  by (rule dedup_batch_spec)

lemma sorted_map_unique:
  assumes xs: "sorted_map xs" and ys: "sorted_map ys" and same: "map_of xs = map_of ys"
  shows "xs = ys"
proof -
  have "set (map fst xs) = set (map fst ys)"
    using arg_cong [OF same, of dom] by (simp add: dom_map_of_conv_image_fst)
  then have keys: "map fst ys = map fst xs"
    using strict_sorted_equal [OF xs ys] by simp
  moreover have "map snd xs = map snd ys"
  proof (rule map_of_zip_inject [of _ "map fst xs"])
    show "distinct (map fst xs)"
      using xs by (simp add: strict_sorted_iff)
    show "map_of (zip (map fst xs) (map snd xs)) = map_of (zip (map fst xs) (map snd ys))"
      using same unfolding zip_map_fst_snd keys [symmetric] by (metis keys zip_map_fst_snd)
  qed (use map_eq_imp_length_eq [OF keys] in simp_all)
  ultimately show ?thesis
    by (metis zip_map_fst_snd)
qed

section \<open>A verified trace\<close>

text \<open>The committed store: a complete tree or nothing.  The pruned tree the verifier holds stands for it.\<close>

definition store_ok :: "(bytes \<Rightarrow> bytes \<Rightarrow> digest option) \<Rightarrow> merk_node option \<Rightarrow> bool" where
  "store_ok kv_hash t = (case t of None \<Rightarrow> True | Some n \<Rightarrow> complete n \<and> kv_bound kv_hash n \<and> search_tree n)"

definition store_entries :: "merk_node option \<Rightarrow> (bytes \<times> bytes) list" where
  "store_entries t = (case t of None \<Rightarrow> [] | Some n \<Rightarrow> entries n)"

definition stands_for :: "(merk_node \<Rightarrow> digest) \<Rightarrow> merk_node option \<Rightarrow> merk_node option \<Rightarrow> bool" where
  "stands_for root_hash p t = (case (p, t) of
      (None, None) \<Rightarrow> True | (Some p, Some t) \<Rightarrow> prunes root_hash p t | _ \<Rightarrow> False)"

text \<open>What is required of merk's walker: on a pruned tree it either panics or returns a tree that
  stands for the committed store with the batch applied.\<close>

definition walker_law ::
  "(bytes \<Rightarrow> bytes \<Rightarrow> digest option) \<Rightarrow> (merk_node \<Rightarrow> digest) \<Rightarrow>
    (merk_node option \<Rightarrow> (bytes \<times> merk_op) list \<Rightarrow> merk_node option option) \<Rightarrow> bool"
where
  "walker_law kv_hash root_hash apply \<longleftrightarrow> (\<forall>p t batch p'.
    stands_for root_hash p t \<and> store_ok kv_hash t \<and> sorted_map batch \<and> batch \<noteq> [] \<and> apply p batch = Some p' \<longrightarrow>
    (\<exists>t'. stands_for root_hash p' t' \<and> store_ok kv_hash t' \<and>
      map_of (store_entries t') = batch_effect batch (map_of (store_entries t))))"

text \<open>The steps of a trace executed on a sorted list of entries, one operation after the other.\<close>

fun write_op :: "batch_op \<Rightarrow> (bytes \<times> bytes) list \<Rightarrow> (bytes \<times> bytes) list" where
  "write_op (BPut k v) kvs = btree_insert k v kvs"
| "write_op (BDelete k) kvs = filter (\<lambda>(k', _). k' \<noteq> k) kvs"

fun run_trace :: "trace_step list \<Rightarrow> (bytes \<times> bytes) list \<Rightarrow> (bytes \<times> bytes) list \<times> proven_read list list" where
  "run_trace [] kvs = (kvs, [])"
| "run_trace (TRead reads # steps) kvs =
    (let (kvs', results) = run_trace steps kvs in (kvs', map (answer kvs) reads # results))"
| "run_trace (TWrite ops # steps) kvs = run_trace steps (fold write_op ops kvs)"

lemma map_of_filter_neq: "map_of (filter (\<lambda>(k', _). k' \<noteq> k) kvs) = (map_of kvs)(k := None)"
  by (induction kvs) auto

lemma write_ops:
  assumes "sorted_map kvs"
  shows "sorted_map (fold write_op ops kvs) \<and> map_of (fold write_op ops kvs) = fold store_op ops (map_of kvs)"
  using assms
proof (induction ops arbitrary: kvs)
  case (Cons op ops)
  have "sorted_map (write_op op kvs)"
    using Cons.prems sorted_btree_insert [OF Cons.prems]
    by (cases op) (simp_all add: sorted_wrt_map sorted_wrt_filter)
  moreover have "map_of (write_op op kvs) = store_op op (map_of kvs)"
    using map_of_btree_insert [OF Cons.prems] by (cases op) (simp_all add: map_of_filter_neq)
  ultimately show ?case
    using Cons.IH [of "write_op op kvs"] by simp
qed simp

lemma store_entries_sorted: "store_ok kv_hash t \<Longrightarrow> sorted_map (store_entries t)"
  by (auto simp: store_ok_def store_entries_def search_tree_def split: option.splits)

lemma apply_batch_stands_for:
  assumes "walker_law kv_hash root_hash apply"
    and "stands_for root_hash p t" and ok: "store_ok kv_hash t" and "apply_batch apply p ops = Some p'"
  shows "\<exists>t'. stands_for root_hash p' t' \<and> store_ok kv_hash t' \<and>
    store_entries t' = fold write_op ops (store_entries t)"
proof -
  note dedup = dedup_batch_spec [of ops "map_of (store_entries t)"]
  note writes = write_ops [OF store_entries_sorted [OF ok], of ops]
  obtain t' where t': "stands_for root_hash p' t'" "store_ok kv_hash t'"
      and "map_of (store_entries t') = fold store_op ops (map_of (store_entries t))"
  proof (cases "dedup_batch ops = []")
    case True
    then show ?thesis
      using assms dedup that [of t] by (simp add: apply_batch_def batch_effect_def fun_eq_iff)
  next
    case False
    then have "apply p (dedup_batch ops) = Some p'"
      using assms(4) by (simp add: apply_batch_def)
    then show ?thesis
      using assms(1-3) dedup that False unfolding walker_law_def by metis
  qed
  then have "store_entries t' = fold write_op ops (store_entries t)"
    using writes by (intro sorted_map_unique store_entries_sorted [OF t'(2)]) simp_all
  with t' show ?thesis
    by blast
qed

lemma process_steps_sound:
  assumes law: "walker_law kv_hash root_hash apply"
    and "stands_for root_hash p t" and "store_ok kv_hash t"
    and "process_steps kv_hash apply steps p acc = Some (p', results)"
  shows "\<exists>t'. stands_for root_hash p' t' \<and> store_ok kv_hash t' \<and>
    store_entries t' = fst (run_trace steps (store_entries t)) \<and>
    results = acc @ snd (run_trace steps (store_entries t))"
  using assms(2-)
proof (induction steps arbitrary: p t acc)
  case (Cons step steps)
  show ?case
  proof (cases step)
    case (TRead reads)
    then obtain q n rs where p: "p = Some q" "t = Some n" and prunes: "prunes root_hash q n"
        and rs: "extract_reads kv_hash q reads = Some rs"
        and rest: "process_steps kv_hash apply steps p (acc @ [rs]) = Some (p', results)"
      using Cons.prems by (auto simp: stands_for_def bind_eq_Some_conv split: option.splits)
    have "rs = map (answer (entries n)) reads"
      using extract_reads_prunes [OF prunes _ _ _ rs] Cons.prems(2) p by (simp add: store_ok_def)
    then show ?thesis
      using Cons.IH [OF Cons.prems(1,2) rest] p TRead by (auto simp: store_entries_def split: prod.splits)
  next
    case (TWrite ops)
    then obtain q where q: "apply_batch apply p ops = Some q"
        and rest: "process_steps kv_hash apply steps q acc = Some (p', results)"
      using Cons.prems by (auto simp: bind_eq_Some_conv)
    then obtain u where "stands_for root_hash q u" "store_ok kv_hash u"
        and u: "store_entries u = fold write_op ops (store_entries t)"
      using apply_batch_stands_for [OF law Cons.prems(1,2) q] by blast
    from Cons.IH [OF this(1,2) rest] show ?thesis
      unfolding u TWrite by simp
  qed
qed auto

lemma pruned_to_child_kv_bound:
  "pruned_to_child kv_hash t = Some c \<Longrightarrow> child_kv_bound kv_hash c"
  by (induction t arbitrary: c) (auto simp: bind_eq_Some_conv)

lemma pruned_to_merk_kv_bound:
  "pruned_to_merk kv_hash t = Some (Some p) \<Longrightarrow> kv_bound kv_hash p"
  by (cases t) (auto simp: bind_eq_Some_conv dest: pruned_to_child_kv_bound)

lemma prunes_same_root:
  assumes "merkle_law node_hash root_hash"
  shows "prunes root_hash p t \<Longrightarrow> root_hash p = root_hash t"
    and "child_prunes root_hash c d \<Longrightarrow> link_hash root_hash c = link_hash root_hash d"
  using assms
  by (induction root_hash p t and root_hash c d rule: prunes_child_prunes.induct)
    (auto simp: merkle_law_def split: option.splits merk_child.splits)

lemma stands_for_end_root:
  assumes "merkle_law node_hash root_hash" and "stands_for root_hash p t"
  shows "end_root root_hash p = end_root root_hash t"
  using assms prunes_same_root(1) [OF assms(1)] by (auto simp: stands_for_def end_root_def split: option.splits)

text \<open>C4: an accepted trace tells the truth about the committed store.  Let \<open>t\<close> be the complete search
  tree whose root hash is the trace's start root, and assume no hash collision among the nodes of
  \<open>t\<close> and of the pruned tree.  Then every read of the trace, single key, prefix or range, was
  answered with exactly the entries of the store at that point of a sequential execution of the
  trace's writes, and the end root is the root hash of the store the execution ends in.\<close>

theorem verify_trace_sound:
  assumes law: "merkle_law node_hash root_hash" and walker: "walker_law kv_hash root_hash apply"
    and store: "store_ok kv_hash (Some t)" and root: "root_hash t = tp_expected_start_root trace"
    and pruned: "pruned_to_merk kv_hash (tp_pruned_tree trace) = Some (Some p)"
    and free: "collision_free kv_hash node_hash (set (entries p) \<union> set (entries t))
      (node_inputs root_hash p \<union> node_inputs root_hash t)"
    and accepted: "verify_trace kv_hash root_hash apply trace = Inr results"
  shows "\<exists>t'. store_ok kv_hash t' \<and> end_root root_hash t' = tp_expected_end_root trace \<and>
    run_trace (tp_steps trace) (entries t) = (store_entries t', results)"
proof -
  obtain p' where start: "root_hash p = tp_expected_start_root trace"
      and steps: "process_steps kv_hash apply (tp_steps trace) (Some p) [] = Some (p', results)"
      and final: "end_root root_hash p' = tp_expected_end_root trace"
    using accepted pruned
    by (auto simp: verify_trace_def verify_trace_internal_def ok_or_def bind_eq_Some_conv
      split: option.splits if_splits)
  have "prunes root_hash p t"
    using same_root_prunes(1) [OF law free, of p t] pruned_to_merk_kv_bound [OF pruned] store start root
    by (simp add: store_ok_def)
  then have "stands_for root_hash (Some p) (Some t)"
    by (simp add: stands_for_def)
  from process_steps_sound [OF walker this store steps] obtain t' where "stands_for root_hash p' t'"
      and t': "store_ok kv_hash t'" "store_entries t' = fst (run_trace (tp_steps trace) (entries t))"
        "results = snd (run_trace (tp_steps trace) (entries t))"
    by (auto simp: store_entries_def)
  then show ?thesis
    using stands_for_end_root [OF law] final by (intro exI [of _ t']) simp
qed

text \<open>An instance of the parameters: small arithmetic hashes and a walker that only replaces the value
  of the root.\<close>

definition small_kv_hash :: "bytes \<Rightarrow> bytes \<Rightarrow> digest option" where
  "small_kv_hash k v = Some (of_nat (10 * length k + length v))"

definition small_node_hash :: "digest \<Rightarrow> digest \<Rightarrow> digest \<Rightarrow> digest" where
  "small_node_hash h l r = h + 3 * l + 5 * r + 1"

fun small_root_hash :: "merk_node \<Rightarrow> digest" and small_link_hash :: "merk_child option \<Rightarrow> digest" where
  "small_root_hash (Node k v h l r) = small_node_hash h (small_link_hash l) (small_link_hash r)"
| "small_link_hash None = 0"
| "small_link_hash (Some (Resident n)) = small_root_hash n"
| "small_link_hash (Some (PrunedChild k h hs)) = h"

definition root_put :: "merk_node option \<Rightarrow> (bytes \<times> merk_op) list \<Rightarrow> merk_node option option" where
  "root_put p batch = (case (p, batch) of
      (Some (Node k v h l r), [(k', OpPut w)]) \<Rightarrow>
        if k' = k then map_option (\<lambda>h'. Some (Node k w h' l r)) (small_kv_hash k w) else None
    | _ \<Rightarrow> None)"

lemma small_merkle_law: "merkle_law small_node_hash small_root_hash"
proof -
  have "small_link_hash c = link_hash small_root_hash c" for c
    by (auto simp: link_hash_def split: option.splits merk_child.splits)
  then show ?thesis
    by (simp add: merkle_law_def)
qed

lemma root_put_walker_law: "walker_law small_kv_hash small_root_hash root_put"
  unfolding walker_law_def
proof (intro allI impI, elim conjE)
  fix p t batch p'
  assume stands: "stands_for small_root_hash p t" and ok: "store_ok small_kv_hash t"
    and put: "root_put p batch = Some p'"
  then obtain k v h l r w h' where p: "p = Some (Node k v h l r)" "batch = [(k, OpPut w)]"
      "small_kv_hash k w = Some h'" "p' = Some (Node k w h' l r)"
    by (auto simp: root_put_def split: option.splits merk_node.splits list.splits prod.splits merk_op.splits if_splits)
  obtain l' r' where t: "t = Some (Node k v h l' r')" and
      "child_prunes small_root_hash l l'" "child_prunes small_root_hash r r'"
    using stands p(1) by (auto simp: stands_for_def split: option.splits elim: prunes.elims)
  then have "stands_for small_root_hash p' (Some (Node k w h' l' r'))"
    using p by (simp add: stands_for_def)
  moreover have "store_ok small_kv_hash (Some (Node k w h' l' r'))"
    using ok t p(3) by (simp add: store_ok_def search_tree_def)
  moreover have "map_of (child_entries l') k = None"
    using ok t by (auto simp: store_ok_def search_tree_def sorted_wrt_append map_of_eq_None_iff)
  then have "map_of (store_entries (Some (Node k w h' l' r'))) = batch_effect batch (map_of (store_entries t))"
    using t p(2) by (auto simp: store_entries_def batch_effect_def fun_eq_iff map_add_def split: option.splits)
  ultimately show "\<exists>t'. stands_for small_root_hash p' t' \<and> store_ok small_kv_hash t' \<and>
      map_of (store_entries t') = batch_effect batch (map_of (store_entries t))"
    by blast
qed

definition small_store :: merk_node where
  "small_store = Node [2] [9] 11 (Some (Resident (Node [1] [7, 7] 12 None None))) None"

definition small_trace :: tracer_proof where
  "small_trace = \<lparr>tp_pruned_tree = PFull [2] [9] (PPruned [1] 13 (0, 0)) PEmpty,
    tp_steps = [TRead [\<lparr>pr_op = ReadRange [2] [4], pr_results = []\<rparr>], TWrite [BPut [2] [8], BPut [2] [9, 9]],
      TRead [\<lparr>pr_op = ReadKey [2], pr_results = []\<rparr>]],
    tp_expected_start_root = 51, tp_expected_end_root = 52\<rparr>"

theorem verify_trace_sound_witness:
  "\<exists>t'. store_ok small_kv_hash t' \<and> end_root small_root_hash t' = tp_expected_end_root small_trace \<and>
    run_trace (tp_steps small_trace) (entries small_store) =
      (store_entries t', [[\<lparr>pr_op = ReadRange [2] [4], pr_results = [([2], [9])]\<rparr>],
        [\<lparr>pr_op = ReadKey [2], pr_results = [([2], [9, 9])]\<rparr>]])"
  by (rule verify_trace_sound [OF small_merkle_law root_put_walker_law,
      where p = "Node [2] [9] 11 (Some (PrunedChild [1] 13 (0, 0))) None"])
    (simp_all add: small_store_def small_trace_def store_ok_def search_tree_def small_kv_hash_def
      small_node_hash_def collision_free_def verify_trace_def verify_trace_internal_def collect_range_def
      before_end_def apply_batch_def dedup_batch_def root_put_def end_root_def, auto)

section \<open>The compact witness decodes to the tree it encodes\<close>

lemma read_u8_at: "bs = pre @ b # post \<Longrightarrow> read_u8 bs (length pre) = Inr (b, length pre + 1)"
  by (simp add: read_u8_def)

lemma read_exact_at:
  "bs = pre @ x @ post \<Longrightarrow> length bs \<le> m \<Longrightarrow> read_exact m bs (length pre) (length x) = Inr (x, length pre + length x)"
  by (simp add: read_exact_def)

lemma read_vec_at:
  assumes bs: "bs = pre @ w @ post" and len: "length bs \<le> m" and w: "write_compact_bytes x = Some w"
  shows "read_vec m bs (length pre) = Inr (x, length pre + length w)"
proof -
  let ?n = "u32_to_le_bytes (of_nat (length x))"
  have w': "w = ?n @ x" and short: "length x < 2 ^ 32"
    using w by (auto simp: write_compact_bytes_def split: if_splits)
  have "length ?n = 4"
    by (simp add: u32_to_le_bytes_def)
  then have "read_u32_le m bs (length pre) = Inr (of_nat (length x), length (pre @ ?n))"
    using read_exact_at [of bs pre ?n "x @ post" m] bs len w'
    by (simp add: read_u32_le_def u32_from_le_bytes_def u32_to_le_bytes_def)
  moreover have "unat (of_nat (length x) :: u32) = length x"
    using short by (simp add: unat_of_nat)
  ultimately show ?thesis
    using read_exact_at [of bs "pre @ ?n" x post m] bs len w' by (simp add: read_vec_def)
qed

lemma digest_bytes_round_trip: "digest_from_bytes (digest_bytes d) = d"
proof -
  have "unat d < 2 ^ 256"
    using unsigned_less [of d, where 'a = nat] by simp
  then show ?thesis
    by (simp add: digest_from_bytes_def digest_bytes_def be_nat_nat_be)
qed

lemma read_hash_at:
  "bs = pre @ digest_bytes d @ post \<Longrightarrow> length bs \<le> m \<Longrightarrow> read_hash m bs (length pre) = Inr (d, length pre + 32)"
  using read_exact_at [of bs pre "digest_bytes d" post m] digest_bytes_round_trip [of d]
  by (simp add: read_hash_def digest_bytes_def)

lemma decode_pruned_child_at:
  assumes "bs = pre @ w @ digest_bytes h @ [a, b] @ post" and "length bs \<le> m" and "write_compact_bytes key = Some w"
  shows "decode_pruned_child m bs (length pre) = Inr (PrunedChild key h (a, b), length pre + length w + 34)"
proof -
  have len: "length (digest_bytes h) = 32"
    by (simp add: digest_bytes_def)
  have "read_vec m bs (length pre) = Inr (key, length (pre @ w))"
    using read_vec_at [OF assms(1,2,3)] by simp
  moreover have "read_hash m bs (length (pre @ w)) = Inr (h, length (pre @ w @ digest_bytes h))"
    using read_hash_at [of bs "pre @ w" h "[a, b] @ post" m] assms(1,2) len by simp
  moreover have "read_u8 bs (length (pre @ w @ digest_bytes h)) = Inr (a, length (pre @ w @ digest_bytes h @ [a]))"
    using read_u8_at [of bs "pre @ w @ digest_bytes h" a "b # post"] assms(1) by simp
  moreover have "read_u8 bs (length (pre @ w @ digest_bytes h @ [a])) = Inr (b, length pre + length w + 34)"
    using read_u8_at [of bs "pre @ w @ digest_bytes h @ [a]" b post] assms(1) len by simp
  ultimately show ?thesis
    by (simp add: decode_pruned_child_def)
qed

lemma decode_child_at:
  assumes "encode_pruned_compact t = Some e" and "pruned_to_child kv_hash t = Some c"
    and "bs = pre @ e @ post" and "length bs \<le> m"
  shows "decode_child kv_hash m bs (length pre) = Inr (c, length pre + length e)"
  using assms
proof (induction t arbitrary: e c pre post)
  case PEmpty
  then show ?case
    using read_u8_at [of bs pre PRUNED_WITNESS_EMPTY post] by (auto simp: decode_child.simps)
next
  case (PPruned key h hs)
  then obtain w where w: "write_compact_bytes key = Some w"
      and e: "e = PRUNED_WITNESS_PRUNED # w @ digest_bytes h @ [fst hs, snd hs]"
    by (auto simp: bind_eq_Some_conv)
  have "read_u8 bs (length pre) = Inr (PRUNED_WITNESS_PRUNED, length (pre @ [PRUNED_WITNESS_PRUNED]))"
    using read_u8_at PPruned.prems(3) e by simp
  then show ?case
    using decode_pruned_child_at [OF _ PPruned.prems(4) w, of "pre @ [PRUNED_WITNESS_PRUNED]" h "fst hs" "snd hs" post]
      PPruned.prems(2,3) e
    by (simp add: decode_child.simps witness_tags digest_bytes_def)
next
  case (PFull key val l r)
  then obtain k v el er cl cr kvh where w: "write_compact_bytes key = Some k" "write_compact_bytes val = Some v"
      and enc: "encode_pruned_compact l = Some el" "encode_pruned_compact r = Some er"
      and e: "e = PRUNED_WITNESS_FULL # k @ v @ el @ er"
      and c: "pruned_to_child kv_hash l = Some cl" "pruned_to_child kv_hash r = Some cr"
        "kv_hash key val = Some kvh" "c = Some (Resident (Node key val kvh cl cr))"
    by (auto simp: bind_eq_Some_conv)
  let ?t = "[PRUNED_WITNESS_FULL]"
  note bs = PFull.prems(3) [unfolded e] and len = PFull.prems(4)
  have "read_u8 bs (length pre) = Inr (PRUNED_WITNESS_FULL, length (pre @ ?t))"
    using read_u8_at bs by simp
  moreover have "read_vec m bs (length (pre @ ?t)) = Inr (key, length (pre @ ?t @ k))"
    using read_vec_at [OF _ len w(1), of "pre @ ?t"] bs by simp
  moreover have "read_vec m bs (length (pre @ ?t @ k)) = Inr (val, length (pre @ ?t @ k @ v))"
    using read_vec_at [OF _ len w(2), of "pre @ ?t @ k"] bs by simp
  moreover have "decode_child kv_hash m bs (length (pre @ ?t @ k @ v)) = Inr (cl, length (pre @ ?t @ k @ v @ el))"
    using PFull.IH(1) [OF enc(1) c(1) _ len, of "pre @ ?t @ k @ v" "er @ post"] bs by simp
  moreover have "decode_child kv_hash m bs (length (pre @ ?t @ k @ v @ el)) = Inr (cr, length pre + length e)"
    using PFull.IH(2) [OF enc(2) c(2) _ len, of "pre @ ?t @ k @ v @ el" post] bs e by simp
  ultimately show ?case
    using c(3,4) by (simp add: decode_child.simps [of _ _ _ "length pre"] decode_full_node.simps witness_tags)
qed

lemma decode_root_of_child:
  assumes "decode_child kv_hash m bs pos = Inr (Some (Resident n), q)"
  shows "decode_root kv_hash m bs pos = Inr (Some n, q)"
  using assms [unfolded decode_child.simps [of kv_hash m bs pos]] unfolding decode_root_def
  by (auto simp: res_bind_Inr_iff decode_pruned_child_def split: if_splits)

lemma compact_decodes:
  assumes enc: "encode_pruned_compact t = Some bs" and "length bs \<le> usize_max"
    and merk: "pruned_to_merk kv_hash t = Some root"
  shows "decode_pruned_compact_to_merk kv_hash usize_max bs = Inr root"
proof (cases t)
  case (PFull k v l r)
  then obtain n where n: "root = Some n" "pruned_to_child kv_hash t = Some (Some (Resident n))"
    using merk by (auto simp: bind_eq_Some_conv)
  have "decode_child kv_hash usize_max bs 0 = Inr (Some (Resident n), length bs)"
    using decode_child_at [OF enc n(2), of bs "[]" "[]" usize_max] assms(2) by simp
  then show ?thesis
    using n(1) by (simp add: decode_pruned_compact_to_merk_def decode_root_of_child)
next
  case PEmpty
  then have "bs = [PRUNED_WITNESS_EMPTY]" and "root = None"
    using enc merk by simp_all
  then show ?thesis
    by (simp add: decode_pruned_compact_to_merk_def decode_root_def read_u8_def)
next
  case (PPruned k h hs)
  then show ?thesis
    using merk by simp
qed

text \<open>C31: decoding a compact witness gives the tree it was encoded from, the same tree that
  converting the pruned tree directly gives, on every target whose \<open>usize\<close> can index the bytes.\<close>

theorem compact_witness_round_trip:
  assumes enc: "encode_pruned_compact t = Some bs" and "length bs \<le> usize_max"
    and merk: "pruned_to_merk kv_hash t = Some root"
  shows "decode_pruned_compact_to_merk kv_hash usize_max bs = Inr root"
  using assms by (rule compact_decodes)

lemma nat_be_4: "nat_be 4 v = [of_nat (v div 16777216), of_nat (v div 65536), of_nat (v div 256), of_nat v]"
proof -
  have four: "(4 :: nat) = Suc (Suc (Suc (Suc 0)))"
    by simp
  show ?thesis
    unfolding four nat_be.simps by simp
qed

lemma encode_small:
  "encode_pruned_compact (PFull [5] [7, 8] PEmpty PEmpty) = Some [2, 1, 0, 0, 0, 5, 2, 0, 0, 0, 7, 8, 0, 0]"
  by (simp add: write_compact_bytes_def u32_to_le_bytes_def u32_to_be_bytes_def witness_tags nat_be_4)

theorem compact_witness_round_trip_witness:
  "decode_pruned_compact_to_merk small_kv_hash 4294967295 [2, 1, 0, 0, 0, 5, 2, 0, 0, 0, 7, 8, 0, 0] =
    Inr (Some (Node [5] [7, 8] 12 None None))"
  by (rule compact_witness_round_trip [OF encode_small]) (simp_all add: small_kv_hash_def)

lemma decode_kv_bound:
  "decode_child kv_hash m bs pos = Inr (c, pos') \<Longrightarrow> child_kv_bound kv_hash c"
  "decode_full_node kv_hash m bs pos = Inr (n, pos') \<Longrightarrow> kv_bound kv_hash n"
proof (induction kv_hash m bs pos and kv_hash m bs pos arbitrary: c pos' and n pos'
    rule: decode_child_decode_full_node.induct)
  case (1 kv_hash m bs pos)
  from "1.prems" [unfolded decode_child.simps [of kv_hash m bs pos]] "1.IH" show ?case
    by (fastforce simp: res_bind_Inr_iff decode_pruned_child_def split: if_splits)
next
  case (2 kv_hash m bs pos)
  from "2.prems" [unfolded decode_full_node.simps [of kv_hash m bs pos]]
  obtain k p1 v p2 l p3 r h where *: "read_vec m bs pos = Inr (k, p1)" "read_vec m bs p1 = Inr (v, p2)"
      "decode_child kv_hash m bs p2 = Inr (l, p3)" "decode_child kv_hash m bs p3 = Inr (r, pos')"
      "kv_hash k v = Some h" "n = Node k v h l r"
    by (auto simp: res_bind_Inr_iff)
  show ?case
    using "2.IH"(1) [OF *(1) refl *(2) refl *(3)] "2.IH"(2) [OF *(1) refl *(2) refl *(3) refl *(4)] * by simp
qed

lemma decode_pruned_compact_kv_bound:
  "decode_pruned_compact_to_merk kv_hash m bs = Inr (Some p) \<Longrightarrow> kv_bound kv_hash p"
  by (auto simp: decode_pruned_compact_to_merk_def decode_root_def res_bind_Inr_iff
    dest: decode_kv_bound(2) split: if_splits)

end
