(* ===== verification/Changelog_Entry.thy ===== *)
theory Changelog_Entry
  imports Pruned_Tree Storage_Keys
begin

text \<open>
  Changelog entries, their paths and their byte format: the first part of
  \<open>ffproof/changelog_core/src/changelog.rs\<close>, with the entry decoder and the flat entry blob of the
  verifier.

  Errors carry their kind and not their message; the additional kind \<open>Panic\<close> stands for a panic, so
  that a function that may both fail and panic still returns a sum.  The serialiser postcard is not
  part of the sources: what the decoder accepts is stated against the wire format it is written for
  (LEB128 numbers, length-prefixed byte strings), given here as \<open>entry_wire\<close>.
\<close>

section \<open>Entries\<close>

definition MAX_KEY_LEN :: nat where "MAX_KEY_LEN = 64"
definition MAX_LOGMSG_ENTRIES :: nat where "MAX_LOGMSG_ENTRIES = 128"

datatype changelog_error = Generic | KeyMismatch | AclDenied | Panic

datatype op_type =
    Op_Insert | Op_Update | Op_Delete | Op_ListInsert | Op_ListUpdate | Op_ListDelete | Op_CreateSpace
  | Op_RefreshKeys | Op_InviteUser | Op_RemoveUser | Op_Extend | Op_Reduce | Op_Rekey | Op_ListAppend
  | Op_Action | Op_Noop

definition ROOT_TREE_PATH :: bytes where "ROOT_TREE_PATH = str ''/''"

record kv_data =
  kv_key :: bytes
  kv_value :: bytes

record log_message =
  lm_op_type :: op_type
  lm_tree_path :: bytes
  lm_entries :: "kv_data list"

record changelog_entry =
  ce_timestamp :: u64
  ce_uid :: u32
  ce_parent_change :: u32
  ce_message :: log_message
  ce_sig_ref :: u32
  ce_parent_clc :: digest
  ce_signature :: bytes

definition to_batch_op :: "kv_data \<Rightarrow> bytes \<Rightarrow> batch_op" where
  "to_batch_op kv key = BPut key (kv_value kv)"

record change =
  ch_entry :: changelog_entry
  ch_hashed_values :: "(digest \<times> bytes) list"

text \<open>\<open>Change::new\<close>; the system clock is the argument \<open>now\<close>.\<close>

definition change_new ::
  "u64 \<Rightarrow> op_type \<Rightarrow> u32 \<Rightarrow> bytes \<Rightarrow> bytes list \<Rightarrow> bytes list \<Rightarrow> u32 \<Rightarrow> u32 \<Rightarrow> digest \<Rightarrow> changelog_error + change"
where
  "change_new now op uid tree_path keys vals parent_change user_previous_change parent_clc =
    (if length keys \<noteq> length vals then Inl Generic
     else if keys = [] then Inl Generic
     else res_bind (map_res (\<lambda>(key, val).
        if MAX_KEY_LEN < length key then Inl Generic
        else Inr \<lparr>kv_key = key, kv_value = (if op = Op_Delete then [] else val)\<rparr>) (zip keys vals)) (\<lambda>entries.
      Inr \<lparr>ch_entry = \<lparr>ce_timestamp = now, ce_uid = uid, ce_parent_change = parent_change,
          ce_message = \<lparr>lm_op_type = op, lm_tree_path = tree_path, lm_entries = entries\<rparr>,
          ce_sig_ref = user_previous_change, ce_parent_clc = parent_clc, ce_signature = []\<rparr>,
        ch_hashed_values = []\<rparr>))"

definition default_entry :: changelog_entry where
  "default_entry = \<lparr>ce_timestamp = 0, ce_uid = 0, ce_parent_change = 0,
    ce_message = \<lparr>lm_op_type = Op_Insert, lm_tree_path = [], lm_entries = [\<lparr>kv_key = [], kv_value = []\<rparr>]\<rparr>,
    ce_sig_ref = 0, ce_parent_clc = 0, ce_signature = []\<rparr>"

fun as_u8 :: "op_type \<Rightarrow> u8" where
  "as_u8 Op_Insert = 0"
| "as_u8 Op_Update = 1"
| "as_u8 Op_Delete = 2"
| "as_u8 Op_ListInsert = 3"
| "as_u8 Op_ListUpdate = 4"
| "as_u8 Op_ListDelete = 5"
| "as_u8 Op_CreateSpace = 6"
| "as_u8 Op_RefreshKeys = 7"
| "as_u8 Op_InviteUser = 8"
| "as_u8 Op_RemoveUser = 9"
| "as_u8 Op_Extend = 10"
| "as_u8 Op_Reduce = 11"
| "as_u8 Op_Rekey = 12"
| "as_u8 Op_ListAppend = 13"
| "as_u8 Op_Action = 14"
| "as_u8 Op_Noop = 15"

definition from_u8 :: "u8 \<Rightarrow> op_type option" where
  "from_u8 v =
    (if v = 0 then Some Op_Insert else if v = 1 then Some Op_Update else if v = 2 then Some Op_Delete
     else if v = 3 then Some Op_ListInsert else if v = 4 then Some Op_ListUpdate
     else if v = 5 then Some Op_ListDelete else if v = 6 then Some Op_CreateSpace
     else if v = 7 then Some Op_RefreshKeys else if v = 8 then Some Op_InviteUser
     else if v = 9 then Some Op_RemoveUser else if v = 10 then Some Op_Extend
     else if v = 11 then Some Op_Reduce else if v = 12 then Some Op_Rekey
     else if v = 13 then Some Op_ListAppend else if v = 14 then Some Op_Action
     else if v = 15 then Some Op_Noop else None)"

section \<open>Paths\<close>

fun path_segments :: "bytes list \<Rightarrow> bytes" where
  "path_segments [] = []"
| "path_segments [s] = s"
| "path_segments (s # ss) = s @ 0x2F # path_segments ss"

definition flatten_path :: "bytes list \<Rightarrow> bytes" where
  "flatten_path path = 0x2F # path_segments path"

definition parse_path :: "bytes \<Rightarrow> changelog_error + bytes list" where
  "parse_path path_bytes = (case path_bytes of
      [] \<Rightarrow> Inl Generic
    | b # rest \<Rightarrow>
        if b \<noteq> 0x2F then Inl Generic
        else if rest = [] then Inr []
        else Inr (split_on 0x2F rest))"

definition get_table_name :: "bytes \<Rightarrow> changelog_error + bytes" where
  "get_table_name path_bytes = res_bind (parse_path path_bytes) (\<lambda>path.
    if length path < 2 then Inl Generic
    else if path ! (length path - 1) \<noteq> str ''rows'' then Inl Generic
    else ok_or Generic (from_utf8 (path ! (length path - 2))))"

section \<open>The entry decoder\<close>

text \<open>\<open>take\<close> adds two \<open>usize\<close> values: beyond the largest \<open>usize\<close> of the target the addition panics or,
  wrapped, leaves a slice whose end is before its start, which panics as well.\<close>

definition dec_take :: "nat \<Rightarrow> bytes \<Rightarrow> nat \<Rightarrow> nat \<Rightarrow> changelog_error + bytes \<times> nat" where
  "dec_take usize_max input off len =
    (if usize_max < off + len then Inl Panic
     else if length input < off + len then Inl Generic
     else Inr (take len (drop off input), off + len))"

function varint_loop :: "nat \<Rightarrow> bytes \<Rightarrow> nat \<Rightarrow> 'w :: len word \<Rightarrow> nat \<Rightarrow> changelog_error + 'w word \<times> nat" where
  "varint_loop limit input off result shift =
    (if length input \<le> off then Inl Generic
     else let byte = input ! off;
              result = result OR push_bit shift (ucast (byte AND 0x7F))
       in if byte AND 0x80 = 0 then Inr (result, off + 1)
          else if limit \<le> shift + 7 then Inl Generic
          else varint_loop limit input (off + 1) result (shift + 7))"
  by pat_completeness auto
termination
  by (relation "measure (\<lambda>(limit, input, off, result, shift). length input - off)") auto

declare varint_loop.simps [simp del]

definition read_varint_u32 :: "bytes \<Rightarrow> nat \<Rightarrow> changelog_error + u32 \<times> nat" where
  "read_varint_u32 input off = varint_loop 35 input off 0 0"

definition read_varint_u64 :: "bytes \<Rightarrow> nat \<Rightarrow> changelog_error + u64 \<times> nat" where
  "read_varint_u64 input off = varint_loop 70 input off 0 0"

definition read_len :: "bytes \<Rightarrow> nat \<Rightarrow> changelog_error + nat \<times> nat" where
  "read_len input off = res_bind (read_varint_u32 input off) (\<lambda>(v, off). Inr (unat v, off))"

definition read_vec_u8 :: "nat \<Rightarrow> bytes \<Rightarrow> nat \<Rightarrow> changelog_error + bytes \<times> nat" where
  "read_vec_u8 usize_max input off =
    res_bind (read_len input off) (\<lambda>(len, off). dec_take usize_max input off len)"

definition skip_vec_u8 :: "nat \<Rightarrow> bytes \<Rightarrow> nat \<Rightarrow> changelog_error + nat" where
  "skip_vec_u8 usize_max input off =
    res_bind (read_len input off) (\<lambda>(len, off).
    res_bind (dec_take usize_max input off len) (\<lambda>(_, off). Inr off))"

definition read_array_32 :: "nat \<Rightarrow> bytes \<Rightarrow> nat \<Rightarrow> changelog_error + digest \<times> nat" where
  "read_array_32 usize_max input off =
    res_bind (dec_take usize_max input off 32) (\<lambda>(d, off). Inr (digest_from_bytes d, off))"

primrec read_kvs :: "nat \<Rightarrow> nat \<Rightarrow> bytes \<Rightarrow> nat \<Rightarrow> changelog_error + kv_data list \<times> nat" where
  "read_kvs usize_max 0 input off = Inr ([], off)"
| "read_kvs usize_max (Suc n) input off =
    res_bind (read_vec_u8 usize_max input off) (\<lambda>(key, off).
    res_bind (read_vec_u8 usize_max input off) (\<lambda>(val, off).
    res_bind (read_kvs usize_max n input off) (\<lambda>(kvs, off).
      Inr (\<lparr>kv_key = key, kv_value = val\<rparr> # kvs, off))))"

definition decode_from_bytes :: "nat \<Rightarrow> bytes \<Rightarrow> bool \<Rightarrow> changelog_error + changelog_entry" where
  "decode_from_bytes usize_max input include_signature =
    res_bind (read_varint_u64 input 0) (\<lambda>(timestamp, off).
    res_bind (read_varint_u32 input off) (\<lambda>(uid, off).
    res_bind (read_varint_u32 input off) (\<lambda>(parent_change, off).
    res_bind (read_varint_u32 input off) (\<lambda>(op_type_u32, off).
    if 255 < op_type_u32 then Inl Generic
    else res_bind (ok_or Generic (from_u8 (ucast op_type_u32))) (\<lambda>op.
    res_bind (read_vec_u8 usize_max input off) (\<lambda>(tree_path, off).
    res_bind (read_len input off) (\<lambda>(entries_len, off).
    res_bind (read_kvs usize_max entries_len input off) (\<lambda>(entries, off).
    res_bind (read_varint_u32 input off) (\<lambda>(sig_ref, off).
    res_bind (read_array_32 usize_max input off) (\<lambda>(parent_clc, off).
    res_bind (if include_signature then read_vec_u8 usize_max input off
      else res_bind (skip_vec_u8 usize_max input off) (\<lambda>off. Inr ([], off))) (\<lambda>(signature, off).
    if off \<noteq> length input then Inl Generic
    else Inr \<lparr>ce_timestamp = timestamp, ce_uid = uid, ce_parent_change = parent_change,
      ce_message = \<lparr>lm_op_type = op, lm_tree_path = tree_path, lm_entries = entries\<rparr>,
      ce_sig_ref = sig_ref, ce_parent_clc = parent_clc, ce_signature = signature\<rparr>)))))))))))"

definition from_bytes_for_verification :: "nat \<Rightarrow> bytes \<Rightarrow> changelog_error + changelog_entry" where
  "from_bytes_for_verification usize_max bs = decode_from_bytes usize_max bs False"

section \<open>The flat entry blob\<close>

record flat_entry_bytes =
  fe_bytes :: bytes
  fe_ends :: "u32 list"

fun monotonic_from :: "u32 \<Rightarrow> u32 list \<Rightarrow> bool" where
  "monotonic_from prev [] = True"
| "monotonic_from prev (e # ends) = (\<not> e < prev \<and> monotonic_from e ends)"

definition flat_new :: "bytes \<Rightarrow> u32 list \<Rightarrow> changelog_error + flat_entry_bytes" where
  "flat_new bs entry_ends =
    (if \<not> monotonic_from 0 entry_ends then Inl Generic
     else if entry_ends \<noteq> [] then
       (if unat (last entry_ends) \<noteq> length bs then Inl Generic
        else Inr \<lparr>fe_bytes = bs, fe_ends = entry_ends\<rparr>)
     else if bs \<noteq> [] then Inl Generic
     else Inr \<lparr>fe_bytes = bs, fe_ends = entry_ends\<rparr>)"

text \<open>\<open>entry\<close>: the outer option is a panic of the slice, the inner one the index check.\<close>

definition flat_entry :: "flat_entry_bytes \<Rightarrow> nat \<Rightarrow> bytes option option" where
  "flat_entry f index =
    (if length (fe_ends f) \<le> index then Some None
     else let start = (if index = 0 then 0 else unat (fe_ends f ! (index - 1)));
              stop = unat (fe_ends f ! index)
       in if start \<le> stop \<and> stop \<le> length (fe_bytes f) then Some (Some (slice (fe_bytes f) start stop)) else None)"

section \<open>The wire format\<close>

fun varint_bytes :: "nat \<Rightarrow> bytes" where
  "varint_bytes n = (if n < 128 then [of_nat n] else of_nat (n mod 128 + 128) # varint_bytes (n div 128))"

declare varint_bytes.simps [simp del]

definition vec_wire :: "bytes \<Rightarrow> bytes" where
  "vec_wire bs = varint_bytes (length bs) @ bs"

fun kvs_wire :: "kv_data list \<Rightarrow> bytes" where
  "kvs_wire [] = []"
| "kvs_wire (kv # kvs) = vec_wire (kv_key kv) @ vec_wire (kv_value kv) @ kvs_wire kvs"

definition entry_wire :: "changelog_entry \<Rightarrow> bytes" where
  "entry_wire e =
    varint_bytes (unat (ce_timestamp e)) @ varint_bytes (unat (ce_uid e)) @
    varint_bytes (unat (ce_parent_change e)) @ varint_bytes (unat (as_u8 (lm_op_type (ce_message e)))) @
    vec_wire (lm_tree_path (ce_message e)) @
    varint_bytes (length (lm_entries (ce_message e))) @ kvs_wire (lm_entries (ce_message e)) @
    varint_bytes (unat (ce_sig_ref e)) @ digest_bytes (ce_parent_clc e) @ vec_wire (ce_signature e)"

lemma u8_high_bit: "(of_nat m :: u8) AND 0x80 = 0 \<longleftrightarrow> \<not> bit m 7"
proof -
  have "(of_nat m :: u8) AND 2 ^ 7 = 0 \<longleftrightarrow> \<not> bit (of_nat m :: u8) 7"
    by (rule and_exp_eq_0_iff_not_bit)
  then show ?thesis
    by (simp add: bit_of_nat_iff possible_bit_word)
qed

lemma u8_low_bits: "(of_nat m :: u8) AND 0x7F = of_nat (m mod 128)"
proof -
  have "(of_nat m :: u8) AND 0x7F = take_bit 7 (of_nat m)"
    by (simp add: take_bit_eq_mask mask_eq_exp_minus_1)
  also have "\<dots> = of_nat (take_bit 7 m)"
    by (rule bit_word_eqI) (auto simp: bit_take_bit_iff bit_of_nat_iff possible_bit_word)
  finally show ?thesis
    by (simp add: take_bit_eq_mod)
qed

lemma varint_split:
  "(of_nat n :: 'w :: len word) = of_nat (n mod 128) OR push_bit 7 (of_nat (n div 128))"
proof (rule bit_word_eqI)
  fix i
  assume "i < LENGTH('w)"
  moreover have "n mod 128 = take_bit 7 n" "n div 128 = drop_bit 7 n"
    by (simp_all add: take_bit_eq_mod drop_bit_eq_div)
  ultimately show "bit (of_nat n :: 'w word) i \<longleftrightarrow>
      bit (of_nat (n mod 128) OR push_bit 7 (of_nat (n div 128)) :: 'w word) i"
    by (auto simp: bit_or_iff bit_push_bit_iff bit_of_nat_iff possible_bit_word bit_take_bit_iff bit_drop_bit_eq)
qed

lemma ucast_low_bits: "(ucast ((of_nat m :: u8) AND 0x7F) :: 'w :: len word) = of_nat (m mod 128)"
proof -
  have "m mod 128 < 256"
    by (rule less_trans [of _ 128]) simp_all
  then show ?thesis
    unfolding u8_low_bits by (simp add: unsigned_of_nat take_bit_nat_eq_self)
qed

lemma varint_loop_at:
  assumes "input = pre @ varint_bytes n @ post" and "shift < limit" and "n < 2 ^ (limit - shift)"
  shows "varint_loop limit input (length pre) acc shift =
    Inr (acc OR push_bit shift (of_nat n :: 'w :: len word), length pre + length (varint_bytes n))"
  using assms
proof (induction n arbitrary: pre acc shift rule: varint_bytes.induct)
  case (1 n)
  show ?case
  proof (cases "n < 128")
    case True
    then have "\<not> bit n 7"
      by (simp add: bit_iff_odd)
    then show ?thesis
      using True "1.prems"(1) ucast_low_bits [of n, where 'w = 'w]
      by (simp add: varint_loop.simps [of _ _ "length pre"] varint_bytes.simps [of n] u8_high_bit Let_def)
  next
    case False
    let ?b = "of_nat (n mod 128 + 128) :: u8"
    have input: "input = (pre @ [?b]) @ varint_bytes (n div 128) @ post"
      using "1.prems"(1) False by (simp add: varint_bytes.simps [of n])
    have "7 < limit - shift"
      using False "1.prems"(3) power_increasing [of "limit - shift" 7 "2 :: nat"] by (cases "7 < limit - shift") auto
    then have shift: "shift + 7 < limit"
      by simp
    have "n < 2 ^ (limit - (shift + 7)) * 128"
      using "1.prems"(3) shift power_add [of "2 :: nat" "limit - (shift + 7)" 7] by simp
    then have "n div 128 < 2 ^ (limit - (shift + 7))"
      by (simp add: less_mult_imp_div_less)
    note IH = "1.IH" [OF False input shift this, of "acc OR push_bit shift (of_nat (n mod 128))"]
    have "(n mod 128 + 128) div 128 = 1"
      by (simp add: div_add_self2)
    then have "bit (n mod 128 + 128) 7"
      by (simp add: bit_iff_odd)
    then have "?b AND 0x80 \<noteq> 0"
      unfolding u8_high_bit by simp
    moreover have "(ucast (?b AND 0x7F) :: 'w word) = of_nat (n mod 128)"
      unfolding ucast_low_bits by simp
    ultimately have "varint_loop limit input (length pre) acc shift =
        varint_loop limit input (length (pre @ [?b])) (acc OR push_bit shift (of_nat (n mod 128))) (shift + 7)"
      using shift by (subst varint_loop.simps) (simp add: input nth_append Let_def)
    moreover have "(acc OR push_bit shift (of_nat (n mod 128))) OR push_bit (shift + 7) (of_nat (n div 128)) =
        acc OR push_bit shift (of_nat n :: 'w word)"
      unfolding varint_split [of n] by (simp add: push_bit_or push_bit_push_bit or.assoc)
    ultimately show ?thesis
      unfolding IH using False by (simp add: varint_bytes.simps [of n])
  qed
qed

lemma read_varint_at:
  "input = pre @ varint_bytes (unat (w :: u32)) @ post \<Longrightarrow>
    read_varint_u32 input (length pre) = Inr (w, length pre + length (varint_bytes (unat w)))"
  "input = pre @ varint_bytes (unat (v :: u64)) @ post \<Longrightarrow>
    read_varint_u64 input (length pre) = Inr (v, length pre + length (varint_bytes (unat v)))"
  using varint_loop_at [of input pre "unat w" post 0 35 "0 :: u32"] varint_loop_at [of input pre "unat v" post 0 70 "0 :: u64"]
    unsigned_less [of w, where 'a = nat] unsigned_less [of v, where 'a = nat]
  by (simp_all add: read_varint_u32_def read_varint_u64_def)

lemma read_len_at:
  assumes "input = pre @ varint_bytes n @ post" and "n < 2 ^ 32"
  shows "read_len input (length pre) = Inr (n, length pre + length (varint_bytes n))"
  using assms read_varint_at(1) [of input pre "of_nat n" post] by (simp add: read_len_def unat_of_nat)

lemma dec_take_at:
  "input = pre @ x @ post \<Longrightarrow> length input \<le> usize_max \<Longrightarrow>
    dec_take usize_max input (length pre) (length x) = Inr (x, length pre + length x)"
  by (simp add: dec_take_def)

lemma read_vec_u8_at:
  assumes "input = pre @ vec_wire x @ post" and "length input \<le> usize_max" and "length x < 2 ^ 32"
  shows "read_vec_u8 usize_max input (length pre) = Inr (x, length pre + length (vec_wire x))"
  using assms read_len_at [of input pre "length x" "x @ post"]
    dec_take_at [of input "pre @ varint_bytes (length x)" x post usize_max]
  by (simp add: read_vec_u8_def vec_wire_def)

lemma skip_vec_u8_at:
  assumes "input = pre @ vec_wire x @ post" and "length input \<le> usize_max" and "length x < 2 ^ 32"
  shows "skip_vec_u8 usize_max input (length pre) = Inr (length pre + length (vec_wire x))"
  using assms read_len_at [of input pre "length x" "x @ post"]
    dec_take_at [of input "pre @ varint_bytes (length x)" x post usize_max]
  by (simp add: skip_vec_u8_def vec_wire_def)

lemma read_array_32_at:
  assumes "input = pre @ digest_bytes d @ post" and "length input \<le> usize_max"
  shows "read_array_32 usize_max input (length pre) = Inr (d, length pre + length (digest_bytes d))"
  using dec_take_at [OF assms] digest_bytes_round_trip [of d] by (simp add: read_array_32_def)

lemma read_kvs_at:
  assumes "input = pre @ kvs_wire kvs @ post" and "length input \<le> usize_max"
    and "\<forall>kv \<in> set kvs. length (kv_key kv) < 2 ^ 32 \<and> length (kv_value kv) < 2 ^ 32"
  shows "read_kvs usize_max (length kvs) input (length pre) = Inr (kvs, length pre + length (kvs_wire kvs))"
  using assms
proof (induction kvs arbitrary: pre)
  case (Cons kv kvs)
  let ?k = "vec_wire (kv_key kv)" and ?v = "vec_wire (kv_value kv)"
  have "read_vec_u8 usize_max input (length pre) = Inr (kv_key kv, length (pre @ ?k))"
    using read_vec_u8_at [of input pre "kv_key kv" _ usize_max] Cons.prems by simp
  moreover have "read_vec_u8 usize_max input (length (pre @ ?k)) = Inr (kv_value kv, length (pre @ ?k @ ?v))"
    using read_vec_u8_at [of input "pre @ ?k" "kv_value kv" _ usize_max] Cons.prems by simp
  moreover have "read_kvs usize_max (length kvs) input (length (pre @ ?k @ ?v)) =
      Inr (kvs, length pre + length (kvs_wire (kv # kvs)))"
    using Cons.IH [of "pre @ ?k @ ?v"] Cons.prems by simp
  ultimately show ?case
    by simp
qed simp

lemma from_u8_as_u8 [simp]: "from_u8 (as_u8 op) = Some op"
  by (cases op) (simp_all add: from_u8_def)

lemma from_u8_iff: "from_u8 v = Some op \<longleftrightarrow> v = as_u8 op"
  by (auto simp: from_u8_def split: if_splits) (cases op; simp)+

definition entry_sized :: "changelog_entry \<Rightarrow> bool" where
  "entry_sized e \<longleftrightarrow> length (lm_tree_path (ce_message e)) < 2 ^ 32 \<and> length (lm_entries (ce_message e)) < 2 ^ 32 \<and>
    (\<forall>kv \<in> set (lm_entries (ce_message e)). length (kv_key kv) < 2 ^ 32 \<and> length (kv_value kv) < 2 ^ 32) \<and>
    length (ce_signature e) < 2 ^ 32"

lemma op_type_varint:
  "unat (as_u8 op) = unat (ucast (as_u8 op) :: u32)" "\<not> 255 < (ucast (as_u8 op) :: u32)"
  "ucast (ucast (as_u8 op) :: u32) = as_u8 op"
  by (cases op; simp)+

lemma decode_entry_wire:
  assumes "entry_sized e" and len: "length (entry_wire e) \<le> usize_max"
  shows "decode_from_bytes usize_max (entry_wire e) include_signature =
    Inr (if include_signature then e else e\<lparr>ce_signature := []\<rparr>)"
proof -
  let ?m = "ce_message e"
  let ?w = "entry_wire e"
  let ?a = "varint_bytes (unat (ce_timestamp e))"
  let ?b = "?a @ varint_bytes (unat (ce_uid e))"
  let ?c = "?b @ varint_bytes (unat (ce_parent_change e))"
  let ?d = "?c @ varint_bytes (unat (ucast (as_u8 (lm_op_type ?m)) :: u32))"
  let ?e = "?d @ vec_wire (lm_tree_path ?m)"
  let ?f = "?e @ varint_bytes (length (lm_entries ?m))"
  let ?g = "?f @ kvs_wire (lm_entries ?m)"
  let ?h = "?g @ varint_bytes (unat (ce_sig_ref e))"
  let ?i = "?h @ digest_bytes (ce_parent_clc e)"
  note wire = entry_wire_def [of e] op_type_varint(1) and sized = assms(1) [unfolded entry_sized_def]
  have "read_varint_u64 ?w 0 = Inr (ce_timestamp e, length ?a)"
    using read_varint_at(2) [of ?w "[]"] by (simp add: wire)
  moreover have "read_varint_u32 ?w (length ?a) = Inr (ce_uid e, length ?b)"
    using read_varint_at(1) [of ?w ?a] by (simp add: wire)
  moreover have "read_varint_u32 ?w (length ?b) = Inr (ce_parent_change e, length ?c)"
    using read_varint_at(1) [of ?w ?b] by (simp add: wire)
  moreover have "read_varint_u32 ?w (length ?c) = Inr (ucast (as_u8 (lm_op_type ?m)), length ?d)"
    using read_varint_at(1) [of ?w ?c] by (simp add: wire)
  moreover have "read_vec_u8 usize_max ?w (length ?d) = Inr (lm_tree_path ?m, length ?e)"
    using read_vec_u8_at [of ?w ?d _ _ usize_max] sized len by (simp add: wire)
  moreover have "read_len ?w (length ?e) = Inr (length (lm_entries ?m), length ?f)"
    using read_len_at [of ?w ?e] sized by (simp add: wire)
  moreover have "read_kvs usize_max (length (lm_entries ?m)) ?w (length ?f) = Inr (lm_entries ?m, length ?g)"
    using read_kvs_at [of ?w ?f _ _ usize_max] sized len by (simp add: wire)
  moreover have "read_varint_u32 ?w (length ?g) = Inr (ce_sig_ref e, length ?h)"
    using read_varint_at(1) [of ?w ?g] by (simp add: wire)
  moreover have "read_array_32 usize_max ?w (length ?h) = Inr (ce_parent_clc e, length ?i)"
    using read_array_32_at [of ?w ?h _ _ usize_max] len by (simp add: wire)
  moreover have "read_vec_u8 usize_max ?w (length ?i) = Inr (ce_signature e, length ?w)"
    using read_vec_u8_at [of ?w ?i _ "[]" usize_max] sized len by (simp add: wire)
  moreover have "skip_vec_u8 usize_max ?w (length ?i) = Inr (length ?w)"
    using skip_vec_u8_at [of ?w ?i _ "[]" usize_max] sized len by (simp add: wire)
  ultimately show ?thesis
    by (simp add: decode_from_bytes_def op_type_varint(2,3))
qed

text \<open>C39: the hand-written entry decoder inverts the wire format: on the bytes of any entry whose lengths
  fit 32 bits it returns that entry, and in the verifier's mode the entry without its signature.  It
  neither fails nor panics there, on 32-bit and 64-bit targets alike.\<close>

theorem entry_decoder_round_trip:
  assumes "entry_sized e" and len: "length (entry_wire e) \<le> usize_max"
  shows "decode_from_bytes usize_max (entry_wire e) include_signature =
    Inr (if include_signature then e else e\<lparr>ce_signature := []\<rparr>)"
  using assms by (rule decode_entry_wire)

theorem entry_decoder_round_trip_witness:
  "decode_from_bytes 4294967295 (entry_wire (default_entry\<lparr>ce_signature := [7]\<rparr>)) False = Inr default_entry"
proof -
  let ?e = "default_entry\<lparr>ce_signature := [7]\<rparr>"
  have "entry_sized ?e" and "length (entry_wire ?e) \<le> 4294967295"
    by (simp_all add: entry_sized_def default_entry_def entry_wire_def vec_wire_def varint_bytes.simps digest_bytes_def)
  from entry_decoder_round_trip [OF this, of False] show ?thesis
    by (simp add: default_entry_def)
qed

text \<open>the variable-length decoder accepts encodings that are not canonical.  A number may be padded
  with continuation bytes, and the bits of a fifth byte that do not fit 32 bits are dropped instead of
  rejected, so different bytes decode to the same number.\<close>

theorem varint_not_canonical:
  "read_varint_u32 [0x80, 0x00] 0 = Inr (0, 2) \<and> read_varint_u32 [0x00] 0 = Inr (0, 1) \<and>
   read_varint_u32 [0xFF, 0xFF, 0xFF, 0xFF, 0x7F] 0 = Inr (0xFFFFFFFF, 5) \<and>
   read_varint_u32 [0xFF, 0xFF, 0xFF, 0xFF, 0x0F] 0 = Inr (0xFFFFFFFF, 5)"
  by (simp add: read_varint_u32_def varint_loop.simps Let_def)

section \<open>Flat blobs and paths\<close>

fun cut_at :: "bytes \<Rightarrow> nat \<Rightarrow> nat list \<Rightarrow> bytes list" where
  "cut_at bs s [] = []"
| "cut_at bs s (e # es) = slice bs s e # cut_at bs e es"

lemma slice_append:
  assumes "s \<le> e" and "e \<le> t"
  shows "slice bs s e @ slice bs e t = slice bs s t"
proof -
  have t: "t - s = (e - s) + (t - e)"
    using assms by simp
  show ?thesis
    unfolding slice_def t take_add using assms by simp
qed

lemma concat_cut_at:
  "sorted (s # es) \<Longrightarrow> concat (cut_at bs s es) = slice bs s (last (s # es))"
  by (induction es arbitrary: s) (auto simp: slice_append)

lemma length_cut_at [simp]: "length (cut_at bs s es) = length es"
  by (induction es arbitrary: s) auto

lemma nth_cut_at: "i < length es \<Longrightarrow> cut_at bs s es ! i = slice bs ((s # es) ! i) (es ! i)"
proof (induction es arbitrary: s i)
  case (Cons e es)
  then show ?case
    by (cases i) auto
qed simp

lemma monotonic_from_sorted: "monotonic_from prev ends \<longleftrightarrow> sorted (unat prev # map unat ends)"
  by (induction prev ends rule: monotonic_from.induct) (auto simp: not_less word_le_nat_alt intro: order_trans)

lemma flat_entry_cut:
  assumes "flat_new bs ends = Inr f"
  defines "es \<equiv> cut_at bs 0 (map unat ends)"
  shows "concat es = bs" and "flat_entry f i = Some (if i < length ends then Some (es ! i) else None)"
proof -
  let ?cuts = "map unat ends"
  have f: "f = \<lparr>fe_bytes = bs, fe_ends = ends\<rparr>" and sorted: "sorted (0 # ?cuts)"
    and last: "length bs = last (0 # ?cuts)"
    using assms(1) by (auto simp: flat_new_def monotonic_from_sorted last_map split: if_splits)
  show "concat es = bs"
    using concat_cut_at [OF sorted, of bs] last by (simp add: es_def slice_def)
  show "flat_entry f i = Some (if i < length ends then Some (es ! i) else None)"
  proof (cases "i < length ends")
    case True
    let ?start = "(0 # ?cuts) ! i"
    have "?start \<le> ?cuts ! i"
      using sorted True by (cases i) (auto simp: sorted_iff_nth_mono simp del: nth_map)
    moreover have "?cuts ! i \<le> length bs"
      unfolding last using sorted True by (auto simp: last_conv_nth sorted_iff_nth_mono simp del: nth_map)
    moreover have "(if i = 0 then 0 else unat (ends ! (i - 1))) = ?start"
      using True by (cases i) auto
    ultimately show ?thesis
      using True nth_cut_at [of i ?cuts bs 0] by (cases i) (simp_all add: es_def flat_entry_def f Let_def)
  qed (simp add: f flat_entry_def)
qed

text \<open>C40: a flat blob that passes its offset checks is the concatenation of its entries, and reading an
  entry by index never panics: it returns the entry inside the range and nothing outside.\<close>

theorem flat_entries_partition:
  assumes "flat_new bs ends = Inr f"
  shows "\<exists>es. concat es = bs \<and> length es = length ends \<and>
    (\<forall>i. flat_entry f i = Some (if i < length ends then Some (es ! i) else None))"
  using flat_entry_cut [OF assms] by (intro exI [of _ "cut_at bs 0 (map unat ends)"]) simp

theorem flat_entries_partition_witness:
  "\<exists>es. concat es = [1, 2, 3 :: u8] \<and> length es = length [2, 2, 3 :: u32] \<and>
    (\<forall>i. flat_entry \<lparr>fe_bytes = [1, 2, 3], fe_ends = [2, 2, 3]\<rparr> i =
      Some (if i < length [2, 2, 3 :: u32] then Some (es ! i) else None))"
  by (rule flat_entries_partition) (simp add: flat_new_def)

lemma split_path_segments:
  "\<forall>s \<in> set (p # ps). 0x2F \<notin> set s \<Longrightarrow> split_on 0x2F (path_segments (p # ps)) = p # ps"
  by (induction ps arbitrary: p) (simp_all add: split_on_no_sep split_on_sep)

text \<open>parsing inverts flattening for every path whose segments have no slash, except the path that
  consists of one empty segment, which flattens to the root path.\<close>

theorem path_round_trip:
  assumes "\<forall>s \<in> set path. 0x2F \<notin> set s"
  shows "parse_path (flatten_path path) = Inr (if path = [[]] then [] else path)"
proof (cases path)
  case (Cons p ps)
  have "path_segments (p # ps) = [] \<longleftrightarrow> p = [] \<and> ps = []"
    by (cases ps) auto
  then show ?thesis
    using Cons assms split_path_segments [of p ps] by (auto simp: flatten_path_def parse_path_def)
qed (simp add: flatten_path_def parse_path_def)

theorem path_round_trip_witness:
  "parse_path (flatten_path [str ''notes'', str ''rows'']) = Inr [str ''notes'', str ''rows'']"
  using path_round_trip [of "[str ''notes'', str ''rows'']"] by (simp add: str_def)

end
