(* ===== verification/Op_Monad.thy ===== *)
theory Op_Monad
  imports Changelog_Entry Access_Control
begin

text \<open>
  The interface between operations and the state they validate against: the readers, contexts and
  metadata cache of \<open>ffproof/changelog_core/src/ops/mod.rs\<close> and the pruned-tree reader of
  \<open>changelog.rs\<close>.

  An operation asks its reader for keys and ranges one at a time and decides on each answer what to
  ask next.  It is modelled as a value of \<open>'a read_prog\<close>: finished, failed, or asking with a
  continuation for the answer; the metadata cache that operations share is passed through as state.
  The readers of the code (\<open>ProverReader\<close>, \<open>VerifierReader\<close>, \<open>PrunedTreeReader\<close>) are the functions
  that run such a program.

  The lemmas hold for every program, hence for every operation: a verifier that replays the reads a
  prover logged computes the prover's result, and a program run on a pruned tree with the committed
  root hash computes what it computes on the committed store.
\<close>

section \<open>Programs that read\<close>

datatype 'a read_prog = Done 'a | Fail changelog_error | Ask read_op "proven_read \<Rightarrow> 'a read_prog"

primrec rp_bind :: "'a read_prog \<Rightarrow> ('a \<Rightarrow> 'b read_prog) \<Rightarrow> 'b read_prog" where
  "rp_bind (Done a) f = f a"
| "rp_bind (Fail e) f = Fail e"
| "rp_bind (Ask op k) f = Ask op (\<lambda>r. rp_bind (k r) f)"

definition rp_lift :: "changelog_error + 'a \<Rightarrow> 'a read_prog" where
  "rp_lift r = (case r of Inl e \<Rightarrow> Fail e | Inr a \<Rightarrow> Done a)"

section \<open>Context and metadata cache\<close>

record op_verify_result =
  write_steps :: "trace_step list"

record meta_cache =
  mc_schema_columns :: "bytes \<rightharpoonup> bytes list"
  mc_schema_list_columns :: "bytes \<rightharpoonup> bytes list"
  mc_schema_indexes :: "bytes \<rightharpoonup> bytes list"
  mc_acl_rules :: "bytes \<times> bytes \<rightharpoonup> access_rule option"
  mc_actions :: "bytes \<times> bytes \<rightharpoonup> action option"
  mc_only_via_actions :: "bytes \<times> bytes \<rightharpoonup> bytes list option"
  mc_auto_increment :: "bytes \<rightharpoonup> bool"

definition cache_clear :: "meta_cache \<Rightarrow> meta_cache" where
  "cache_clear c = \<lparr>mc_schema_columns = Map.empty, mc_schema_list_columns = Map.empty,
    mc_schema_indexes = Map.empty, mc_acl_rules = Map.empty, mc_actions = Map.empty,
    mc_only_via_actions = Map.empty, mc_auto_increment = Map.empty\<rparr>"

definition cache_default :: meta_cache where
  "cache_default = \<lparr>mc_schema_columns = Map.empty, mc_schema_list_columns = Map.empty,
    mc_schema_indexes = Map.empty, mc_acl_rules = Map.empty, mc_actions = Map.empty,
    mc_only_via_actions = Map.empty, mc_auto_increment = Map.empty\<rparr>"

definition static_metadata_cache_invalidated_by :: "op_type \<Rightarrow> bool" where
  "static_metadata_cache_invalidated_by op \<longleftrightarrow>
    op \<in> {Op_CreateSpace, Op_InviteUser, Op_RemoveUser, Op_RefreshKeys, Op_Extend, Op_Reduce, Op_Rekey}"

text \<open>The cache of a context is shared by reference between a context and the contexts of its action
  legs; it is therefore not part of the record but passed through the programs.\<close>

record op_context =
  cx_current_change_id :: nat
  cx_action_name :: "bytes option"

definition for_change_id :: "nat \<Rightarrow> op_context" where
  "for_change_id current_change_id = \<lparr>cx_current_change_id = current_change_id, cx_action_name = None\<rparr>"

definition for_change_sequence :: op_context where
  "for_change_sequence = for_change_id 0"

definition begin_change :: "op_context \<Rightarrow> nat \<Rightarrow> op_context" where
  "begin_change ctx current_change_id = ctx\<lparr>cx_current_change_id := current_change_id, cx_action_name := None\<rparr>"

definition finish_change :: "op_type \<Rightarrow> meta_cache \<Rightarrow> meta_cache" where
  "finish_change op cache = (if static_metadata_cache_invalidated_by op then cache_clear cache else cache)"

definition for_action_leg :: "op_context \<Rightarrow> bytes \<Rightarrow> op_context" where
  "for_action_leg ctx name = \<lparr>cx_current_change_id = cx_current_change_id ctx, cx_action_name = Some name\<rparr>"

section \<open>Readers\<close>

type_synonym reader = "read_op \<Rightarrow> changelog_error + proven_read"

primrec run_reader :: "reader \<Rightarrow> 'a read_prog \<Rightarrow> changelog_error + 'a" where
  "run_reader read (Done a) = Inr a"
| "run_reader read (Fail e) = Inl e"
| "run_reader read (Ask op k) = (case read op of Inl e \<Rightarrow> Inl e | Inr r \<Rightarrow> run_reader read (k r))"

text \<open>\<open>ProverReader\<close>: the reads are logged in order, including one that fails.\<close>

primrec run_prover :: "reader \<Rightarrow> 'a read_prog \<Rightarrow> read_op list \<Rightarrow> read_op list \<times> (changelog_error + 'a)" where
  "run_prover resolver (Done a) logged_reads = (logged_reads, Inr a)"
| "run_prover resolver (Fail e) logged_reads = (logged_reads, Inl e)"
| "run_prover resolver (Ask op k) logged_reads =
    (case resolver op of
       Inl e \<Rightarrow> (logged_reads @ [op], Inl e)
     | Inr r \<Rightarrow> run_prover resolver (k r) (logged_reads @ [op]))"

text \<open>\<open>VerifierReader\<close>: replays proven reads from a cursor.\<close>

definition verifier_read :: "proven_read list \<Rightarrow> nat \<Rightarrow> read_op \<Rightarrow> changelog_error + proven_read \<times> nat" where
  "verifier_read reads cursor op =
    (if length reads \<le> cursor then Inl Generic
     else if pr_op (reads ! cursor) \<noteq> op then Inl Generic
     else Inr (reads ! cursor, cursor + 1))"

primrec run_verifier :: "proven_read list \<Rightarrow> 'a read_prog \<Rightarrow> nat \<Rightarrow> changelog_error + 'a \<times> nat" where
  "run_verifier reads (Done a) cursor = Inr (a, cursor)"
| "run_verifier reads (Fail e) cursor = Inl e"
| "run_verifier reads (Ask op k) cursor =
    (case verifier_read reads cursor op of Inl e \<Rightarrow> Inl e | Inr (r, cursor) \<Rightarrow> run_verifier reads (k r) cursor)"

definition assert_all_consumed :: "proven_read list \<Rightarrow> nat \<Rightarrow> changelog_error + unit" where
  "assert_all_consumed reads cursor = (if cursor < length reads then Inl Generic else Inr ())"

text \<open>\<open>PrunedTreeReader\<close>.\<close>

definition read_from_pruned_tree :: "(bytes \<Rightarrow> bytes \<Rightarrow> digest option) \<Rightarrow> merk_node \<Rightarrow> reader" where
  "read_from_pruned_tree kv_hash tree op =
    res_bind (case op of
        ReadKey key \<Rightarrow>
          (case lookup_value_verified kv_hash tree key of
             None \<Rightarrow> Inl Panic
           | Some (Found val) \<Rightarrow> Inr [(key, val)]
           | Some NotFound \<Rightarrow> Inr []
           | Some HitPruned \<Rightarrow> Inl Generic)
      | ReadPrefix p \<Rightarrow> ok_or Panic (collect_range kv_hash tree p (prefix_successor p))
      | ReadRange start end_key \<Rightarrow> ok_or Panic (collect_range kv_hash tree start (Some end_key)))
      (\<lambda>results. Inr \<lparr>pr_op = op, pr_results = results\<rparr>)"

definition run_pruned :: "(bytes \<Rightarrow> bytes \<Rightarrow> digest option) \<Rightarrow> merk_node \<Rightarrow> 'a read_prog \<Rightarrow> changelog_error + 'a" where
  "run_pruned kv_hash tree p = run_reader (read_from_pruned_tree kv_hash tree) p"

text \<open>What the readers stand for: a program run on the entries of a store.\<close>

definition store_read :: "(bytes \<times> bytes) list \<Rightarrow> reader" where
  "store_read kvs op = Inr (answer kvs \<lparr>pr_op = op, pr_results = []\<rparr>)"

definition run_store :: "(bytes \<times> bytes) list \<Rightarrow> 'a read_prog \<Rightarrow> changelog_error + 'a" where
  "run_store kvs p = run_reader (store_read kvs) p"

section \<open>Laws of programs\<close>

lemma rp_bind_assoc: "rp_bind (rp_bind p f) g = rp_bind p (\<lambda>a. rp_bind (f a) g)"
  by (induction p) simp_all

lemma rp_bind_Done [simp]: "rp_bind p Done = p"
  by (induction p) simp_all

lemma run_reader_bind:
  "run_reader read (rp_bind p f) = res_bind (run_reader read p) (\<lambda>a. run_reader read (f a))"
  by (induction p) (auto split: sum.splits)

lemma run_reader_lift [simp]: "run_reader read (rp_lift r) = r"
  by (cases r) (simp_all add: rp_lift_def)

lemma rp_lift_simps [simp]:
  "rp_lift (Inl e) = Fail e"
  "rp_lift (Inr a) = Done a"
  by (simp_all add: rp_lift_def)

lemma run_store_simps [simp]:
  "run_store kvs (Done a) = Inr a"
  "run_store kvs (Fail e) = Inl e"
  "run_store kvs (Ask op k) = run_store kvs (k (answer kvs \<lparr>pr_op = op, pr_results = []\<rparr>))"
  "run_store kvs (rp_bind p f) = res_bind (run_store kvs p) (\<lambda>a. run_store kvs (f a))"
  "run_store kvs (rp_lift r) = r"
  by (simp_all add: run_store_def store_read_def run_reader_bind)

section \<open>Prover and verifier agree\<close>

definition answers_of :: "reader \<Rightarrow> read_op list \<Rightarrow> proven_read list" where
  "answers_of read ops = map (\<lambda>op. projr (read op)) ops"

text \<open>The contract of a reader: an answer names the read it answers.  Whatever program is run, a verifier
  that is given the reader's answers to the logged reads, in order, replays the prover's run.\<close>

locale op_reader =
  fixes read :: reader
  assumes answers_question: "read op = Inr r \<Longrightarrow> pr_op r = op"
begin

lemma prover_result: "snd (run_prover read p acc) = run_reader read p"
  by (induction p arbitrary: acc) (simp_all split: sum.splits)

lemma replay_from:
  assumes "run_prover read p acc = (log, Inr a)"
  shows "\<exists>new. log = acc @ new \<and>
    (\<forall>post. run_verifier (answers_of read (log @ post)) p (length acc) = Inr (a, length log))"
  using assms
proof (induction p arbitrary: acc)
  case (Ask op k)
  then obtain r where r: "read op = Inr r" and "run_prover read (k r) (acc @ [op]) = (log, Inr a)"
    by (auto split: sum.splits)
  from Ask.IH [OF rangeI this(2)] obtain new where log: "log = (acc @ [op]) @ new"
      and run: "\<And>post. run_verifier (answers_of read (log @ post)) (k r) (Suc (length acc)) = Inr (a, length log)"
    by auto
  have "verifier_read (answers_of read (log @ post)) (length acc) op = Inr (r, Suc (length acc))" for post
    using r answers_question [OF r] by (simp add: verifier_read_def answers_of_def log nth_append)
  then show ?case
    using run log by auto
qed auto

lemma verifier_replays_prover:
  assumes "run_prover read p [] = (log, Inr a)"
  shows "run_verifier (answers_of read log) p 0 = Inr (a, length log) \<and>
    assert_all_consumed (answers_of read log) (length log) = Inr ()"
  using replay_from [OF assms] by (auto simp: answers_of_def assert_all_consumed_def dest: spec [of _ "[]"])

lemma verified_run_is_honest:
  assumes "\<forall>r \<in> set reads. read (pr_op r) = Inr r" and "run_verifier reads p cursor = Inr (a, cursor')"
  shows "run_reader read p = Inr a"
  using assms(2)
proof (induction p arbitrary: cursor)
  case (Ask op k)
  then obtain r where "r \<in> set reads" and "pr_op r = op"
      and "run_verifier reads (k r) (cursor + 1) = Inr (a, cursor')"
    by (auto simp: verifier_read_def not_le split: if_splits intro: nth_mem)
  then show ?case
    using Ask.IH [of "k r"] assms(1) by auto
qed auto

end

interpretation pruned: op_reader "read_from_pruned_tree kv_hash tree" for kv_hash tree
  by unfold_locales (auto simp: read_from_pruned_tree_def res_bind_Inr_iff)

interpretation store: op_reader "store_read kvs" for kvs
  by unfold_locales (auto simp: store_read_def answer_def)

text \<open>C38: prover and verifier agree on every operation.  If a run of an operation against the reader of
  a pruned tree logs some reads and succeeds, then replaying the answers to these reads through the
  verifier's reader gives the same result and consumes every read.\<close>

theorem verifier_replays_prover_run:
  assumes "run_prover (read_from_pruned_tree kv_hash tree) p [] = (log, Inr a)"
  shows "run_verifier (map (\<lambda>op. projr (read_from_pruned_tree kv_hash tree op)) log) p 0 = Inr (a, length log) \<and>
    assert_all_consumed (map (\<lambda>op. projr (read_from_pruned_tree kv_hash tree op)) log) (length log) = Inr ()"
  using pruned.verifier_replays_prover [OF assms] unfolding answers_of_def .

theorem verifier_replays_prover_run_witness:
  "run_verifier [\<lparr>pr_op = ReadKey [5], pr_results = [([5], [7, 8])]\<rparr>]
     (Ask (ReadKey [5]) (\<lambda>r. Done (length (pr_results r)))) 0 = Inr (1, 1)"
proof -
  let ?t = "Node [5] [7, 8] 12 None None"
  have "run_prover (read_from_pruned_tree small_kv_hash ?t)
      (Ask (ReadKey [5]) (\<lambda>r. Done (length (pr_results r)))) [] = ([ReadKey [5]], Inr 1)"
    by (simp add: read_from_pruned_tree_def small_kv_hash_def)
  from verifier_replays_prover_run [OF this] show ?thesis
    by (simp add: read_from_pruned_tree_def small_kv_hash_def)
qed

section \<open>Authenticated execution\<close>

lemma read_from_pruned_tree_extract:
  assumes "read_from_pruned_tree kv_hash tree op = Inr r"
  shows "extract_read kv_hash tree op = Some (pr_results r) \<and> pr_op r = op"
  using assms
  by (auto simp: read_from_pruned_tree_def res_bind_Inr_iff ok_or_def
    split: read_op.splits option.splits get_result.splits)

lemma run_pruned_store:
  assumes "prunes root_hash q t" and "complete t" and "kv_bound kv_hash t" and "search_tree t"
    and "run_pruned kv_hash q p = Inr a"
  shows "run_store (entries t) p = Inr a"
  using assms(5) unfolding run_pruned_def
proof (induction p)
  case (Ask op k)
  then obtain r where r: "read_from_pruned_tree kv_hash q op = Inr r"
      and run: "run_reader (read_from_pruned_tree kv_hash q) (k r) = Inr a"
    by (auto split: sum.splits)
  have "pr_results r = filter (\<lambda>(k, _). read_selects op k) (entries t) \<and> pr_op r = op"
    using read_from_pruned_tree_extract [OF r] extract_read_prunes [OF assms(1), of kv_hash op]
      extract_read_complete [OF assms(2-4), of op] by auto
  then have "r = answer (entries t) \<lparr>pr_op = op, pr_results = []\<rparr>"
    by (simp add: answer_def)
  then show ?case
    using Ask.IH [OF rangeI run] by simp
qed simp_all

end
