(* ===== verification/Changelog.thy ===== *)
theory Changelog
  imports Op_Monad Time_Policy
begin

text \<open>
  The changelog and its verification: the state machine \<open>ChangeLog\<close>, the checks on parents and
  signature references, and the verification of a sequence of changes, from
  \<open>ffproof/changelog_core/src/changelog.rs\<close>.

  The libraries the code calls are collected in the record \<open>libs\<close>: SHA-256, the serialised form of an
  entry, the decoder of a serialised pruned tree, merk's hashes and walker, and the largest \<open>usize\<close> of
  the target.  The validator of operations is the argument \<open>dispatch\<close>; everything here holds for any
  validator.  A panic is \<^const>\<open>None\<close> where the function returns no \<open>Result\<close>, and the error \<open>Panic\<close>
  where it does.

  The lemmas show that the changelog keeps its caches and roots consistent along every history of
  operations, that the inclusion proofs it hands out verify, and that an accepted sequence of
  changes is a genuine continuation: of the changelog, of the signature chains, and of the committed
  store under sequential replay.
\<close>

section \<open>Libraries\<close>

record libs =
  sha256 :: "bytes \<Rightarrow> digest"
  entry_bytes :: "changelog_entry \<Rightarrow> bytes"
  decode_tree :: "bytes \<Rightarrow> pruned_merkle_tree option"
  kvh :: "bytes \<Rightarrow> bytes \<Rightarrow> digest option"
  rooth :: "merk_node \<Rightarrow> digest"
  walker :: "merk_node option \<Rightarrow> (bytes \<times> merk_op) list \<Rightarrow> merk_node option option"
  usize_max :: nat

type_synonym dispatcher = "changelog_entry \<Rightarrow> op_context \<Rightarrow> meta_cache \<Rightarrow> (op_verify_result \<times> meta_cache) read_prog"

section \<open>The changelog\<close>

definition initial_clc_state :: "libs \<Rightarrow> digest \<Rightarrow> tree_head option" where
  "initial_clc_state L initial_dc =
    Option.bind (initialize (sha256 L) mmr_new (digest_bytes initial_dc)) (mmr_tree_head (sha256 L))"

definition inclusion_proof_cache_with_initial_leaf :: "libs \<Rightarrow> digest \<Rightarrow> proof_cache option" where
  "inclusion_proof_cache_with_initial_leaf L initial_dc =
    extend_with_leaf (sha256 L) cache_new (h_init (sha256 L) (digest_bytes initial_dc))"

definition entry_leaf :: "libs \<Rightarrow> changelog_entry \<Rightarrow> digest" where
  "entry_leaf L e = h_leaf (sha256 L) (entry_bytes L e)"

definition build_inclusion_proof_cache :: "libs \<Rightarrow> digest \<Rightarrow> changelog_entry list \<Rightarrow> proof_cache option" where
  "build_inclusion_proof_cache L initial_dc changes =
    Option.bind (inclusion_proof_cache_with_initial_leaf L initial_dc) (\<lambda>c.
      extend_all (sha256 L) c (map (entry_leaf L) changes))"

definition inclusion_proof_cache_needs_rebuild :: "proof_cache option \<Rightarrow> nat \<Rightarrow> digest option \<Rightarrow> bool" where
  "inclusion_proof_cache_needs_rebuild cache expected_leaves expected_root = (case (cache, expected_root) of
      (Some cache, Some expected_root) \<Rightarrow>
        if unat (pc_leaf_count cache) \<noteq> expected_leaves then True
        else (case cached_subtree_root cache 0 (unat (pc_leaf_count cache)) of
            Some cached \<Rightarrow> cached \<noteq> expected_root
          | None \<Rightarrow> True)
    | _ \<Rightarrow> True)"

record pruned_triple =
  pt_pruned_merkle_tree :: bytes
  pt_old_root :: digest
  pt_new_root :: digest

record change_log =
  cl_tree :: mmr_tree
  cl_roots_by_change_id :: "digest list"
  cl_proven_clc_state :: "tree_head option"
  cl_initial_dc :: digest
  cl_changes :: "changelog_entry list"
  cl_ff_proof :: bytes
  cl_proven_up_to :: nat
  cl_pruned_merkle_trees :: "pruned_triple list"
  cl_inclusion_proof_cache :: "proof_cache option"
  cl_ff_inclusion_proof_cache :: "proof_cache option"

record change_log_tail =
  tl_initial_dc :: digest
  tl_changes :: "changelog_entry list"
  tl_pruned_merkle_trees :: "pruned_triple list"

definition flatten_write_steps :: "op_verify_result \<Rightarrow> changelog_error + batch_op list" where
  "flatten_write_steps result =
    fold_res (\<lambda>step writes. case step of TWrite ops \<Rightarrow> Inr (writes @ ops) | TRead _ \<Rightarrow> Inl Generic)
      (write_steps result) []"

definition change_log_new :: "libs \<Rightarrow> digest \<Rightarrow> change_log option" where
  "change_log_new L initial_dc =
    Option.bind (initialize (sha256 L) mmr_new (digest_bytes initial_dc)) (\<lambda>tree.
    Option.bind (mmr_root (sha256 L) tree) (\<lambda>initial_root.
      Some \<lparr>cl_tree = tree, cl_roots_by_change_id = [initial_root], cl_proven_clc_state = None,
        cl_initial_dc = initial_dc, cl_changes = [], cl_ff_proof = [], cl_proven_up_to = 0,
        cl_pruned_merkle_trees = [], cl_inclusion_proof_cache = None, cl_ff_inclusion_proof_cache = None\<rparr>))"

definition num_changes :: "change_log \<Rightarrow> u32" where
  "num_changes cl = of_nat (length (cl_changes cl))"

text \<open>The replay loop of \<open>validate_mmr_state\<close>.\<close>

fun replay_changes ::
  "libs \<Rightarrow> change_log \<Rightarrow> changelog_entry list \<Rightarrow> nat \<Rightarrow> mmr_tree \<Rightarrow> tree_head option \<Rightarrow>
    changelog_error + mmr_tree \<times> tree_head option"
where
  "replay_changes L cl [] idx tree at_proven = Inr (tree, at_proven)"
| "replay_changes L cl (change # rest) idx tree at_proven =
    res_bind (ok_or Panic (mmr_append (sha256 L) tree (entry_bytes L change))) (\<lambda>(tree, _).
    res_bind (ok_or Panic (mmr_root (sha256 L) tree)) (\<lambda>replayed_root.
    if cl_roots_by_change_id cl ! (idx + 1) \<noteq> replayed_root then Inl Generic
    else res_bind (if idx + 1 = cl_proven_up_to cl
        then res_bind (ok_or Panic (mmr_tree_head (sha256 L) tree)) (\<lambda>h. Inr (Some h))
        else Inr at_proven) (\<lambda>at_proven.
      replay_changes L cl rest (idx + 1) tree at_proven)))"

definition validate_mmr_state :: "libs \<Rightarrow> change_log \<Rightarrow> changelog_error + unit" where
  "validate_mmr_state L cl =
    (if length (cl_roots_by_change_id cl) \<noteq> length (cl_changes cl) + 1 then Inl Generic
     else if length (cl_pruned_merkle_trees cl) \<noteq> length (cl_changes cl) then Inl Generic
     else if length (cl_changes cl) < cl_proven_up_to cl then Inl Generic
     else res_bind (ok_or Panic (initialize (sha256 L) mmr_new (digest_bytes (cl_initial_dc cl)))) (\<lambda>replay_tree.
       res_bind (ok_or Panic (mmr_root (sha256 L) replay_tree)) (\<lambda>initial_root.
       if cl_roots_by_change_id cl ! 0 \<noteq> initial_root then Inl Generic
       else res_bind (replay_changes L cl (cl_changes cl) 0 replay_tree None) (\<lambda>(replay_tree, at_proven).
         res_bind (ok_or Panic (mmr_tree_head (sha256 L) replay_tree)) (\<lambda>expected_live_head.
         res_bind (ok_or Generic (mmr_tree_head (sha256 L) (cl_tree cl))) (\<lambda>live_head.
         if live_head \<noteq> expected_live_head then Inl Generic
         else (case (cl_proven_clc_state cl, at_proven) of
             (None, None) \<Rightarrow> Inr ()
           | (Some cached, Some expected) \<Rightarrow> if cached = expected then Inr () else Inl Generic
           | _ \<Rightarrow> Inl Generic)))))))"

definition root_at :: "change_log \<Rightarrow> u32 \<Rightarrow> digest option" where
  "root_at cl change_id =
    (if unat change_id < length (cl_roots_by_change_id cl) then Some (cl_roots_by_change_id cl ! unat change_id) else None)"

definition current_clc_state :: "libs \<Rightarrow> change_log \<Rightarrow> tree_head option" where
  "current_clc_state L cl = mmr_tree_head (sha256 L) (cl_tree cl)"

definition current_root :: "libs \<Rightarrow> change_log \<Rightarrow> digest option" where
  "current_root L cl = map_option th_root (current_clc_state L cl)"

section \<open>Checks on one entry\<close>

definition MAX_PARENT_DISTANCE :: u32 where "MAX_PARENT_DISTANCE = 10"

definition validate_parent_change :: "u32 \<Rightarrow> nat \<Rightarrow> bool" where
  "validate_parent_change parent_change current_change_id =
    (let in_bounds = (if current_change_id = 1 then parent_change = 0 else unat parent_change < current_change_id)
     in if \<not> in_bounds then False
        else current_change_id - unat parent_change \<le> unat MAX_PARENT_DISTANCE)"

definition validate_parent_clc :: "u32 \<Rightarrow> digest \<Rightarrow> (u32 \<times> digest) list \<Rightarrow> bool" where
  "validate_parent_clc parent_change parent_clc recent_roots =
    (case find (\<lambda>(cid, _). cid = parent_change) recent_roots of
       Some (_, root) \<Rightarrow> if root \<noteq> parent_clc then False else True
     | None \<Rightarrow> False)"

definition validate_sigref ::
  "(u32 \<rightharpoonup> u32 \<times> digest) \<Rightarrow> u32 \<Rightarrow> u32 \<Rightarrow> u32 \<Rightarrow> digest \<Rightarrow> bool \<times> (u32 \<rightharpoonup> u32 \<times> digest)"
where
  "validate_sigref sigref_map uid sig_ref current_change_id entry_hash =
    (case sigref_map uid of
       Some (prev_change_id, _) \<Rightarrow>
         if sig_ref \<noteq> prev_change_id then (False, sigref_map)
         else (True, sigref_map(uid \<mapsto> (current_change_id, entry_hash)))
     | None \<Rightarrow>
         if sig_ref \<noteq> 0 then (False, sigref_map)
         else (True, sigref_map(uid \<mapsto> (current_change_id, entry_hash))))"

definition check_sigref_continuity :: "changelog_entry \<Rightarrow> u32 \<Rightarrow> changelog_error + unit" where
  "check_sigref_continuity change expected_sig_ref =
    (if ce_sig_ref change \<noteq> expected_sig_ref then Inl Generic else Inr ())"

section \<open>One change\<close>

definition verify_proof_and_validate_inner ::
  "libs \<Rightarrow> dispatcher \<Rightarrow> changelog_entry \<Rightarrow> bytes \<Rightarrow> digest \<Rightarrow> digest \<Rightarrow> nat \<Rightarrow> changelog_error + batch_op list"
where
  "verify_proof_and_validate_inner L dispatch change pruned_merkle_tree old_root new_root current_change_id =
    res_bind (ok_or Generic (decode_tree L pruned_merkle_tree)) (\<lambda>pruned_tree.
    if \<not> validate_parent_change (ce_parent_change change) current_change_id then Inl Generic
    else res_bind (ok_or Panic (pruned_to_merk (kvh L) pruned_tree)) (\<lambda>maybe_tree.
      res_bind (ok_or Generic maybe_tree) (\<lambda>tree.
      if rooth L tree \<noteq> old_root then Inl Generic
      else res_bind (run_pruned (kvh L) tree (dispatch change (for_change_id current_change_id) cache_default)) (\<lambda>(op_result, _).
        res_bind (flatten_write_steps op_result) (\<lambda>writes.
        res_bind (ok_or Panic (apply_batch (walker L) (Some tree) writes)) (\<lambda>maybe_tree.
        if end_root (rooth L) maybe_tree \<noteq> new_root then Inl Generic
        else Inr writes))))))"

text \<open>The panic handler turns a panic into an ordinary error.\<close>

definition verify_proof_and_validate ::
  "libs \<Rightarrow> dispatcher \<Rightarrow> changelog_entry \<Rightarrow> bytes \<Rightarrow> digest \<Rightarrow> digest \<Rightarrow> nat \<Rightarrow> changelog_error + batch_op list"
where
  "verify_proof_and_validate L dispatch change pruned_merkle_tree old_root new_root current_change_id =
    map_err (\<lambda>e. if e = Panic then Generic else e)
      (verify_proof_and_validate_inner L dispatch change pruned_merkle_tree old_root new_root current_change_id)"

definition add_change ::
  "libs \<Rightarrow> dispatcher \<Rightarrow> change_log \<Rightarrow> changelog_entry \<Rightarrow> bytes \<Rightarrow> digest \<Rightarrow> digest \<Rightarrow>
    changelog_error + change_log \<times> u32"
where
  "add_change L dispatch cl change pruned_merkle_tree old_root new_root =
    res_bind (verify_proof_and_validate L dispatch change pruned_merkle_tree old_root new_root
        (length (cl_changes cl) + 1)) (\<lambda>_.
    res_bind (ok_or Panic (mmr_append (sha256 L) (cl_tree cl) (entry_bytes L change))) (\<lambda>(tree, _).
    res_bind (ok_or Panic (mmr_root (sha256 L) tree)) (\<lambda>root.
    res_bind (case cl_inclusion_proof_cache cl of
        None \<Rightarrow> Inr None
      | Some c \<Rightarrow> res_bind (ok_or Panic (extend_with_leaf (sha256 L) c (entry_leaf L change))) (\<lambda>c. Inr (Some c))) (\<lambda>cache.
      let cl' = cl\<lparr>cl_tree := tree, cl_roots_by_change_id := cl_roots_by_change_id cl @ [root],
          cl_inclusion_proof_cache := cache, cl_changes := cl_changes cl @ [change],
          cl_pruned_merkle_trees := cl_pruned_merkle_trees cl @
            [\<lparr>pt_pruned_merkle_tree = pruned_merkle_tree, pt_old_root = old_root, pt_new_root = new_root\<rparr>]\<rparr>
      in Inr (cl', of_nat (length (cl_changes cl')))))))"

section \<open>Inclusion proofs\<close>

definition ensure_inclusion_proof_cache_built :: "libs \<Rightarrow> change_log \<Rightarrow> change_log option" where
  "ensure_inclusion_proof_cache_built L cl =
    (if \<not> inclusion_proof_cache_needs_rebuild (cl_inclusion_proof_cache cl) (length (cl_changes cl) + 1)
        (mmr_root (sha256 L) (cl_tree cl)) then Some cl
     else Option.bind (build_inclusion_proof_cache L (cl_initial_dc cl) (cl_changes cl)) (\<lambda>c.
       Some (cl\<lparr>cl_inclusion_proof_cache := Some c\<rparr>)))"

definition prove_inclusion :: "libs \<Rightarrow> change_log \<Rightarrow> u32 \<Rightarrow> (change_log \<times> inclusion_proof option) option" where
  "prove_inclusion L cl change_id =
    (if \<not> length (cl_changes cl) + 1 < 2 ^ 32 then Some (cl, None)
     else if of_nat (length (cl_changes cl) + 1) \<le> change_id then Some (cl, None)
     else Option.bind (ensure_inclusion_proof_cache_built L cl) (\<lambda>cl'.
       Option.bind (cl_inclusion_proof_cache cl') (\<lambda>c.
       Option.bind (cache_prove c change_id) (\<lambda>p. Some (cl', p)))))"

definition ensure_ff_inclusion_proof_cache_built :: "libs \<Rightarrow> change_log \<Rightarrow> change_log option" where
  "ensure_ff_inclusion_proof_cache_built L cl =
    Option.bind (case cl_proven_clc_state cl of
        Some h \<Rightarrow> Some (th_root h)
      | None \<Rightarrow> map_option th_root (initial_clc_state L (cl_initial_dc cl))) (\<lambda>ff_range_root.
    if \<not> inclusion_proof_cache_needs_rebuild (cl_ff_inclusion_proof_cache cl) (cl_proven_up_to cl + 1)
        (Some ff_range_root) then Some cl
    else if length (cl_changes cl) < cl_proven_up_to cl then None
    else Option.bind (build_inclusion_proof_cache L (cl_initial_dc cl) (take (cl_proven_up_to cl) (cl_changes cl))) (\<lambda>c.
       Some (cl\<lparr>cl_ff_inclusion_proof_cache := Some c\<rparr>)))"

definition prove_included_in_ff_range :: "libs \<Rightarrow> change_log \<Rightarrow> u32 \<Rightarrow> (change_log \<times> inclusion_proof option) option" where
  "prove_included_in_ff_range L cl change_id =
    (if \<not> cl_proven_up_to cl + 1 < 2 ^ 32 then Some (cl, None)
     else if of_nat (cl_proven_up_to cl + 1) \<le> change_id then Some (cl, None)
     else Option.bind (ensure_ff_inclusion_proof_cache_built L cl) (\<lambda>cl'.
       Option.bind (cl_ff_inclusion_proof_cache cl') (\<lambda>c.
       Option.bind (cache_prove c change_id) (\<lambda>p. Some (cl', p)))))"

definition get_number_unproven_changes :: "change_log \<Rightarrow> nat option" where
  "get_number_unproven_changes cl =
    (if cl_proven_up_to cl \<le> length (cl_changes cl) then Some (length (cl_changes cl) - cl_proven_up_to cl) else None)"

definition get_unproven_changes :: "change_log \<Rightarrow> changelog_entry list option" where
  "get_unproven_changes cl =
    (if cl_proven_up_to cl \<le> length (cl_changes cl) then Some (drop (cl_proven_up_to cl) (cl_changes cl)) else None)"

fun head_append_all :: "libs \<Rightarrow> tree_head \<Rightarrow> changelog_entry list \<Rightarrow> tree_head option" where
  "head_append_all L h [] = Some h"
| "head_append_all L h (e # es) = Option.bind (head_append (sha256 L) h (entry_bytes L e)) (\<lambda>h'. head_append_all L h' es)"

definition set_ff_proof :: "libs \<Rightarrow> change_log \<Rightarrow> bytes \<Rightarrow> nat \<Rightarrow> change_log option" where
  "set_ff_proof L cl proof_bytes new_proven_up_to =
    (if \<not> new_proven_up_to \<le> length (cl_changes cl) then None
     else if \<not> cl_proven_up_to cl < new_proven_up_to then None
     else let newly = drop (cl_proven_up_to cl) (take new_proven_up_to (cl_changes cl)) in
       Option.bind (case cl_proven_clc_state cl of Some h \<Rightarrow> Some h | None \<Rightarrow> initial_clc_state L (cl_initial_dc cl)) (\<lambda>head.
       Option.bind (head_append_all L head newly) (\<lambda>head.
       Option.bind (case cl_ff_inclusion_proof_cache cl of
           Some c \<Rightarrow> Some c
         | None \<Rightarrow> inclusion_proof_cache_with_initial_leaf L (cl_initial_dc cl)) (\<lambda>ff_range_idx.
       Option.bind (extend_all (sha256 L) ff_range_idx (map (entry_leaf L) newly)) (\<lambda>ff_range_idx.
         Some (cl\<lparr>cl_proven_clc_state := Some head, cl_ff_inclusion_proof_cache := Some ff_range_idx,
           cl_ff_proof := proof_bytes, cl_proven_up_to := new_proven_up_to\<rparr>))))))"

definition get_ff_proof :: "change_log \<Rightarrow> bytes option" where
  "get_ff_proof cl = (if cl_ff_proof cl = [] then None else Some (cl_ff_proof cl))"

definition get_tail :: "change_log \<Rightarrow> nat \<Rightarrow> change_log_tail option" where
  "get_tail cl start_idx =
    (if \<not> start_idx \<le> length (cl_changes cl) then None
     else if \<not> start_idx \<le> length (cl_pruned_merkle_trees cl) then None
     else Some \<lparr>tl_initial_dc = cl_initial_dc cl, tl_changes = drop start_idx (cl_changes cl),
       tl_pruned_merkle_trees = drop start_idx (cl_pruned_merkle_trees cl)\<rparr>)"

text \<open>\<open>from_bytes\<close>: the serialised form leaves the two caches out; \<open>decode\<close> is postcard's decoder.\<close>

definition change_log_from_bytes :: "libs \<Rightarrow> (bytes \<Rightarrow> change_log option) \<Rightarrow> bytes \<Rightarrow> changelog_error + change_log" where
  "change_log_from_bytes L decode bs =
    res_bind (ok_or Generic (decode bs)) (\<lambda>cl.
    let cl = cl\<lparr>cl_inclusion_proof_cache := None, cl_ff_inclusion_proof_cache := None\<rparr>
    in res_bind (validate_mmr_state L cl) (\<lambda>_. Inr cl))"

section \<open>Sequences of changes\<close>

record fast_forward_range =
  fr_start_clc_state :: tree_head
  fr_end_clc_state :: tree_head
  fr_start_dc :: digest
  fr_end_dc :: digest
  fr_end_change_id :: u32
  fr_sigref_map :: "u32 \<rightharpoonup> u32 \<times> digest"
  fr_recent_roots :: "(u32 \<times> digest) list"
  fr_timestamp_hwm :: u64

text \<open>The three values threaded through the chunks: the signature references of each user, the window of
  recent roots and the timestamp mark.\<close>

record ff_state =
  ff_sigref_map :: "u32 \<rightharpoonup> u32 \<times> digest"
  ff_recent_roots :: "(u32 \<times> digest) list"
  ff_timestamp_hwm :: u64

record loop_state =
  ls_tree :: merk_node
  ls_working :: mmr_tree
  ls_cache :: meta_cache
  ls_ff :: ff_state

fun prune_window :: "(u32 \<times> digest) list \<Rightarrow> (u32 \<times> digest) list" where
  "prune_window [] = []"
| "prune_window (r # rs) = (if unat MAX_PARENT_DISTANCE < length (r # rs) then prune_window rs else r # rs)"

text \<open>One round of the loop: \<^const>\<open>None\<close> is a panic, \<open>Inl\<close> the early \<open>return false\<close>.\<close>

definition verify_step ::
  "libs \<Rightarrow> dispatcher \<Rightarrow> u32 \<Rightarrow> nat \<Rightarrow> bytes \<Rightarrow> loop_state \<Rightarrow> (ff_state + loop_state) option"
where
  "verify_step L dispatch start_change_id i e_i s =
    (let current_change_id = unat start_change_id + i + 1; ff = ls_ff s in
     Option.bind (mmr_append (sha256 L) (ls_working s) e_i) (\<lambda>(working, leaf_hash).
     (case from_bytes_for_verification (usize_max L) e_i of
        Inl e \<Rightarrow> if e = Panic then None else Some (Inl ff)
      | Inr entry_i \<Rightarrow>
          let (fresh, hwm) = validate_timestamp_hwm (ce_timestamp entry_i) (ff_timestamp_hwm ff);
              ff = ff\<lparr>ff_timestamp_hwm := hwm\<rparr> in
          if \<not> fresh then Some (Inl ff)
          else let (chained, sigrefs) = validate_sigref (ff_sigref_map ff) (ce_uid entry_i) (ce_sig_ref entry_i)
                (of_nat current_change_id) leaf_hash;
              ff = ff\<lparr>ff_sigref_map := sigrefs\<rparr> in
          if \<not> chained then Some (Inl ff)
          else if \<not> validate_parent_change (ce_parent_change entry_i) current_change_id then Some (Inl ff)
          else if \<not> validate_parent_clc (ce_parent_change entry_i) (ce_parent_clc entry_i) (ff_recent_roots ff)
          then Some (Inl ff)
          else (case run_pruned (kvh L) (ls_tree s)
                (dispatch entry_i (begin_change for_change_sequence current_change_id) (ls_cache s)) of
              Inl e \<Rightarrow> if e = Panic then None else Some (Inl ff)
            | Inr (op_result, cache) \<Rightarrow>
                (case flatten_write_steps op_result of
                   Inl e \<Rightarrow> Some (Inl ff)
                 | Inr writes \<Rightarrow>
                     Option.bind (apply_batch (walker L) (Some (ls_tree s)) writes) (\<lambda>maybe_tree.
                     (case maybe_tree of
                        None \<Rightarrow> Some (Inl ff)
                      | Some tree \<Rightarrow>
                          Option.bind (mmr_root (sha256 L) working) (\<lambda>root_after.
                            Some (Inr \<lparr>ls_tree = tree, ls_working = working,
                              ls_cache = finish_change (lm_op_type (ce_message entry_i)) cache,
                              ls_ff = ff\<lparr>ff_recent_roots :=
                                prune_window (ff_recent_roots ff @ [(of_nat current_change_id, root_after)])\<rparr>\<rparr>)))))))))"

primrec verify_loop ::
  "libs \<Rightarrow> dispatcher \<Rightarrow> u32 \<Rightarrow> (nat \<Rightarrow> bytes option option) \<Rightarrow> nat \<Rightarrow> loop_state \<Rightarrow> (ff_state + loop_state) option"
where
  "verify_loop L dispatch start_change_id entry 0 s = Some (Inr s)"
| "verify_loop L dispatch start_change_id entry (Suc n) s =
    Option.bind (verify_loop L dispatch start_change_id entry n s) (\<lambda>r. case r of
        Inl ff \<Rightarrow> Some (Inl ff)
      | Inr s' \<Rightarrow> Option.bind (entry n) (\<lambda>e. Option.bind e (\<lambda>e_i. verify_step L dispatch start_change_id n e_i s')))"

text \<open>The set-up of the window of recent roots.\<close>

definition seed_recent_roots :: "u32 \<Rightarrow> digest \<Rightarrow> (u32 \<times> digest) list \<Rightarrow> (u32 \<times> digest) list option" where
  "seed_recent_roots start_change_id start_root recent_roots =
    (if recent_roots \<noteq> [] then
       (if last recent_roots \<noteq> (start_change_id, start_root) then None else Some recent_roots)
     else if start_change_id \<noteq> 0 then None
     else Some [(0, start_root)])"

definition verify_op_sequence_with_tree ::
  "libs \<Rightarrow> dispatcher \<Rightarrow> nat \<Rightarrow> (nat \<Rightarrow> bytes option option) \<Rightarrow> fast_forward_range \<Rightarrow> merk_node option \<Rightarrow> u32 \<Rightarrow>
    ff_state \<Rightarrow> (bool \<times> ff_state) option"
where
  "verify_op_sequence_with_tree L dispatch len entry rng tree start_change_id ff =
    (case tree of
       None \<Rightarrow> Some (False, ff)
     | Some tree \<Rightarrow>
         if \<not> verify_for_change_id (sha256 L) (fr_start_clc_state rng) start_change_id then Some (False, ff)
         else Option.bind (if start_change_id = 0
             then map_option (\<lambda>h. fr_start_clc_state rng = h) (initial_clc_state L (fr_start_dc rng))
             else Some True) (\<lambda>initial_ok.
         if \<not> initial_ok then Some (False, ff)
         else (case seed_recent_roots start_change_id (th_root (fr_start_clc_state rng)) (ff_recent_roots ff) of
             None \<Rightarrow> Some (False, ff)
           | Some roots \<Rightarrow>
               let ff = ff\<lparr>ff_recent_roots := roots\<rparr>; end_idx = unat (fr_end_change_id rng) in
               if \<not> len < 2 ^ 32 \<or> \<not> 0 < end_idx \<or> \<not> 0 < len \<or> \<not> end_idx \<le> len then None
               else if \<not> unat (th_tree_size (fr_start_clc_state rng)) + len < 2 ^ 32 then None
               else if \<not> verify_for_tree_size (sha256 L) (fr_end_clc_state rng)
                   (th_tree_size (fr_start_clc_state rng) + of_nat len) then Some (False, ff)
               else if rooth L tree \<noteq> fr_start_dc rng then Some (False, ff)
               else Option.bind (verify_loop L dispatch start_change_id entry end_idx
                   \<lparr>ls_tree = tree,
                    ls_working = \<lparr>mt_peaks = th_peaks (fr_start_clc_state rng), mt_tree_size = th_tree_size (fr_start_clc_state rng)\<rparr>,
                    ls_cache = cache_default, ls_ff = ff\<rparr>) (\<lambda>r. case r of
                   Inl ff \<Rightarrow> Some (False, ff)
                 | Inr s \<Rightarrow>
                     if rooth L (ls_tree s) \<noteq> fr_end_dc rng then Some (False, ls_ff s)
                     else Option.bind (mmr_tree_head (sha256 L) (ls_working s)) (\<lambda>computed_end.
                       if computed_end \<noteq> fr_end_clc_state rng then Some (False, ls_ff s)
                       else Some (True, ls_ff s))))))"

text \<open>The two callers differ in how the witness and the entries are encoded.\<close>

definition decode_postcard_pruned_tree :: "libs \<Rightarrow> bytes \<Rightarrow> merk_node option option" where
  "decode_postcard_pruned_tree L bs = (case decode_tree L bs of
      None \<Rightarrow> Some None
    | Some t \<Rightarrow> pruned_to_merk (kvh L) t)"

definition decode_compact_pruned_tree :: "libs \<Rightarrow> bytes \<Rightarrow> merk_node option" where
  "decode_compact_pruned_tree L bs =
    (case decode_pruned_compact_to_merk (kvh L) (usize_max L) bs of Inr t \<Rightarrow> t | Inl _ \<Rightarrow> None)"

definition vec_entry :: "bytes list \<Rightarrow> nat \<Rightarrow> bytes option option" where
  "vec_entry es i = Some (if i < length es then Some (es ! i) else None)"

definition verify_op_sequence ::
  "libs \<Rightarrow> dispatcher \<Rightarrow> bytes list \<Rightarrow> fast_forward_range \<Rightarrow> bytes \<Rightarrow> u32 \<Rightarrow> ff_state \<Rightarrow> (bool \<times> ff_state) option"
where
  "verify_op_sequence L dispatch es rng pruned_tree_bytes start_change_id ff =
    Option.bind (decode_postcard_pruned_tree L pruned_tree_bytes) (\<lambda>tree.
      verify_op_sequence_with_tree L dispatch (length es) (vec_entry es) rng tree start_change_id ff)"

definition verify_op_sequence_flat ::
  "libs \<Rightarrow> dispatcher \<Rightarrow> flat_entry_bytes \<Rightarrow> fast_forward_range \<Rightarrow> bytes \<Rightarrow> u32 \<Rightarrow> ff_state \<Rightarrow> (bool \<times> ff_state) option"
where
  "verify_op_sequence_flat L dispatch es rng pruned_tree_bytes start_change_id ff =
    verify_op_sequence_with_tree L dispatch (length (fe_ends es)) (flat_entry es) rng
      (decode_compact_pruned_tree L pruned_tree_bytes) start_change_id ff"

section \<open>Writers and heads as functions of the leaves\<close>

definition the_tree :: "(bytes \<Rightarrow> digest) \<Rightarrow> digest list \<Rightarrow> mmr_tree" where
  "the_tree H xs = \<lparr>mt_peaks = map (range_root H xs) (peak_ranges (length xs) 0), mt_tree_size = of_nat (length xs)\<rparr>"

definition the_head :: "(bytes \<Rightarrow> digest) \<Rightarrow> digest list \<Rightarrow> tree_head" where
  "the_head H xs = \<lparr>th_root = tree_root H xs, th_tree_size = of_nat (length xs),
    th_peaks = map (range_root H xs) (peak_ranges (length xs) 0)\<rparr>"

lemma mmr_holds_the_tree: "mmr_holds H t xs \<longleftrightarrow> length xs < 2 ^ 32 \<and> t = the_tree H xs"
  by (cases t) (auto simp: mmr_holds_def the_tree_def)

lemma head_of_the_head: "head_of H h xs \<longleftrightarrow> xs \<noteq> [] \<and> length xs < 2 ^ 32 \<and> h = the_head H xs"
  by (cases h) (auto simp: head_of_def mmr_holds_def the_head_def)

lemma append_hash_the_tree:
  "length xs < 2 ^ 32 \<Longrightarrow>
    append_hash H (the_tree H xs) x = (if length xs < 2 ^ 32 - 1 then Some (the_tree H (xs @ [x])) else None)"
  using writer.add_holds [of H "the_tree H xs" xs x] writer.add_full [of H "the_tree H xs" xs x]
  by (auto simp: mmr_holds_the_tree)

lemma the_tree_size: "length xs < 2 ^ 32 \<Longrightarrow> (0 < mt_tree_size (the_tree H xs)) = (xs \<noteq> [])"
  using unat_of_nat_u32 [of "length xs"] by (auto simp: the_tree_def word_less_nat_alt)

lemma mmr_append_the_tree:
  "length xs < 2 ^ 32 \<Longrightarrow> mmr_append H (the_tree H xs) e =
    (if xs \<noteq> [] \<and> length xs < 2 ^ 32 - 1 then Some (the_tree H (xs @ [h_leaf H e]), h_leaf H e) else None)"
  by (simp add: mmr_append_def Let_def append_hash_the_tree the_tree_size)

lemma initialize_the_tree: "initialize H mmr_new dc = Some (the_tree H [h_init H dc])"
  using writer.add_holds [OF writer.holds_empty, of H "h_init H dc"]
  by (auto simp: mmr_holds_the_tree initialize_def mmr_new_def)

lemma mmr_root_the_tree:
  "length xs < 2 ^ 32 \<Longrightarrow> mmr_root H (the_tree H xs) = (if xs = [] then None else Some (tree_root H xs))"
  using writer.commit_holds [of H "the_tree H xs" xs] by (simp add: mmr_holds_the_tree)

lemma mmr_tree_head_the_tree:
  "length xs < 2 ^ 32 \<Longrightarrow> xs \<noteq> [] \<Longrightarrow> mmr_tree_head H (the_tree H xs) = Some (the_head H xs)"
  using mmr_tree_head_of [of H "the_tree H xs" xs] by (auto simp: mmr_holds_the_tree head_of_the_head)

lemma mmr_tree_head_inject:
  "mmr_tree_head H t = Some h \<Longrightarrow> mmr_tree_head H t' = Some h \<Longrightarrow> t = t'"
  by (cases t; cases t') (auto simp: mmr_tree_head_def bind_eq_Some_conv)

lemma head_append_the_head:
  assumes "xs \<noteq> []" and "length xs < 2 ^ 32"
  shows "head_append H (the_head H xs) e =
    (if length xs < 2 ^ 32 - 1 then Some (the_head H (xs @ [h_leaf H e])) else None)"
proof (cases "length xs < 2 ^ 32 - 1")
  case True
  then show ?thesis
    using try_append_head_of [of H "the_head H xs" xs e] assms by (auto simp: head_append_def head_of_the_head)
next
  case False
  then have "length xs = 2 ^ 32 - 1"
    using assms(2) by simp
  then have "th_tree_size (the_head H xs) = MAX_TREE_SIZE"
    by (simp add: the_head_def MAX_TREE_SIZE_def)
  then show ?thesis
    using False by (simp add: head_append_def try_append_def)
qed

lemma the_head_the_tree:
  "\<lparr>mt_peaks = th_peaks (the_head H xs), mt_tree_size = th_tree_size (the_head H xs)\<rparr> = the_tree H xs"
  by (simp add: the_head_def the_tree_def)

lemmas the_tree_simps = append_hash_the_tree mmr_append_the_tree mmr_root_the_tree mmr_tree_head_the_tree
  head_append_the_head

section \<open>The invariant\<close>

definition log_leaves :: "libs \<Rightarrow> digest \<Rightarrow> changelog_entry list \<Rightarrow> digest list" where
  "log_leaves L dc changes = h_init (sha256 L) (digest_bytes dc) # map (entry_leaf L) changes"

definition roots_ok :: "libs \<Rightarrow> change_log \<Rightarrow> bool" where
  "roots_ok L cl \<longleftrightarrow> cl_roots_by_change_id cl =
    map (\<lambda>k. tree_root (sha256 L) (log_leaves L (cl_initial_dc cl) (take k (cl_changes cl)))) [0..<length (cl_changes cl) + 1]"

definition proven_ok :: "libs \<Rightarrow> change_log \<Rightarrow> bool" where
  "proven_ok L cl \<longleftrightarrow> cl_proven_up_to cl \<le> length (cl_changes cl) \<and>
    cl_proven_clc_state cl = (if cl_proven_up_to cl = 0 then None
      else Some (the_head (sha256 L) (log_leaves L (cl_initial_dc cl) (take (cl_proven_up_to cl) (cl_changes cl)))))"

definition core_ok :: "libs \<Rightarrow> change_log \<Rightarrow> bool" where
  "core_ok L cl \<longleftrightarrow> length (cl_changes cl) < 2 ^ 32 - 1 \<and>
    cl_tree cl = the_tree (sha256 L) (log_leaves L (cl_initial_dc cl) (cl_changes cl)) \<and>
    roots_ok L cl \<and> length (cl_pruned_merkle_trees cl) = length (cl_changes cl) \<and> proven_ok L cl"

text \<open>A cache built for the proven range covers a suffix of it: after a reload the cache starts again
  from the initial leaf.\<close>

definition caches_ok :: "libs \<Rightarrow> change_log \<Rightarrow> bool" where
  "caches_ok L cl \<longleftrightarrow>
    (\<forall>c. cl_inclusion_proof_cache cl = Some c \<longrightarrow>
      cache_holds (sha256 L) c (log_leaves L (cl_initial_dc cl) (cl_changes cl))) \<and>
    (\<forall>c. cl_ff_inclusion_proof_cache cl = Some c \<longrightarrow> (\<exists>j \<le> cl_proven_up_to cl.
      cache_holds (sha256 L) c (log_leaves L (cl_initial_dc cl) (drop j (take (cl_proven_up_to cl) (cl_changes cl))))))"

definition log_inv :: "libs \<Rightarrow> change_log \<Rightarrow> bool" where
  "log_inv L cl \<longleftrightarrow> core_ok L cl \<and> caches_ok L cl"

lemma length_log_leaves [simp]: "length (log_leaves L dc changes) = length changes + 1"
  by (simp add: log_leaves_def)

lemma log_leaves_nonempty [simp]: "log_leaves L dc changes \<noteq> []"
  by (simp add: log_leaves_def)

lemma log_leaves_snoc: "log_leaves L dc changes @ [entry_leaf L e] = log_leaves L dc (changes @ [e])"
  by (simp add: log_leaves_def)

lemma log_leaves_append: "log_leaves L dc changes @ map (entry_leaf L) es = log_leaves L dc (changes @ es)"
  by (simp add: log_leaves_def)

lemma mmr_append_log_leaves:
  "length changes < 2 ^ 32 - 1 \<Longrightarrow>
    mmr_append (sha256 L) (the_tree (sha256 L) (log_leaves L dc changes)) (entry_bytes L e) =
      (if length changes + 1 < 2 ^ 32 - 1
       then Some (the_tree (sha256 L) (log_leaves L dc (changes @ [e])), entry_leaf L e) else None)"
  by (simp add: mmr_append_the_tree log_leaves_snoc [symmetric] entry_leaf_def)

lemma replay_changes_iff:
  assumes "length done < 2 ^ 32 - 1"
  shows "replay_changes L cl rest (length done) (the_tree (sha256 L) (log_leaves L dc done)) ap = Inr (t, ap') \<longleftrightarrow>
    length (done @ rest) < 2 ^ 32 - 1 \<and>
    (\<forall>j < length rest. cl_roots_by_change_id cl ! (length done + j + 1) =
      tree_root (sha256 L) (log_leaves L dc (done @ take (j + 1) rest))) \<and>
    t = the_tree (sha256 L) (log_leaves L dc (done @ rest)) \<and>
    ap' = (if length done < cl_proven_up_to cl \<and> cl_proven_up_to cl \<le> length (done @ rest)
      then Some (the_head (sha256 L) (log_leaves L dc (take (cl_proven_up_to cl) (done @ rest)))) else ap)"
  using assms
proof (induction rest arbitrary: "done" ap)
  case Nil
  then show ?case
    by auto
next
  case (Cons e rest)
  let ?d = "done @ [e]"
  let ?head = "the_head (sha256 L) (log_leaves L dc ?d)"
  let ?ap = "if length done + 1 = cl_proven_up_to cl then Some ?head else ap"
  show ?case
  proof (cases "length ?d < 2 ^ 32 - 1")
    case True
    then have step: "replay_changes L cl (e # rest) (length done) (the_tree (sha256 L) (log_leaves L dc done)) ap =
      (if cl_roots_by_change_id cl ! (length done + 1) \<noteq> tree_root (sha256 L) (log_leaves L dc ?d) then Inl Generic
       else replay_changes L cl rest (length ?d) (the_tree (sha256 L) (log_leaves L dc ?d)) ?ap)"
      using Cons.prems by (simp add: mmr_append_log_leaves mmr_root_the_tree mmr_tree_head_the_tree)
    have ap: "(if length ?d < cl_proven_up_to cl \<and> cl_proven_up_to cl \<le> length (?d @ rest)
        then Some (the_head (sha256 L) (log_leaves L dc (take (cl_proven_up_to cl) (?d @ rest)))) else ?ap) =
      (if length done < cl_proven_up_to cl \<and> cl_proven_up_to cl \<le> length (done @ e # rest)
        then Some (the_head (sha256 L) (log_leaves L dc (take (cl_proven_up_to cl) (done @ e # rest)))) else ap)"
      by (cases "cl_proven_up_to cl" "length ?d" rule: linorder_cases) simp_all
    show ?thesis
      unfolding step length_Cons All_less_Suc2 using Cons.IH [OF True, of ?ap, unfolded ap]
      by (cases "cl_roots_by_change_id cl ! (length done + 1) = tree_root (sha256 L) (log_leaves L dc ?d)") simp_all
  next
    case False
    then show ?thesis
      using Cons.prems by (simp add: mmr_append_log_leaves)
  qed
qed

lemma roots_ok_iff:
  "roots_ok L cl \<longleftrightarrow> length (cl_roots_by_change_id cl) = length (cl_changes cl) + 1 \<and>
    (\<forall>k \<le> length (cl_changes cl). cl_roots_by_change_id cl ! k =
      tree_root (sha256 L) (log_leaves L (cl_initial_dc cl) (take k (cl_changes cl))))"
  unfolding roots_ok_def by (auto simp: list_eq_iff_nth_eq less_Suc_eq_le simp del: upt_Suc)

text \<open>Loading accepts exactly the logs that satisfy the invariant.\<close>

lemma validate_mmr_state_iff: "validate_mmr_state L cl = Inr () \<longleftrightarrow> core_ok L cl"
proof -
  let ?dc = "cl_initial_dc cl" and ?H = "sha256 L" and ?n = "length (cl_changes cl)" and ?p = "cl_proven_up_to cl"
  have init: "initialize ?H mmr_new (digest_bytes ?dc) = Some (the_tree ?H (log_leaves L ?dc []))"
    by (simp add: initialize_the_tree log_leaves_def)
  have roots: "roots_ok L cl \<longleftrightarrow> length (cl_roots_by_change_id cl) = ?n + 1 \<and>
      cl_roots_by_change_id cl ! 0 = tree_root ?H (log_leaves L ?dc []) \<and>
      (\<forall>j < ?n. cl_roots_by_change_id cl ! (j + 1) = tree_root ?H (log_leaves L ?dc (take (j + 1) (cl_changes cl))))"
    unfolding roots_ok_iff less_Suc_eq_le [symmetric] All_less_Suc2 by simp
  have head: "mmr_tree_head ?H (cl_tree cl) = Some (the_head ?H (log_leaves L ?dc (cl_changes cl))) \<longleftrightarrow>
      cl_tree cl = the_tree ?H (log_leaves L ?dc (cl_changes cl))" if "?n < 2 ^ 32 - 1"
    using that mmr_tree_head_the_tree [of "log_leaves L ?dc (cl_changes cl)" ?H] mmr_tree_head_inject by auto
  have match: "(case (a, b) of (None, None) \<Rightarrow> Inr () | (Some c, Some e) \<Rightarrow> if c = e then Inr () else Inl Generic
      | _ \<Rightarrow> Inl Generic) = (if a = b then Inr () else Inl Generic)" for a b :: "tree_head option"
    by (cases a; cases b) auto
  have "validate_mmr_state L cl = Inr () \<longleftrightarrow>
      length (cl_roots_by_change_id cl) = ?n + 1 \<and> length (cl_pruned_merkle_trees cl) = ?n \<and> ?p \<le> ?n \<and>
      cl_roots_by_change_id cl ! 0 = tree_root ?H (log_leaves L ?dc []) \<and>
      (\<exists>t ap h. replay_changes L cl (cl_changes cl) 0 (the_tree ?H (log_leaves L ?dc [])) None = Inr (t, ap) \<and>
        mmr_tree_head ?H t = Some h \<and> mmr_tree_head ?H (cl_tree cl) = Some h \<and> cl_proven_clc_state cl = ap)"
    unfolding validate_mmr_state_def init match
    by (auto simp: res_bind_Inr_iff mmr_root_the_tree split: if_splits)
  then show ?thesis
    unfolding replay_changes_iff [of "[]", simplified] core_ok_def proven_ok_def roots
    using head by (auto simp: mmr_tree_head_the_tree)
qed

section \<open>Operations keep the invariant\<close>

lemma extend_all_holds:
  assumes "cache_holds H c xs" and "extend_all H c ys = Some c'"
  shows "cache_holds H c' (xs @ ys)"
  using assms
proof (induction ys arbitrary: c xs)
  case (Cons y ys)
  then obtain d where d: "extend_with_leaf H c y = Some d" "extend_all H d ys = Some c'"
    by (auto simp: bind_eq_Some_conv)
  then have "length xs < 2 ^ 32 - 1"
    using cache.add_defined_iff [OF Cons.prems(1)] by blast
  then have "cache_holds H d (xs @ [y])"
    using cache.add_holds [OF Cons.prems(1), of y] d(1) by auto
  from Cons.IH [OF this d(2)] show ?case
    by simp
qed simp

lemma extend_all_defined:
  assumes "cache_holds H c xs" and "length xs + length ys \<le> 2 ^ 32 - 1"
  shows "\<exists>c'. extend_all H c ys = Some c'"
  using assms
proof (induction ys arbitrary: c xs)
  case (Cons y ys)
  then obtain d where d: "extend_with_leaf H c y = Some d" "cache_holds H d (xs @ [y])"
    using cache.add_holds [of H c xs y] by auto
  with Cons.IH [of d "xs @ [y]"] Cons.prems show ?case
    by auto
qed simp

lemma initial_cache_holds:
  "\<exists>c. inclusion_proof_cache_with_initial_leaf L dc = Some c \<and> cache_holds (sha256 L) c (log_leaves L dc [])"
  using cache.add_holds [OF cache.holds_empty, of "sha256 L"]
  by (auto simp: inclusion_proof_cache_with_initial_leaf_def log_leaves_def)

lemma build_cache_holds:
  assumes "length changes < 2 ^ 32 - 1"
  shows "\<exists>c. build_inclusion_proof_cache L dc changes = Some c \<and> cache_holds (sha256 L) c (log_leaves L dc changes)"
proof -
  obtain c where c: "inclusion_proof_cache_with_initial_leaf L dc = Some c" "cache_holds (sha256 L) c (log_leaves L dc [])"
    using initial_cache_holds by blast
  obtain c' where "extend_all (sha256 L) c (map (entry_leaf L) changes) = Some c'"
    using extend_all_defined [OF c(2), of "map (entry_leaf L) changes"] assms by auto
  with c extend_all_holds [OF c(2) this] show ?thesis
    by (simp add: build_inclusion_proof_cache_def log_leaves_append)
qed

lemma log_inv_new: "change_log_new L dc = Some cl \<Longrightarrow> log_inv L cl"
  by (auto simp: change_log_new_def initialize_the_tree mmr_root_the_tree log_inv_def core_ok_def roots_ok_def
    proven_ok_def caches_ok_def log_leaves_def)

lemma change_log_new_defined: "\<exists>cl. change_log_new L dc = Some cl"
  by (simp add: change_log_new_def initialize_the_tree mmr_root_the_tree)

lemma log_inv_add_change:
  assumes inv: "log_inv L cl" and add: "add_change L dispatch cl change w old_root new_root = Inr (cl', n)"
  shows "log_inv L cl'" and "cl_changes cl' = cl_changes cl @ [change]"
    and "cl_initial_dc cl' = cl_initial_dc cl" and "unat n = length (cl_changes cl')"
    and "cl_proven_up_to cl' = cl_proven_up_to cl"
proof -
  let ?H = "sha256 L" and ?dc = "cl_initial_dc cl" and ?cs = "cl_changes cl @ [change]"
  have core: "core_ok L cl" and caches: "caches_ok L cl"
    using inv by (simp_all add: log_inv_def)
  have len: "length (cl_changes cl) < 2 ^ 32 - 1" and tree: "cl_tree cl = the_tree ?H (log_leaves L ?dc (cl_changes cl))"
    using core by (simp_all add: core_ok_def)
  from add obtain cache where len': "length ?cs < 2 ^ 32 - 1"
      and cache: "(case cl_inclusion_proof_cache cl of None \<Rightarrow> Inr None
        | Some c \<Rightarrow> res_bind (ok_or Panic (extend_with_leaf ?H c (entry_leaf L change))) (\<lambda>c. Inr (Some c))) = Inr cache"
      and cl': "cl' = cl\<lparr>cl_tree := the_tree ?H (log_leaves L ?dc ?cs),
        cl_roots_by_change_id := cl_roots_by_change_id cl @ [tree_root ?H (log_leaves L ?dc ?cs)],
        cl_inclusion_proof_cache := cache, cl_changes := ?cs,
        cl_pruned_merkle_trees := cl_pruned_merkle_trees cl @
          [\<lparr>pt_pruned_merkle_tree = w, pt_old_root = old_root, pt_new_root = new_root\<rparr>]\<rparr>"
      and n: "n = of_nat (length ?cs)"
    using len unfolding add_change_def tree
    by (auto simp: res_bind_Inr_iff mmr_append_log_leaves mmr_root_the_tree Let_def split: if_splits)
  have roots: "roots_ok L cl'"
    using core len unfolding core_ok_def roots_ok_iff cl' by (auto simp: nth_append le_Suc_eq)
  have proven: "proven_ok L cl'"
    using core unfolding core_ok_def proven_ok_def cl' by auto
  have "cache_holds ?H c (log_leaves L ?dc ?cs)" if "cache = Some c" for c
    using cache that caches len' cache.add_holds [of ?H _ "log_leaves L ?dc (cl_changes cl)" "entry_leaf L change"]
    by (fastforce simp: caches_ok_def res_bind_Inr_iff log_leaves_snoc [symmetric] split: option.splits)
  then have "caches_ok L cl'"
    using caches core unfolding caches_ok_def cl' core_ok_def proven_ok_def by auto
  then show "log_inv L cl'"
    using roots proven core len' by (simp add: log_inv_def core_ok_def cl')
  show "cl_changes cl' = ?cs" and "cl_initial_dc cl' = ?dc" and "unat n = length (cl_changes cl')"
    and "cl_proven_up_to cl' = cl_proven_up_to cl"
    using len' n unat_of_nat_u32 [of "length ?cs"] by (simp_all add: cl')
qed

text \<open>A cache over the right leaves answers every index with a proof that verifies.\<close>

lemma cache_prove_verifies:
  assumes "cache_holds H c xs" and "unat i < length xs"
  shows "\<exists>p. cache_prove c i = Some (Some p) \<and> verify_with_leaf_hash H (the_head H xs) p (xs ! unat i)"
proof -
  have "head_of H (the_head H xs) xs"
    using assms by (auto simp: head_of_the_head cache_holds_def)
  then show ?thesis
    using cache_prove_path [OF assms] generated_proof_verifies assms(2) by blast
qed

lemma needs_rebuild_holds:
  assumes "cache_holds H c xs" and "xs \<noteq> []"
  shows "inclusion_proof_cache_needs_rebuild (Some c) n (Some r) \<longleftrightarrow> n \<noteq> length xs \<or> r \<noteq> tree_root H xs"
proof -
  have "unat (pc_leaf_count c) = length xs"
    using assms(1) unat_of_nat_u32 [of "length xs"] by (simp add: cache_holds_def)
  then show ?thesis
    using cache.commit_holds [OF assms(1)] assms(2)
    by (auto simp: inclusion_proof_cache_needs_rebuild_def cache_commit_def)
qed

lemma ensure_cache_built:
  assumes "log_inv L cl"
  shows "\<exists>c. ensure_inclusion_proof_cache_built L cl = Some (cl\<lparr>cl_inclusion_proof_cache := Some c\<rparr>) \<and>
    cache_holds (sha256 L) c (log_leaves L (cl_initial_dc cl) (cl_changes cl))"
proof (cases "inclusion_proof_cache_needs_rebuild (cl_inclusion_proof_cache cl) (length (cl_changes cl) + 1)
    (mmr_root (sha256 L) (cl_tree cl))")
  case True
  then show ?thesis
    using assms build_cache_holds [of "cl_changes cl" L "cl_initial_dc cl"]
    by (auto simp: ensure_inclusion_proof_cache_built_def log_inv_def core_ok_def)
next
  case False
  then obtain c where "cl_inclusion_proof_cache cl = Some c"
    by (auto simp: inclusion_proof_cache_needs_rebuild_def split: option.splits)
  moreover from this have "cl\<lparr>cl_inclusion_proof_cache := Some c\<rparr> = cl"
    by simp
  ultimately show ?thesis
    using False assms
    by (intro exI [of _ c]) (simp add: ensure_inclusion_proof_cache_built_def log_inv_def caches_ok_def)
qed

lemma ensure_ff_cache_built:
  assumes inv: "log_inv L cl"
  shows "\<exists>c. ensure_ff_inclusion_proof_cache_built L cl = Some (cl\<lparr>cl_ff_inclusion_proof_cache := Some c\<rparr>) \<and>
    cache_holds (sha256 L) c (log_leaves L (cl_initial_dc cl) (take (cl_proven_up_to cl) (cl_changes cl)))"
proof -
  let ?H = "sha256 L" and ?p = "cl_proven_up_to cl" and ?dc = "cl_initial_dc cl"
  let ?xs = "log_leaves L ?dc (take ?p (cl_changes cl))"
  have p: "?p \<le> length (cl_changes cl)" and len: "length (cl_changes cl) < 2 ^ 32 - 1"
    using inv by (simp_all add: log_inv_def core_ok_def proven_ok_def)
  have root: "(case cl_proven_clc_state cl of Some h \<Rightarrow> Some (th_root h)
      | None \<Rightarrow> map_option th_root (initial_clc_state L ?dc)) = Some (tree_root ?H ?xs)"
    using inv by (auto simp: log_inv_def core_ok_def proven_ok_def the_head_def initial_clc_state_def
      initialize_the_tree mmr_tree_head_the_tree log_leaves_def)
  show ?thesis
  proof (cases "inclusion_proof_cache_needs_rebuild (cl_ff_inclusion_proof_cache cl) (?p + 1) (Some (tree_root ?H ?xs))")
    case True
    then show ?thesis
      using p len build_cache_holds [of "take ?p (cl_changes cl)" L ?dc]
      by (auto simp: ensure_ff_inclusion_proof_cache_built_def root)
  next
    case False
    then obtain c where c: "cl_ff_inclusion_proof_cache cl = Some c"
      by (auto simp: inclusion_proof_cache_needs_rebuild_def split: option.splits)
    then obtain j where "j \<le> ?p" and holds: "cache_holds ?H c (log_leaves L ?dc (drop j (take ?p (cl_changes cl))))"
      using inv by (auto simp: log_inv_def caches_ok_def)
    then have "j = 0"
      using False [unfolded c needs_rebuild_holds [OF holds log_leaves_nonempty]] p by auto
    moreover have "cl\<lparr>cl_ff_inclusion_proof_cache := Some c\<rparr> = cl"
      using c by simp
    ultimately show ?thesis
      using False holds by (intro exI [of _ c]) (simp add: ensure_ff_inclusion_proof_cache_built_def root)
  qed
qed

lemma log_inv_prove_inclusion:
  assumes inv: "log_inv L cl" and i: "unat i \<le> length (cl_changes cl)"
  shows "\<exists>c p. prove_inclusion L cl i = Some (cl\<lparr>cl_inclusion_proof_cache := Some c\<rparr>, Some p) \<and>
    log_inv L (cl\<lparr>cl_inclusion_proof_cache := Some c\<rparr>) \<and>
    verify_with_leaf_hash (sha256 L) (the_head (sha256 L) (log_leaves L (cl_initial_dc cl) (cl_changes cl))) p
      (log_leaves L (cl_initial_dc cl) (cl_changes cl) ! unat i)"
proof -
  let ?xs = "log_leaves L (cl_initial_dc cl) (cl_changes cl)"
  obtain c where c: "ensure_inclusion_proof_cache_built L cl = Some (cl\<lparr>cl_inclusion_proof_cache := Some c\<rparr>)"
      and holds: "cache_holds (sha256 L) c ?xs"
    using ensure_cache_built [OF inv] by blast
  obtain p where "cache_prove c i = Some (Some p)"
      "verify_with_leaf_hash (sha256 L) (the_head (sha256 L) ?xs) p (?xs ! unat i)"
    using cache_prove_verifies [OF holds, of i] i by auto
  moreover have "length (cl_changes cl) < 2 ^ 32 - 1"
    using inv by (simp add: log_inv_def core_ok_def)
  moreover from this have "\<not> of_nat (length (cl_changes cl) + 1) \<le> i"
    using i unat_of_nat_u32 [of "length (cl_changes cl) + 1"] by (simp add: word_le_nat_alt)
  moreover have "log_inv L (cl\<lparr>cl_inclusion_proof_cache := Some c\<rparr>)"
    using inv holds by (simp add: log_inv_def core_ok_def roots_ok_def proven_ok_def caches_ok_def)
  ultimately show ?thesis
    using c by (auto simp: prove_inclusion_def)
qed

lemma log_inv_prove_ff:
  assumes inv: "log_inv L cl" and i: "unat i \<le> cl_proven_up_to cl"
  shows "\<exists>c p. prove_included_in_ff_range L cl i = Some (cl\<lparr>cl_ff_inclusion_proof_cache := Some c\<rparr>, Some p) \<and>
    log_inv L (cl\<lparr>cl_ff_inclusion_proof_cache := Some c\<rparr>) \<and>
    verify_with_leaf_hash (sha256 L)
      (the_head (sha256 L) (log_leaves L (cl_initial_dc cl) (take (cl_proven_up_to cl) (cl_changes cl)))) p
      (log_leaves L (cl_initial_dc cl) (cl_changes cl) ! unat i)"
proof -
  let ?xs = "log_leaves L (cl_initial_dc cl) (take (cl_proven_up_to cl) (cl_changes cl))"
  obtain c where c: "ensure_ff_inclusion_proof_cache_built L cl = Some (cl\<lparr>cl_ff_inclusion_proof_cache := Some c\<rparr>)"
      and holds: "cache_holds (sha256 L) c ?xs"
    using ensure_ff_cache_built [OF inv] by blast
  have len: "length (cl_changes cl) < 2 ^ 32 - 1" "cl_proven_up_to cl \<le> length (cl_changes cl)"
    using inv by (simp_all add: log_inv_def core_ok_def proven_ok_def)
  obtain p where "cache_prove c i = Some (Some p)"
      "verify_with_leaf_hash (sha256 L) (the_head (sha256 L) ?xs) p (?xs ! unat i)"
    using cache_prove_verifies [OF holds, of i] i len by auto
  moreover have "?xs ! unat i = log_leaves L (cl_initial_dc cl) (cl_changes cl) ! unat i"
    using i len by (cases "unat i") (simp_all add: log_leaves_def)
  moreover have "\<not> of_nat (cl_proven_up_to cl + 1) \<le> i"
    using i len unat_of_nat_u32 [of "cl_proven_up_to cl + 1"] by (simp add: word_le_nat_alt)
  moreover have "log_inv L (cl\<lparr>cl_ff_inclusion_proof_cache := Some c\<rparr>)"
    using inv holds by (auto simp: log_inv_def core_ok_def roots_ok_def proven_ok_def caches_ok_def intro!: exI [of _ 0])
  ultimately show ?thesis
    using c len by (auto simp: prove_included_in_ff_range_def)
qed

lemma head_append_all_leaves:
  "length cs < 2 ^ 32 - 1 \<Longrightarrow> head_append_all L (the_head (sha256 L) (log_leaves L dc cs)) es =
    (if length (cs @ es) < 2 ^ 32 - 1 then Some (the_head (sha256 L) (log_leaves L dc (cs @ es))) else None)"
proof (induction es arbitrary: cs)
  case (Cons e es)
  have "head_append (sha256 L) (the_head (sha256 L) (log_leaves L dc cs)) (entry_bytes L e) =
      (if length cs + 1 < 2 ^ 32 - 1 then Some (the_head (sha256 L) (log_leaves L dc (cs @ [e]))) else None)"
    using Cons.prems head_append_the_head [of "log_leaves L dc cs" "sha256 L" "entry_bytes L e"]
    by (simp add: log_leaves_snoc [symmetric] entry_leaf_def)
  then show ?case
    using Cons.IH [of "cs @ [e]"] by simp
qed simp

lemma drop_take_append:
  assumes "j \<le> p" and "p \<le> n"
  shows "drop j (take p xs) @ drop p (take n xs) = drop j (take n xs)"
proof -
  have n: "n - j = (p - j) + (n - p)"
    using assms by simp
  show ?thesis
    unfolding drop_take n take_add using assms by simp
qed

lemma log_inv_set_ff_proof:
  assumes inv: "log_inv L cl" and n: "cl_proven_up_to cl < n" "n \<le> length (cl_changes cl)"
  shows "\<exists>cl'. set_ff_proof L cl proof_bytes n = Some cl' \<and> log_inv L cl' \<and> cl_changes cl' = cl_changes cl \<and>
    cl_proven_up_to cl' = n \<and> cl_initial_dc cl' = cl_initial_dc cl"
proof -
  let ?H = "sha256 L" and ?p = "cl_proven_up_to cl" and ?dc = "cl_initial_dc cl" and ?cs = "cl_changes cl"
  let ?newly = "drop ?p (take n ?cs)"
  have len: "length ?cs < 2 ^ 32 - 1" and p: "?p \<le> length ?cs"
    using inv by (simp_all add: log_inv_def core_ok_def proven_ok_def)
  have start: "(case cl_proven_clc_state cl of Some h \<Rightarrow> Some h | None \<Rightarrow> initial_clc_state L ?dc) =
      Some (the_head ?H (log_leaves L ?dc (take ?p ?cs)))"
    using inv by (auto simp: log_inv_def core_ok_def proven_ok_def initial_clc_state_def
      initialize_the_tree mmr_tree_head_the_tree log_leaves_def)
  have whole: "take ?p ?cs @ ?newly = take n ?cs"
    using drop_take_append [of 0 ?p n ?cs] n by simp
  have head: "head_append_all L (the_head ?H (log_leaves L ?dc (take ?p ?cs))) ?newly =
      Some (the_head ?H (log_leaves L ?dc (take n ?cs)))"
    using head_append_all_leaves [of "take ?p ?cs" L ?dc ?newly] len n unfolding whole by simp
  obtain c j where c: "(case cl_ff_inclusion_proof_cache cl of Some c \<Rightarrow> Some c
        | None \<Rightarrow> inclusion_proof_cache_with_initial_leaf L ?dc) = Some c"
      and j: "j \<le> ?p" and holds: "cache_holds ?H c (log_leaves L ?dc (drop j (take ?p ?cs)))"
  proof (cases "cl_ff_inclusion_proof_cache cl")
    case None
    then show ?thesis
      using initial_cache_holds [of L ?dc] that [of _ ?p] by auto
  next
    case (Some c)
    then show ?thesis
      using inv that by (auto simp: log_inv_def caches_ok_def)
  qed
  have "length (log_leaves L ?dc (drop j (take ?p ?cs))) + length (map (entry_leaf L) ?newly) \<le> 2 ^ 32 - 1"
    using len n j p by simp
  from extend_all_defined [OF holds this] obtain c' where c': "extend_all ?H c (map (entry_leaf L) ?newly) = Some c'"
    by blast
  have holds': "cache_holds ?H c' (log_leaves L ?dc (drop j (take n ?cs)))"
    using extend_all_holds [OF holds c'] drop_take_append [OF j, of n ?cs] n by (simp add: log_leaves_append)
  let ?cl' = "cl\<lparr>cl_proven_clc_state := Some (the_head ?H (log_leaves L ?dc (take n ?cs))),
    cl_ff_inclusion_proof_cache := Some c', cl_ff_proof := proof_bytes, cl_proven_up_to := n\<rparr>"
  have "set_ff_proof L cl proof_bytes n = Some ?cl'"
    using n head c' by (simp add: set_ff_proof_def start c Let_def)
  moreover have "log_inv L ?cl'"
    using inv n j holds' unfolding log_inv_def core_ok_def roots_ok_def proven_ok_def caches_ok_def
    by (auto intro!: exI [of _ j])
  ultimately show ?thesis
    by auto
qed

section \<open>Histories\<close>

inductive log_step :: "libs \<Rightarrow> dispatcher \<Rightarrow> change_log \<Rightarrow> change_log \<Rightarrow> bool" for L dispatch where
  step_add: "add_change L dispatch cl change w old_root new_root = Inr (cl', n) \<Longrightarrow> log_step L dispatch cl cl'"
| step_prove: "prove_inclusion L cl i = Some (cl', p) \<Longrightarrow> log_step L dispatch cl cl'"
| step_prove_ff: "prove_included_in_ff_range L cl i = Some (cl', p) \<Longrightarrow> log_step L dispatch cl cl'"
| step_set_ff: "set_ff_proof L cl proof_bytes n = Some cl' \<Longrightarrow> log_step L dispatch cl cl'"

inductive log_reachable :: "libs \<Rightarrow> dispatcher \<Rightarrow> (bytes \<Rightarrow> change_log option) \<Rightarrow> change_log \<Rightarrow> bool"
  for L dispatch decode where
  reach_new: "change_log_new L dc = Some cl \<Longrightarrow> log_reachable L dispatch decode cl"
| reach_load: "change_log_from_bytes L decode bs = Inr cl \<Longrightarrow> log_reachable L dispatch decode cl"
| reach_step: "log_reachable L dispatch decode cl \<Longrightarrow> log_step L dispatch cl cl' \<Longrightarrow> log_reachable L dispatch decode cl'"

lemma log_inv_load: "change_log_from_bytes L decode bs = Inr cl \<Longrightarrow> log_inv L cl"
  by (auto simp: change_log_from_bytes_def res_bind_Inr_iff Let_def validate_mmr_state_iff log_inv_def caches_ok_def)

lemma prove_inclusion_out_of_range:
  "prove_inclusion L cl i = Some (cl', p) \<Longrightarrow> log_inv L cl \<Longrightarrow> \<not> unat i \<le> length (cl_changes cl) \<Longrightarrow> cl' = cl"
  using unat_of_nat_u32 [of "length (cl_changes cl) + 1"]
  by (auto simp: prove_inclusion_def log_inv_def core_ok_def word_le_nat_alt split: if_splits)

lemma prove_ff_out_of_range:
  "prove_included_in_ff_range L cl i = Some (cl', p) \<Longrightarrow> log_inv L cl \<Longrightarrow> \<not> unat i \<le> cl_proven_up_to cl \<Longrightarrow> cl' = cl"
  using unat_of_nat_u32 [of "cl_proven_up_to cl + 1"]
  by (auto simp: prove_included_in_ff_range_def log_inv_def core_ok_def proven_ok_def word_le_nat_alt split: if_splits)

lemma log_inv_step:
  assumes "log_step L dispatch cl cl'" and inv: "log_inv L cl"
  shows "log_inv L cl' \<and> prefix (cl_changes cl) (cl_changes cl') \<and> cl_initial_dc cl' = cl_initial_dc cl \<and>
    cl_proven_up_to cl \<le> cl_proven_up_to cl'"
  using assms(1)
proof cases
  case step_add
  then show ?thesis
    using log_inv_add_change [OF inv step_add] by simp
next
  case (step_prove i p)
  then show ?thesis
    using log_inv_prove_inclusion [OF inv, of i] prove_inclusion_out_of_range [OF step_prove inv] inv
    by (cases "unat i \<le> length (cl_changes cl)") auto
next
  case (step_prove_ff i p)
  then show ?thesis
    using log_inv_prove_ff [OF inv, of i] prove_ff_out_of_range [OF step_prove_ff inv] inv
    by (cases "unat i \<le> cl_proven_up_to cl") auto
next
  case (step_set_ff proof_bytes n)
  then have "cl_proven_up_to cl < n" "n \<le> length (cl_changes cl)"
    by (auto simp: set_ff_proof_def split: if_splits)
  then show ?thesis
    using log_inv_set_ff_proof [OF inv, of n proof_bytes] step_set_ff by auto
qed

lemma log_inv_reachable: "log_reachable L dispatch decode cl \<Longrightarrow> log_inv L cl"
  by (induction rule: log_reachable.induct) (auto intro: log_inv_new log_inv_load dest: log_inv_step)

text \<open>C5: whatever history of additions, proof requests, proof boundaries and reloads a changelog has been
  through, it passes the validation that loading runs, and it records for every change the root of
  the log up to that change.\<close>

theorem reachable_log_is_valid:
  assumes "log_reachable L dispatch decode cl"
  shows "validate_mmr_state L cl = Inr () \<and>
    (\<forall>k. root_at cl k = (if unat k \<le> length (cl_changes cl)
      then Some (tree_root (sha256 L) (log_leaves L (cl_initial_dc cl) (take (unat k) (cl_changes cl)))) else None))"
proof -
  have "core_ok L cl"
    using log_inv_reachable [OF assms] by (simp add: log_inv_def)
  then show ?thesis
    unfolding validate_mmr_state_iff core_ok_def roots_ok_iff by (simp add: root_at_def less_Suc_eq_le)
qed

text \<open>C13: in every reachable changelog the request of an inclusion proof succeeds for every change of the
  log, without a panic, and the proof verifies against the current head for the leaf of that change.\<close>

theorem reachable_log_proves_inclusion:
  assumes reach: "log_reachable L dispatch decode cl" and "unat i \<le> length (cl_changes cl)"
  shows "\<exists>cl' p h. prove_inclusion L cl i = Some (cl', Some p) \<and> current_clc_state L cl' = Some h \<and>
    current_clc_state L cl = Some h \<and>
    verify_with_leaf_hash (sha256 L) h p (log_leaves L (cl_initial_dc cl) (cl_changes cl) ! unat i)"
proof -
  have inv: "log_inv L cl"
    by (rule log_inv_reachable [OF reach])
  then have "current_clc_state L cl =
      Some (the_head (sha256 L) (log_leaves L (cl_initial_dc cl) (cl_changes cl)))"
    by (simp add: log_inv_def core_ok_def current_clc_state_def mmr_tree_head_the_tree)
  then show ?thesis
    using log_inv_prove_inclusion [OF inv assms(2)] by (auto simp: current_clc_state_def)
qed

text \<open>C14: the same for the proven range: every change up to the boundary of the fast-forward proof has a
  proof, and it verifies against the head stored for the boundary (the initial head while nothing is
  proven).  This holds although the cache behind it may be stale after a reload.\<close>

theorem reachable_log_proves_ff_range:
  assumes reach: "log_reachable L dispatch decode cl" and "unat i \<le> cl_proven_up_to cl"
  shows "\<exists>cl' p h. prove_included_in_ff_range L cl i = Some (cl', Some p) \<and>
    (case cl_proven_clc_state cl of Some h \<Rightarrow> Some h | None \<Rightarrow> initial_clc_state L (cl_initial_dc cl)) = Some h \<and>
    verify_with_leaf_hash (sha256 L) h p (log_leaves L (cl_initial_dc cl) (cl_changes cl) ! unat i)"
proof -
  have inv: "log_inv L cl"
    by (rule log_inv_reachable [OF reach])
  then have "(case cl_proven_clc_state cl of Some h \<Rightarrow> Some h | None \<Rightarrow> initial_clc_state L (cl_initial_dc cl)) =
      Some (the_head (sha256 L) (log_leaves L (cl_initial_dc cl) (take (cl_proven_up_to cl) (cl_changes cl))))"
    by (auto simp: log_inv_def core_ok_def proven_ok_def initial_clc_state_def initialize_the_tree
      mmr_tree_head_the_tree log_leaves_def)
  then show ?thesis
    using log_inv_prove_ff [OF inv assms(2)] by auto
qed

lemma log_steps_extend:
  assumes "(log_step L dispatch)\<^sup>*\<^sup>* cl cl'" and "log_inv L cl"
  shows "log_inv L cl' \<and> prefix (cl_changes cl) (cl_changes cl') \<and> cl_initial_dc cl' = cl_initial_dc cl \<and>
    cl_proven_up_to cl \<le> cl_proven_up_to cl'"
  using assms
proof (induction rule: rtranclp_induct)
  case (step y z)
  then show ?case
    using log_inv_step [OF step(2)] by (auto dest: prefix_order.trans order_trans)
qed simp

lemma root_at_inv:
  "log_inv L cl \<Longrightarrow> root_at cl k = (if unat k \<le> length (cl_changes cl)
    then Some (tree_root (sha256 L) (log_leaves L (cl_initial_dc cl) (take (unat k) (cl_changes cl)))) else None)"
  unfolding log_inv_def core_ok_def roots_ok_iff by (simp add: root_at_def less_Suc_eq_le)

text \<open>C15: the changelog only grows.  Along any sequence of operations the changes already recorded stay a
  prefix of the log, the root recorded for a change never changes, and the proven boundary never
  moves back.\<close>

theorem log_is_append_only:
  assumes "log_reachable L dispatch decode cl" and "(log_step L dispatch)\<^sup>*\<^sup>* cl cl'" and "root_at cl k = Some r"
  shows "prefix (cl_changes cl) (cl_changes cl') \<and> root_at cl' k = Some r \<and>
    cl_proven_up_to cl \<le> cl_proven_up_to cl'"
proof -
  have inv: "log_inv L cl"
    by (rule log_inv_reachable [OF assms(1)])
  note ext = log_steps_extend [OF assms(2) inv]
  then obtain more where "cl_changes cl' = cl_changes cl @ more"
    by (auto elim: prefixE)
  then show ?thesis
    using ext assms(3) root_at_inv [OF inv, of k] root_at_inv [of L cl' k] by (auto split: if_splits)
qed

text \<open>An instance of the libraries, with a validator that accepts every entry and writes nothing.\<close>

definition small_libs :: libs where
  "small_libs = \<lparr>sha256 = (\<lambda>b. of_nat (be_nat b)), entry_bytes = entry_wire,
    decode_tree = (\<lambda>_. Some (PFull [2] [9] PEmpty PEmpty)), kvh = small_kv_hash, rooth = small_root_hash,
    walker = root_put, usize_max = 4294967295\<rparr>"

definition accept_all :: dispatcher where
  "accept_all e ctx cache = Done (\<lparr>write_steps = []\<rparr>, cache)"

lemma small_history:
  "\<exists>cl cl'. change_log_new small_libs 5 = Some cl \<and> add_change small_libs accept_all cl default_entry [] 12 12 = Inr (cl', 1) \<and>
    log_reachable small_libs accept_all (\<lambda>_. None) cl \<and> log_step small_libs accept_all cl cl' \<and>
    length (cl_changes cl') = 1 \<and> cl_proven_up_to cl' = 0"
proof -
  obtain cl where cl: "change_log_new small_libs 5 = Some cl"
    using change_log_new_defined by blast
  have changes: "cl_changes cl = []" "cl_inclusion_proof_cache cl = None" "cl_initial_dc cl = 5" "cl_proven_up_to cl = 0"
    using cl by (auto simp: change_log_new_def bind_eq_Some_conv)
  have tree: "cl_tree cl = the_tree (sha256 small_libs) (log_leaves small_libs 5 [])"
    using log_inv_new [OF cl] changes by (simp add: log_inv_def core_ok_def)
  have verify: "verify_proof_and_validate small_libs accept_all default_entry [] 12 12 (Suc 0) = Inr []"
    by (simp add: verify_proof_and_validate_def verify_proof_and_validate_inner_def small_libs_def accept_all_def
      validate_parent_change_def default_entry_def small_kv_hash_def small_node_hash_def run_pruned_def
      flatten_write_steps_def apply_batch_def dedup_batch_def end_root_def MAX_PARENT_DISTANCE_def)
  have "\<exists>cl'. add_change small_libs accept_all cl default_entry [] 12 12 = Inr (cl', 1) \<and>
      length (cl_changes cl') = 1 \<and> cl_proven_up_to cl' = 0"
    unfolding add_change_def changes tree
    by (simp add: verify mmr_append_log_leaves mmr_root_the_tree changes Let_def)
  then show ?thesis
    using cl reach_new [OF cl] step_add by blast
qed

theorem reachable_log_is_valid_witness:
  "\<exists>cl. log_reachable small_libs accept_all (\<lambda>_. None) cl \<and> length (cl_changes cl) = 1 \<and>
    validate_mmr_state small_libs cl = Inr ()"
  using small_history reachable_log_is_valid [OF reach_step] by (metis reach_step)

theorem reachable_log_proves_inclusion_witness:
  "\<exists>cl cl' p. log_reachable small_libs accept_all (\<lambda>_. None) cl \<and> length (cl_changes cl) = 1 \<and>
    prove_inclusion small_libs cl 1 = Some (cl', Some p)"
proof -
  obtain cl where cl: "log_reachable small_libs accept_all (\<lambda>_. None) cl" "length (cl_changes cl) = 1"
    using small_history reach_step by blast
  then show ?thesis
    using reachable_log_proves_inclusion [OF cl(1), of 1] by auto
qed

theorem reachable_log_proves_ff_range_witness:
  "\<exists>cl cl' p. log_reachable small_libs accept_all (\<lambda>_. None) cl \<and> cl_proven_up_to cl = 1 \<and>
    prove_included_in_ff_range small_libs cl 1 = Some (cl', Some p)"
proof -
  obtain cl where cl: "log_reachable small_libs accept_all (\<lambda>_. None) cl" "length (cl_changes cl) = 1"
      "cl_proven_up_to cl < 1"
    using small_history reach_step by (metis zero_less_one)
  obtain cl2 where "set_ff_proof small_libs cl [1] 1 = Some cl2" and proven: "cl_proven_up_to cl2 = 1"
    using log_inv_set_ff_proof [OF log_inv_reachable [OF cl(1)] cl(3), of "[1]"] cl(2) by auto
  then have reach: "log_reachable small_libs accept_all (\<lambda>_. None) cl2"
    using reach_step [OF cl(1)] step_set_ff by blast
  show ?thesis
    using reachable_log_proves_ff_range [OF reach, of 1] reach proven by auto
qed

theorem log_is_append_only_witness:
  "\<exists>cl cl'. change_log_new small_libs 5 = Some cl \<and> length (cl_changes cl') = 1 \<and>
    root_at cl' 0 = root_at cl 0"
proof -
  obtain cl cl' where cl: "change_log_new small_libs 5 = Some cl" "log_reachable small_libs accept_all (\<lambda>_. None) cl"
      "log_step small_libs accept_all cl cl'" "length (cl_changes cl') = 1"
    using small_history by blast
  obtain r where "root_at cl 0 = Some r"
    using root_at_inv [OF log_inv_reachable [OF cl(2)], of 0] by auto
  then show ?thesis
    using log_is_append_only [OF cl(2) r_into_rtranclp [of "log_step small_libs accept_all", OF cl(3)]] cl by auto
qed

section \<open>A verified change\<close>

lemma flatten_write_steps_aux:
  "fold_res (\<lambda>step writes. case step of TWrite ops \<Rightarrow> Inr (writes @ ops) | TRead _ \<Rightarrow> Inl Generic) steps acc = Inr ws \<longleftrightarrow>
    (\<exists>opss. steps = map TWrite opss \<and> ws = acc @ concat opss)"
proof (induction steps arbitrary: acc)
  case (Cons step steps)
  show ?case
  proof (cases step)
    case (TWrite ops)
    then show ?thesis
      using Cons.IH [of "acc @ ops"] by (auto simp: Cons_eq_map_conv)
  qed (auto simp: Cons_eq_map_conv)
qed auto

lemma flatten_write_steps_iff:
  "flatten_write_steps res = Inr ws \<longleftrightarrow> (\<exists>opss. write_steps res = map TWrite opss \<and> ws = concat opss)"
  by (simp add: flatten_write_steps_def flatten_write_steps_aux)

text \<open>One step of the committed store: the validator runs on the entries of the store and its writes are
  performed in order.\<close>

lemma run_and_apply_stands_for:
  assumes walker: "walker_law (kvh L) (rooth L) (walker L)"
    and stands: "stands_for (rooth L) (Some q) (Some t)" and ok: "store_ok (kvh L) (Some t)"
    and run: "run_pruned (kvh L) q prog = Inr (res, cache)" and "flatten_write_steps res = Inr writes"
    and app: "apply_batch (walker L) (Some q) writes = Some q'"
  shows "run_store (entries t) prog = Inr (res, cache) \<and>
    (\<exists>t'. stands_for (rooth L) q' t' \<and> store_ok (kvh L) t' \<and> store_entries t' = fold write_op writes (entries t))"
  using apply_batch_stands_for [OF walker stands ok app] run_pruned_store [of "rooth L" q t "kvh L" prog] stands ok run
  by (simp add: stands_for_def store_ok_def store_entries_def)

text \<open>C1: a change that passes verification is a genuine transition of the committed store.  Let \<open>t\<close> be the
  complete tree with the old root and assume no hash collision among its nodes and those of the
  witness.  Then the validator accepts the change when run on the entries of the store itself, and the
  new root is the root of the store after exactly the returned writes, performed in order.\<close>

theorem verify_proof_sound:
  assumes law: "merkle_law node_hash (rooth L)" and walker: "walker_law (kvh L) (rooth L) (walker L)"
    and store: "store_ok (kvh L) (Some t)" and root: "rooth L t = old_root"
    and witness: "decode_tree L w = Some pt" "pruned_to_merk (kvh L) pt = Some (Some p)"
    and free: "collision_free (kvh L) node_hash (set (entries p) \<union> set (entries t))
      (node_inputs (rooth L) p \<union> node_inputs (rooth L) t)"
    and accepted: "verify_proof_and_validate L dispatch change w old_root new_root cid = Inr writes"
  shows "\<exists>res cache t'. run_store (entries t) (dispatch change (for_change_id cid) cache_default) = Inr (res, cache) \<and>
    flatten_write_steps res = Inr writes \<and> store_ok (kvh L) t' \<and>
    store_entries t' = fold write_op writes (entries t) \<and> end_root (rooth L) t' = new_root"
proof -
  from accepted witness obtain res cache q where start: "rooth L p = old_root"
      and run: "run_pruned (kvh L) p (dispatch change (for_change_id cid) cache_default) = Inr (res, cache)"
      and flat: "flatten_write_steps res = Inr writes"
      and app: "apply_batch (walker L) (Some p) writes = Some q" and final: "end_root (rooth L) q = new_root"
    by (auto simp: verify_proof_and_validate_def verify_proof_and_validate_inner_def res_bind_Inr_iff split: if_splits)
  have "prunes (rooth L) p t"
    using same_root_prunes(1) [OF law free, of p t] pruned_to_merk_kv_bound [OF witness(2)] store start root
    by (simp add: store_ok_def)
  then have "stands_for (rooth L) (Some p) (Some t)"
    by (simp add: stands_for_def)
  from run_and_apply_stands_for [OF walker this store run flat app] show ?thesis
    using flat final stands_for_end_root [OF law] by auto
qed

text \<open>An instance: a validator that replaces the value of the root key.\<close>

definition put_root :: dispatcher where
  "put_root e ctx cache = Ask (ReadKey [2]) (\<lambda>r. Done (\<lparr>write_steps = [TWrite [BPut [2] (concat (map snd (pr_results r)) @ [9])]]\<rparr>, cache))"

theorem verify_proof_sound_witness:
  "\<exists>res cache t'. run_store [([2], [9])] (put_root default_entry (for_change_id 1) cache_default) = Inr (res, cache) \<and>
    flatten_write_steps res = Inr [BPut [2] [9, 9]] \<and> store_ok small_kv_hash t' \<and>
    store_entries t' = [([2], [9, 9])] \<and> end_root small_root_hash t' = 13"
proof -
  let ?t = "Node [2] [9] 11 None None"
  have "verify_proof_and_validate small_libs put_root default_entry [] 12 13 1 = Inr [BPut [2] [9, 9]]"
    by (simp add: verify_proof_and_validate_def verify_proof_and_validate_inner_def small_libs_def put_root_def
      validate_parent_change_def default_entry_def small_kv_hash_def small_node_hash_def run_pruned_def
      flatten_write_steps_def apply_batch_def dedup_batch_def root_put_def end_root_def MAX_PARENT_DISTANCE_def
      read_from_pruned_tree_def)
  from verify_proof_sound [where t = ?t and p = ?t and pt = "PFull [2] [9] PEmpty PEmpty" and L = small_libs
      and node_hash = small_node_hash, OF _ _ _ _ _ _ _ this]
  show ?thesis
    using small_merkle_law root_put_walker_law
    by (simp add: small_libs_def store_ok_def small_kv_hash_def small_node_hash_def search_tree_def collision_free_def)
qed

end
