(* ===== verification/Changelog_Sequence.thy ===== *)
theory Changelog_Sequence
  imports Changelog
begin

text \<open>
  What \<open>verify_op_sequence\<close> of \<open>ffproof/changelog_core/src/changelog.rs\<close> establishes.  The abstract side is
  a chain: the leaves of the changelog, the entries of the store, the latest change of each user and
  the timestamp mark.  \<open>replay_entry\<close> adds one serialised entry to it, and refuses an entry that is not
  bound to the prefix it names, is not the author's next one, or is refused by the operation.

  The main lemma is a forward simulation: every accepted round of the verification loop is a step of
  the chain, with the witness tree standing for the store and the window of roots for the prefixes.
\<close>

section \<open>The abstract chain\<close>

record chain =
  cn_leaves :: "digest list"
  cn_store :: "(bytes \<times> bytes) list"
  cn_cache :: meta_cache
  cn_sigrefs :: "u32 \<rightharpoonup> u32 \<times> digest"
  cn_hwm :: u64

text \<open>The change that is being added has the number of leaves as its identifier, because the first leaf
  is the initial commitment.\<close>

definition entry_bound :: "libs \<Rightarrow> chain \<Rightarrow> changelog_entry \<Rightarrow> bool" where
  "entry_bound L c e \<longleftrightarrow>
    ce_sig_ref e = (case cn_sigrefs c (ce_uid e) of Some (k, _) \<Rightarrow> k | None \<Rightarrow> 0) \<and>
    unat (ce_parent_change e) < length (cn_leaves c) \<and>
    length (cn_leaves c) \<le> unat (ce_parent_change e) + 10 \<and>
    ce_parent_clc e = tree_root (sha256 L) (take (unat (ce_parent_change e) + 1) (cn_leaves c))"

definition replay_entry :: "libs \<Rightarrow> dispatcher \<Rightarrow> bytes \<Rightarrow> chain \<Rightarrow> chain option" where
  "replay_entry L dispatch bs c =
    (case from_bytes_for_verification (usize_max L) bs of
       Inl _ \<Rightarrow> None
     | Inr e \<Rightarrow>
         let (fresh, hwm) = validate_timestamp_hwm (ce_timestamp e) (cn_hwm c); leaf = h_leaf (sha256 L) bs in
         if \<not> fresh \<or> \<not> entry_bound L c e then None
         else (case run_store (cn_store c) (dispatch e (for_change_id (length (cn_leaves c))) (cn_cache c)) of
             Inl _ \<Rightarrow> None
           | Inr (res, cache) \<Rightarrow>
               (case flatten_write_steps res of
                  Inl _ \<Rightarrow> None
                | Inr writes \<Rightarrow> Some \<lparr>cn_leaves = cn_leaves c @ [leaf],
                    cn_store = fold write_op writes (cn_store c),
                    cn_cache = finish_change (lm_op_type (ce_message e)) cache,
                    cn_sigrefs = (cn_sigrefs c)(ce_uid e \<mapsto> (of_nat (length (cn_leaves c)), leaf)),
                    cn_hwm = hwm\<rparr>)))"

fun replay :: "libs \<Rightarrow> dispatcher \<Rightarrow> bytes list \<Rightarrow> chain \<Rightarrow> chain option" where
  "replay L dispatch [] c = Some c"
| "replay L dispatch (bs # es) c = Option.bind (replay_entry L dispatch bs c) (replay L dispatch es)"

lemma replay_append:
  "replay L dispatch (xs @ ys) c = Option.bind (replay L dispatch xs c) (replay L dispatch ys)"
proof (induction xs arbitrary: c)
  case (Cons bs xs)
  then show ?case
    by (cases "replay_entry L dispatch bs c") simp_all
qed simp

lemma replay_leaves:
  "replay L dispatch es c = Some c' \<Longrightarrow> cn_leaves c' = cn_leaves c @ map (h_leaf (sha256 L)) es"
proof (induction es arbitrary: c)
  case (Cons bs es)
  then obtain d where "replay_entry L dispatch bs c = Some d" and d: "replay L dispatch es d = Some c'"
    by (auto simp: bind_eq_Some_conv)
  then have "cn_leaves d = cn_leaves c @ [h_leaf (sha256 L) bs]"
    by (auto simp: replay_entry_def Let_def split: sum.splits prod.splits if_splits)
  then show ?case
    using Cons.IH [OF d] by simp
qed simp

section \<open>The window of recent roots\<close>

definition window_ok :: "(bytes \<Rightarrow> digest) \<Rightarrow> digest list \<Rightarrow> (u32 \<times> digest) list \<Rightarrow> bool" where
  "window_ok H xs roots \<longleftrightarrow> (\<forall>(k, r) \<in> set roots. unat k < length xs \<and> r = tree_root H (take (unat k + 1) xs))"

lemma prune_window_drop: "\<exists>n. prune_window roots = drop n roots"
proof (induction roots)
  case (Cons r rs)
  then obtain n where "prune_window rs = drop n rs"
    by blast
  then have "prune_window (r # rs) = drop (if unat MAX_PARENT_DISTANCE < length (r # rs) then Suc n else 0) (r # rs)"
    by simp
  then show ?case
    by blast
qed simp

lemma length_prune_window: "length (prune_window roots) \<le> 10"
  by (induction roots) (simp_all add: MAX_PARENT_DISTANCE_def)

lemma prune_window_last: "roots \<noteq> [] \<Longrightarrow> prune_window roots \<noteq> [] \<and> last (prune_window roots) = last roots"
  by (induction roots) (auto simp: MAX_PARENT_DISTANCE_def)

lemma window_ok_prune: "window_ok H xs roots \<Longrightarrow> window_ok H xs (prune_window roots)"
proof -
  have "set (prune_window roots) \<subseteq> set roots"
    using prune_window_drop [of roots] set_drop_subset by metis
  then show "window_ok H xs roots \<Longrightarrow> window_ok H xs (prune_window roots)"
    unfolding window_ok_def by blast
qed

lemma window_ok_push:
  assumes "window_ok H xs roots" and "length xs < 2 ^ 32"
  shows "window_ok H (xs @ [x]) (prune_window (roots @ [(of_nat (length xs), tree_root H (xs @ [x]))]))"
proof (rule window_ok_prune)
  show "window_ok H (xs @ [x]) (roots @ [(of_nat (length xs), tree_root H (xs @ [x]))])"
    using assms unat_of_nat_u32 [of "length xs"] by (auto simp: window_ok_def Suc_le_eq)
qed

lemma window_ok_find:
  "window_ok H xs roots \<Longrightarrow> validate_parent_clc k clc roots \<Longrightarrow>
    unat k < length xs \<and> clc = tree_root H (take (unat k + 1) xs)"
proof -
  assume ok: "window_ok H xs roots" and "validate_parent_clc k clc roots"
  then have "(k, clc) \<in> set roots"
    by (auto simp: validate_parent_clc_def find_Some_iff in_set_conv_nth split: option.splits if_splits)
  then show ?thesis
    using ok unfolding window_ok_def by blast
qed

section \<open>The loop simulates the chain\<close>

definition round_matches :: "libs \<Rightarrow> loop_state \<Rightarrow> chain \<Rightarrow> bool" where
  "round_matches L s c \<longleftrightarrow>
    (\<exists>t. stands_for (rooth L) (Some (ls_tree s)) (Some t) \<and> store_ok (kvh L) (Some t) \<and> entries t = cn_store c) \<and>
    cn_leaves c \<noteq> [] \<and> length (cn_leaves c) < 2 ^ 32 \<and>
    ls_working s = the_tree (sha256 L) (cn_leaves c) \<and> ls_cache s = cn_cache c \<and>
    ff_sigref_map (ls_ff s) = cn_sigrefs c \<and> ff_timestamp_hwm (ls_ff s) = cn_hwm c \<and>
    window_ok (sha256 L) (cn_leaves c) (ff_recent_roots (ls_ff s))"

lemma validate_sigref_True:
  "validate_sigref m uid sig_ref k leaf = (True, m') \<longleftrightarrow>
    sig_ref = (case m uid of Some (j, _) \<Rightarrow> j | None \<Rightarrow> 0) \<and> m' = m(uid \<mapsto> (k, leaf))"
  by (auto simp: validate_sigref_def split: option.splits)

lemma validate_parent_change_distance: "validate_parent_change k n \<Longrightarrow> n \<le> unat k + 10"
  by (auto simp: validate_parent_change_def MAX_PARENT_DISTANCE_def Let_def split: if_splits)

text \<open>What an accepted round has checked.\<close>

lemma verify_step_Inr:
  assumes "verify_step L dispatch start i bs s = Some (Inr s')" and n: "unat start + i + 1 = n"
  obtains working leaf e hwm sigrefs res cache writes tree root where
    "mmr_append (sha256 L) (ls_working s) bs = Some (working, leaf)"
    "from_bytes_for_verification (usize_max L) bs = Inr e"
    "validate_timestamp_hwm (ce_timestamp e) (ff_timestamp_hwm (ls_ff s)) = (True, hwm)"
    "validate_sigref (ff_sigref_map (ls_ff s)) (ce_uid e) (ce_sig_ref e) (of_nat n) leaf = (True, sigrefs)"
    "validate_parent_change (ce_parent_change e) n"
    "validate_parent_clc (ce_parent_change e) (ce_parent_clc e) (ff_recent_roots (ls_ff s))"
    "run_pruned (kvh L) (ls_tree s) (dispatch e (for_change_id n) (ls_cache s)) = Inr (res, cache)"
    "flatten_write_steps res = Inr writes" "apply_batch (walker L) (Some (ls_tree s)) writes = Some (Some tree)"
    "mmr_root (sha256 L) working = Some root"
    "s' = \<lparr>ls_tree = tree, ls_working = working, ls_cache = finish_change (lm_op_type (ce_message e)) cache,
      ls_ff = \<lparr>ff_sigref_map = sigrefs, ff_recent_roots =
          prune_window (ff_recent_roots (ls_ff s) @ [(of_nat n, root)]),
        ff_timestamp_hwm = hwm\<rparr>\<rparr>"
proof -
  let ?ff = "ls_ff s"
  have ctx: "begin_change for_change_sequence n = for_change_id n" for n
    by (simp add: begin_change_def for_change_sequence_def for_change_id_def)
  note step = assms(1) [unfolded verify_step_def ctx Let_def n]
  from step obtain working leaf where app: "mmr_append (sha256 L) (ls_working s) bs = Some (working, leaf)"
    by (auto simp: bind_eq_Some_conv)
  note step = step [unfolded app, simplified]
  from step obtain e where e: "from_bytes_for_verification (usize_max L) bs = Inr e"
    by (auto split: sum.splits if_splits)
  obtain fresh hwm chained sigrefs where
      hwm: "validate_timestamp_hwm (ce_timestamp e) (ff_timestamp_hwm ?ff) = (fresh, hwm)"
      and sig: "validate_sigref (ff_sigref_map ?ff) (ce_uid e) (ce_sig_ref e) (of_nat n) leaf = (chained, sigrefs)"
    by fastforce
  note step = step [unfolded e, simplified, unfolded hwm, simplified]
  from step sig have ok: "fresh" "chained" "validate_parent_change (ce_parent_change e) n"
      "validate_parent_clc (ce_parent_change e) (ce_parent_clc e) (ff_recent_roots ?ff)"
    by (auto split: if_splits)
  let ?g = "?ff\<lparr>ff_timestamp_hwm := hwm, ff_sigref_map := sigrefs\<rparr>"
  have step: "(case run_pruned (kvh L) (ls_tree s) (dispatch e (for_change_id n) (ls_cache s)) of
      Inl e \<Rightarrow> if e = Panic then None else Some (Inl ?g)
    | Inr (res, cache) \<Rightarrow> (case flatten_write_steps res of Inl e \<Rightarrow> Some (Inl ?g)
      | Inr writes \<Rightarrow> Option.bind (apply_batch (walker L) (Some (ls_tree s)) writes) (\<lambda>mt. case mt of
            None \<Rightarrow> Some (Inl ?g)
          | Some tree \<Rightarrow> Option.bind (mmr_root (sha256 L) working) (\<lambda>root. Some (Inr
              \<lparr>ls_tree = tree, ls_working = working, ls_cache = finish_change (lm_op_type (ce_message e)) cache,
                ls_ff = ?g\<lparr>ff_recent_roots := prune_window (ff_recent_roots ?g @ [(of_nat n, root)])\<rparr>\<rparr>))))) =
      Some (Inr s')"
    using step sig ok by simp
  from step obtain res cache where
      run: "run_pruned (kvh L) (ls_tree s) (dispatch e (for_change_id n) (ls_cache s)) = Inr (res, cache)"
    by (auto split: sum.splits if_splits)
  from step run obtain writes where flat: "flatten_write_steps res = Inr writes"
    by (auto split: sum.splits)
  from step run flat obtain tree root where
      "apply_batch (walker L) (Some (ls_tree s)) writes = Some (Some tree)" "mmr_root (sha256 L) working = Some root"
      "s' = \<lparr>ls_tree = tree, ls_working = working, ls_cache = finish_change (lm_op_type (ce_message e)) cache,
        ls_ff = \<lparr>ff_sigref_map = sigrefs, ff_recent_roots = prune_window (ff_recent_roots ?ff @ [(of_nat n, root)]),
          ff_timestamp_hwm = hwm\<rparr>\<rparr>"
    by (cases ?ff) (auto simp: bind_eq_Some_conv split: option.splits)
  then show thesis
    using that [OF app e _ _ _ _ run flat] hwm sig ok by simp
qed

lemma verify_step_replays:
  assumes walker: "walker_law (kvh L) (rooth L) (walker L)" and matches: "round_matches L s c"
    and id: "unat start + i + 1 = length (cn_leaves c)"
    and step: "verify_step L dispatch start i bs s = Some (Inr s')"
  shows "\<exists>c'. replay_entry L dispatch bs c = Some c' \<and> round_matches L s' c' \<and>
    last (ff_recent_roots (ls_ff s')) = (of_nat (length (cn_leaves c)), tree_root (sha256 L) (cn_leaves c')) \<and>
    ff_recent_roots (ls_ff s') \<noteq> [] \<and> length (ff_recent_roots (ls_ff s')) \<le> 10"
proof -
  let ?xs = "cn_leaves c" and ?leaf = "h_leaf (sha256 L) bs"
  from step obtain working leaf e hwm sigrefs res cache writes tree root where
      app: "mmr_append (sha256 L) (ls_working s) bs = Some (working, leaf)"
    and e: "from_bytes_for_verification (usize_max L) bs = Inr e"
    and hwm: "validate_timestamp_hwm (ce_timestamp e) (ff_timestamp_hwm (ls_ff s)) = (True, hwm)"
    and sig: "validate_sigref (ff_sigref_map (ls_ff s)) (ce_uid e) (ce_sig_ref e) (of_nat (length ?xs)) leaf = (True, sigrefs)"
    and dist: "validate_parent_change (ce_parent_change e) (length ?xs)"
    and clc: "validate_parent_clc (ce_parent_change e) (ce_parent_clc e) (ff_recent_roots (ls_ff s))"
    and run: "run_pruned (kvh L) (ls_tree s) (dispatch e (for_change_id (length ?xs)) (ls_cache s)) = Inr (res, cache)"
    and flat: "flatten_write_steps res = Inr writes"
    and put: "apply_batch (walker L) (Some (ls_tree s)) writes = Some (Some tree)"
    and root: "mmr_root (sha256 L) working = Some root"
    and s': "s' = \<lparr>ls_tree = tree, ls_working = working, ls_cache = finish_change (lm_op_type (ce_message e)) cache,
      ls_ff = \<lparr>ff_sigref_map = sigrefs, ff_recent_roots =
          prune_window (ff_recent_roots (ls_ff s) @ [(of_nat (length ?xs), root)]), ff_timestamp_hwm = hwm\<rparr>\<rparr>"
    by (rule verify_step_Inr [OF _ id])
  obtain t where t: "stands_for (rooth L) (Some (ls_tree s)) (Some t)" "store_ok (kvh L) (Some t)" "entries t = cn_store c"
    and xs: "?xs \<noteq> []" "length ?xs < 2 ^ 32" "ls_working s = the_tree (sha256 L) ?xs"
    and eqs: "ls_cache s = cn_cache c" "ff_sigref_map (ls_ff s) = cn_sigrefs c" "ff_timestamp_hwm (ls_ff s) = cn_hwm c"
    and window: "window_ok (sha256 L) ?xs (ff_recent_roots (ls_ff s))"
    using matches unfolding round_matches_def by blast
  from app xs have len: "length (?xs @ [?leaf]) < 2 ^ 32" and leaf: "leaf = ?leaf"
      and working: "working = the_tree (sha256 L) (?xs @ [?leaf])"
    by (auto simp: mmr_append_the_tree split: if_splits)
  have root': "root = tree_root (sha256 L) (?xs @ [?leaf])"
    using root mmr_root_the_tree [OF len] working by simp
  from run_and_apply_stands_for [OF walker t(1,2) run flat put] obtain t' where
      spec: "run_store (cn_store c) (dispatch e (for_change_id (length ?xs)) (cn_cache c)) = Inr (res, cache)"
      and t': "stands_for (rooth L) (Some tree) t'" "store_ok (kvh L) t'" "store_entries t' = fold write_op writes (cn_store c)"
    by (auto simp: t(3) eqs)
  from t' obtain n where "t' = Some n"
    by (cases t') (auto simp: stands_for_def)
  then have t'': "\<exists>t. stands_for (rooth L) (Some tree) (Some t) \<and> store_ok (kvh L) (Some t) \<and>
      entries t = fold write_op writes (cn_store c)"
    using t' by (auto simp: store_entries_def)
  let ?c' = "\<lparr>cn_leaves = ?xs @ [?leaf], cn_store = fold write_op writes (cn_store c),
      cn_cache = finish_change (lm_op_type (ce_message e)) cache,
      cn_sigrefs = (cn_sigrefs c)(ce_uid e \<mapsto> (of_nat (length ?xs), ?leaf)), cn_hwm = hwm\<rparr>"
  have "entry_bound L c e"
    using sig window_ok_find [OF window clc] validate_parent_change_distance [OF dist]
    by (simp add: entry_bound_def validate_sigref_True eqs)
  then have "replay_entry L dispatch bs c = Some ?c'"
    using e hwm spec flat by (simp add: replay_entry_def eqs Let_def)
  moreover have "round_matches L s' ?c'"
    using t'' len sig window_ok_push [OF window xs(2), of ?leaf]
    by (simp add: round_matches_def s' working validate_sigref_True leaf eqs root')
  moreover have "last (ff_recent_roots (ls_ff s')) = (of_nat (length ?xs), tree_root (sha256 L) (?xs @ [?leaf]))"
      "ff_recent_roots (ls_ff s') \<noteq> []" "length (ff_recent_roots (ls_ff s')) \<le> 10"
    using prune_window_last [of "ff_recent_roots (ls_ff s) @ [(of_nat (length ?xs), root)]"]
    by (simp_all add: s' root' length_prune_window)
  ultimately show ?thesis
    by auto
qed

lemma verify_loop_replays:
  assumes walker: "walker_law (kvh L) (rooth L) (walker L)" and matches: "round_matches L s c"
    and id: "unat start + 1 = length (cn_leaves c)"
    and "verify_loop L dispatch start entry n s = Some (Inr s')" and "\<forall>i < n. entry i = Some (Some (es ! i))"
    and "n \<le> length es"
  shows "\<exists>c'. replay L dispatch (take n es) c = Some c' \<and> round_matches L s' c' \<and>
    (0 < n \<longrightarrow> ff_recent_roots (ls_ff s') \<noteq> [] \<and> length (ff_recent_roots (ls_ff s')) \<le> 10 \<and>
      last (ff_recent_roots (ls_ff s')) = (of_nat (unat start + n), tree_root (sha256 L) (cn_leaves c')))"
  using assms(4-)
proof (induction n arbitrary: s')
  case 0
  then show ?case
    using matches by simp
next
  case (Suc n)
  then obtain r where r: "verify_loop L dispatch start entry n s = Some r"
    by (auto simp: bind_eq_Some_conv)
  with Suc.prems obtain s1 where loop: "verify_loop L dispatch start entry n s = Some (Inr s1)"
      and step: "verify_step L dispatch start n (es ! n) s1 = Some (Inr s')"
    by (cases r) auto
  from Suc.IH [OF loop] Suc.prems obtain c1 where c1: "replay L dispatch (take n es) c = Some c1" "round_matches L s1 c1"
    by auto
  have leaves: "unat start + n + 1 = length (cn_leaves c1)"
    using replay_leaves [OF c1(1)] id Suc.prems by simp
  from verify_step_replays [OF walker c1(2) leaves step] c1(1) Suc.prems show ?case
    by (auto simp: take_Suc_conv_app_nth replay_append leaves [symmetric])
qed

section \<open>An accepted sequence\<close>

text \<open>What the threaded state says about a chain, and what a verified range says about the chain it ends in.\<close>

definition range_ends :: "libs \<Rightarrow> fast_forward_range \<Rightarrow> ff_state \<Rightarrow> chain \<Rightarrow> bool" where
  "range_ends L rng ff c \<longleftrightarrow>
    fr_end_clc_state rng = the_head (sha256 L) (cn_leaves c) \<and>
    (\<exists>t. store_ok (kvh L) (Some t) \<and> entries t = cn_store c \<and> rooth L t = fr_end_dc rng) \<and>
    ff_sigref_map ff = cn_sigrefs c \<and> ff_timestamp_hwm ff = cn_hwm c \<and>
    window_ok (sha256 L) (cn_leaves c) (ff_recent_roots ff) \<and> length (ff_recent_roots ff) \<le> 10 \<and>
    ff_recent_roots ff \<noteq> [] \<and>
    last (ff_recent_roots ff) = (of_nat (length (cn_leaves c) - 1), tree_root (sha256 L) (cn_leaves c))"

lemma seed_window_ok:
  assumes "seed_recent_roots start (th_root h) roots = Some roots'" and "h = the_head H xs"
    and "window_ok H xs roots" and "unat start + 1 = length xs"
  shows "window_ok H xs roots'"
proof (cases "roots = []")
  case True
  then have "roots' = [(0, tree_root H xs)]" and "start = 0"
    using assms(1,2) by (auto simp: seed_recent_roots_def the_head_def split: if_splits)
  moreover have "take (Suc 0) xs = xs"
    using assms(4) \<open>start = 0\<close> by simp
  ultimately show ?thesis
    using assms(4) by (cases xs) (simp_all add: window_ok_def)
next
  case False
  then show ?thesis
    using assms(1,3) by (auto simp: seed_recent_roots_def split: if_splits)
qed

definition chain_start :: "digest list \<Rightarrow> (bytes \<times> bytes) list \<Rightarrow> ff_state \<Rightarrow> chain" where
  "chain_start xs kvs ff = \<lparr>cn_leaves = xs, cn_store = kvs, cn_cache = cache_default,
    cn_sigrefs = ff_sigref_map ff, cn_hwm = ff_timestamp_hwm ff\<rparr>"

lemma verify_sequence_True:
  assumes "verify_op_sequence_with_tree L dispatch len entry rng (Some p) start ff = Some (True, ff')"
  obtains roots s where
    "verify_for_change_id (sha256 L) (fr_start_clc_state rng) start"
    "start = 0 \<Longrightarrow> initial_clc_state L (fr_start_dc rng) = Some (fr_start_clc_state rng)"
    "seed_recent_roots start (th_root (fr_start_clc_state rng)) (ff_recent_roots ff) = Some roots"
    "unat (th_tree_size (fr_start_clc_state rng)) + len < 2 ^ 32" "unat (fr_end_change_id rng) \<le> len"
    "0 < unat (fr_end_change_id rng)"
    "th_tree_size (fr_end_clc_state rng) = th_tree_size (fr_start_clc_state rng) + of_nat len"
    "rooth L p = fr_start_dc rng"
    "verify_loop L dispatch start entry (unat (fr_end_change_id rng)) \<lparr>ls_tree = p,
        ls_working = \<lparr>mt_peaks = th_peaks (fr_start_clc_state rng), mt_tree_size = th_tree_size (fr_start_clc_state rng)\<rparr>,
        ls_cache = cache_default, ls_ff = ff\<lparr>ff_recent_roots := roots\<rparr>\<rparr> = Some (Inr s)"
    "rooth L (ls_tree s) = fr_end_dc rng" "mmr_tree_head (sha256 L) (ls_working s) = Some (fr_end_clc_state rng)"
    "ls_ff s = ff'"
proof -
  let ?h = "fr_start_clc_state rng" and ?n = "unat (fr_end_change_id rng)"
  note acc = assms [unfolded verify_op_sequence_with_tree_def Let_def, simplified]
  from acc have v: "verify_for_change_id (sha256 L) ?h start"
    by (auto split: if_splits)
  note acc = acc [simplified v, simplified]
  from acc obtain b where "(if start = 0 then map_option (\<lambda>h. ?h = h) (initial_clc_state L (fr_start_dc rng))
      else Some True) = Some b" and b
    by (auto simp: v bind_eq_Some_conv split: if_splits)
  then have init: "(if start = 0 then map_option (\<lambda>h. ?h = h) (initial_clc_state L (fr_start_dc rng))
      else Some True) = Some True"
    by simp
  from acc obtain roots where roots: "seed_recent_roots start (th_root ?h) (ff_recent_roots ff) = Some roots"
    by (cases "seed_recent_roots start (th_root ?h) (ff_recent_roots ff)") (auto simp: v init)
  note acc = acc [unfolded init roots, simplified]
  let ?s0 = "\<lparr>ls_tree = p, ls_working = \<lparr>mt_peaks = th_peaks ?h, mt_tree_size = th_tree_size ?h\<rparr>,
      ls_cache = cache_default, ls_ff = ff\<lparr>ff_recent_roots := roots\<rparr>\<rparr>"
  from acc have guards: "unat (th_tree_size ?h) + len < 2 ^ 32" "?n \<le> len" "0 < ?n"
      "verify_for_tree_size (sha256 L) (fr_end_clc_state rng) (th_tree_size ?h + of_nat len)" "rooth L p = fr_start_dc rng"
    by (auto simp: v unat_gt_0 split: if_splits)
  from acc guards obtain r where r: "verify_loop L dispatch start entry ?n ?s0 = Some r"
    by (auto simp: v bind_eq_Some_conv split: if_splits)
  from acc guards r obtain s where s: "r = Inr s" "rooth L (ls_tree s) = fr_end_dc rng"
      "mmr_tree_head (sha256 L) (ls_working s) = Some (fr_end_clc_state rng)" "ls_ff s = ff'"
    by (cases r) (auto simp: v bind_eq_Some_conv split: if_splits)
  have "initial_clc_state L (fr_start_dc rng) = Some ?h" if "start = 0"
    using init that by auto
  then show thesis
    using that [OF v _ roots guards(1-3) _ guards(5) r [unfolded s(1)] s(2-4)] guards(4)
    by (auto simp: verify_for_tree_size_def)
qed

lemma unat_succ_u32: "(k :: u32) \<noteq> 0xFFFFFFFF \<Longrightarrow> unat (k + 1) = unat k + 1"
proof -
  assume "k \<noteq> 0xFFFFFFFF"
  then have "unat k < 2 ^ 32 - 1"
    using unsigned_less [of k, where 'a = nat] by (simp add: word_unat_eq_iff)
  then show ?thesis
    by (simp add: unat_word_ariths)
qed

lemma verify_for_change_id_the_head:
  assumes "verify_for_change_id H (the_head H xs) k" and "length xs < 2 ^ 32"
  shows "unat k + 1 = length xs"
proof -
  have "k \<noteq> 0xFFFFFFFF" and k: "of_nat (length xs) = k + 1"
    using assms(1) by (auto simp: verify_for_change_id_def verify_for_tree_size_def the_head_def split: if_splits)
  then show ?thesis
    using unat_succ_u32 [of k] arg_cong [OF k, of unat] unat_of_nat_u32 [OF assms(2)] by simp
qed

lemma start_matches:
  assumes law: "merkle_law node_hash (rooth L)" and store: "store_ok (kvh L) (Some t)" and "kv_bound (kvh L) p"
    and free: "collision_free (kvh L) node_hash (set (entries p) \<union> set (entries t))
      (node_inputs (rooth L) p \<union> node_inputs (rooth L) t)"
    and "rooth L p = rooth L t" and "xs \<noteq> []" "length xs < 2 ^ 32" and "window_ok (sha256 L) xs roots"
  shows "round_matches L \<lparr>ls_tree = p, ls_working = the_tree (sha256 L) xs, ls_cache = cache_default,
    ls_ff = ff\<lparr>ff_recent_roots := roots\<rparr>\<rparr> (chain_start xs (entries t) ff)"
proof -
  have "prunes (rooth L) p t"
    using same_root_prunes(1) [OF law free, of p t] assms by (simp add: store_ok_def)
  then show ?thesis
    using assms by (auto simp: round_matches_def chain_start_def stands_for_def)
qed

lemma accepted_sequence_replays:
  assumes law: "merkle_law node_hash (rooth L)" and walker: "walker_law (kvh L) (rooth L) (walker L)"
    and store: "store_ok (kvh L) (Some t)" "rooth L t = fr_start_dc rng" and bound: "kv_bound (kvh L) p"
    and free: "collision_free (kvh L) node_hash (set (entries p) \<union> set (entries t))
      (node_inputs (rooth L) p \<union> node_inputs (rooth L) t)"
    and xs: "fr_start_clc_state rng = the_head (sha256 L) xs" "xs \<noteq> []" "length xs < 2 ^ 32"
    and window: "window_ok (sha256 L) xs (ff_recent_roots ff)"
    and accepted: "verify_op_sequence_with_tree L dispatch (length es) entry rng (Some p) start ff = Some (True, ff')"
    and entry: "\<forall>i < length es. entry i = Some (Some (es ! i))"
  shows "\<exists>c'. replay L dispatch es (chain_start xs (entries t) ff) = Some c' \<and> range_ends L rng ff' c' \<and>
    unat (fr_end_change_id rng) = length es \<and> length xs + length es < 2 ^ 32"
proof -
  let ?n = "unat (fr_end_change_id rng)"
  from accepted obtain roots s where start: "verify_for_change_id (sha256 L) (fr_start_clc_state rng) start"
    and roots: "seed_recent_roots start (th_root (fr_start_clc_state rng)) (ff_recent_roots ff) = Some roots"
    and fits: "unat (th_tree_size (fr_start_clc_state rng)) + length es < 2 ^ 32" and n: "?n \<le> length es" "0 < ?n"
    and size: "th_tree_size (fr_end_clc_state rng) = th_tree_size (fr_start_clc_state rng) + of_nat (length es)"
    and root: "rooth L p = fr_start_dc rng"
    and loop: "verify_loop L dispatch start entry ?n \<lparr>ls_tree = p, ls_working = the_tree (sha256 L) xs,
        ls_cache = cache_default, ls_ff = ff\<lparr>ff_recent_roots := roots\<rparr>\<rparr> = Some (Inr s)"
    and final: "rooth L (ls_tree s) = fr_end_dc rng" "mmr_tree_head (sha256 L) (ls_working s) = Some (fr_end_clc_state rng)"
      "ls_ff s = ff'"
    by (rule verify_sequence_True [where p = p]) (simp add: xs the_head_the_tree)
  have id: "unat start + 1 = length xs"
    using verify_for_change_id_the_head [OF start [unfolded xs(1)] xs(3)] .
  from verify_loop_replays [OF walker start_matches [OF law store(1) bound free _ xs(2,3)
        seed_window_ok [OF roots xs(1) window id]] _ loop _ n(1)] obtain c' where
      c': "replay L dispatch (take ?n es) (chain_start xs (entries t) ff) = Some c'" "round_matches L s c'"
      and roots': "ff_recent_roots ff' \<noteq> []" "length (ff_recent_roots ff') \<le> 10"
        "last (ff_recent_roots ff') = (of_nat (unat start + ?n), tree_root (sha256 L) (cn_leaves c'))"
    using id n entry final(3) root store(2) by (auto simp: chain_start_def)
  have len: "length (cn_leaves c') = length xs + ?n"
    using replay_leaves [OF c'(1)] n by (simp add: chain_start_def)
  have fits': "length xs + length es < 2 ^ 32"
    using fits unat_of_nat_u32 [OF xs(3)] by (simp add: xs(1) the_head_def)
  have head: "fr_end_clc_state rng = the_head (sha256 L) (cn_leaves c')"
    using final(2) c'(2) by (auto simp: round_matches_def mmr_tree_head_the_tree)
  then have "(of_nat (length xs + ?n) :: u32) = of_nat (length xs + length es)"
    using size by (simp add: the_head_def xs(1) len)
  then have all: "?n = length es"
    using unat_of_nat_u32 [OF fits'] unat_of_nat_u32 [of "length xs + ?n"] fits' n(1) by simp
  obtain t' where "stands_for (rooth L) (Some (ls_tree s)) (Some t')" "store_ok (kvh L) (Some t')" "entries t' = cn_store c'"
    using c'(2) by (auto simp: round_matches_def)
  moreover have "rooth L t' = fr_end_dc rng"
    using stands_for_end_root [OF law calculation(1)] final(1) by (simp add: end_root_def)
  moreover have idx: "unat start + ?n = length (cn_leaves c') - 1"
    using id len by simp
  ultimately have "range_ends L rng ff' c'"
    using c'(2) roots'(1,2) roots'(3) [unfolded idx] final(3) head unfolding range_ends_def round_matches_def by auto
  then show ?thesis
    using c'(1) all fits' by (auto intro!: exI [of _ c'])
qed

end
