(* ===== verification/Fast_Forward.thy ===== *)
theory Fast_Forward
  imports Changelog_Sequence
begin

text \<open>
  Fast-forward proofs: the guest program \<open>ffproof/methods/guest/src/bin/extend_ff.rs\<close> whose journal is
  proven, the client's check of a proof (\<open>ffproof/src/verifier.rs\<close>) and the host side that prepares a
  chunk (\<open>ffproof/src/prover.rs\<close>).

  The zkVM is a parameter: \<open>env_verify\<close> says which journals the guest may assume for which program,
  \<open>receipt_verify\<close> checks a receipt against a program.  Serialisation of ranges and proofs is a parameter
  too.  \<^const>\<open>None\<close> is a panic of the guest or of the host.

  The lemmas show that a journal produced by a chain of guest runs describes a replay of all its
  entries from the initial store, and that the host reads its write overlay exactly as the store
  after the earlier changes.
\<close>

section \<open>The guest\<close>

type_synonym image_id = "u32 list"

record guest_input =
  gi_is_first :: bool
  gi_previous_io_bytes :: bytes
  gi_program_id :: image_id
  gi_entry_ends :: "u32 list"
  gi_entries_bytes :: bytes
  gi_range_bytes :: bytes
  gi_pruned_tree_bytes :: bytes

definition journal_ff :: "fast_forward_range \<Rightarrow> ff_state" where
  "journal_ff io = \<lparr>ff_sigref_map = fr_sigref_map io, ff_recent_roots = fr_recent_roots io,
    ff_timestamp_hwm = fr_timestamp_hwm io\<rparr>"

text \<open>The previous journal is only used when the chunk is not the first one.\<close>

definition read_previous_io ::
  "(bytes \<Rightarrow> fast_forward_range option) \<Rightarrow> (image_id \<Rightarrow> fast_forward_range \<Rightarrow> bool) \<Rightarrow> guest_input \<Rightarrow>
    fast_forward_range option option"
where
  "read_previous_io decode_range env_verify inp =
    (if gi_is_first inp then Some None
     else Option.bind (decode_range (gi_previous_io_bytes inp)) (\<lambda>io.
       if \<not> env_verify (gi_program_id inp) io then None else Some (Some io)))"

definition extend_ff ::
  "libs \<Rightarrow> dispatcher \<Rightarrow> (bytes \<Rightarrow> fast_forward_range option) \<Rightarrow> (image_id \<Rightarrow> fast_forward_range \<Rightarrow> bool) \<Rightarrow>
    guest_input \<Rightarrow> fast_forward_range option"
where
  "extend_ff L dispatch decode_range env_verify inp =
    Option.bind (read_previous_io decode_range env_verify inp) (\<lambda>previous_io.
    (case flat_new (gi_entries_bytes inp) (gi_entry_ends inp) of
       Inl _ \<Rightarrow> None
     | Inr es \<Rightarrow>
         Option.bind (decode_range (gi_range_bytes inp)) (\<lambda>verify_range.
         if unat (fr_end_change_id verify_range) \<noteq> length (fe_ends es) then None
         else if (case previous_io of None \<Rightarrow> False | Some io \<Rightarrow>
             fr_start_clc_state verify_range \<noteq> fr_end_clc_state io \<or> fr_start_dc verify_range \<noteq> fr_end_dc io) then None
         else
           let start_change_id = (case previous_io of None \<Rightarrow> 0 | Some io \<Rightarrow> fr_end_change_id io);
               ff = (case previous_io of
                   None \<Rightarrow> \<lparr>ff_sigref_map = Map.empty, ff_recent_roots = [], ff_timestamp_hwm = 0\<rparr>
                 | Some io \<Rightarrow> journal_ff io);
               num_changes = length (fe_ends es)
           in Option.bind (verify_op_sequence_flat L dispatch es verify_range (gi_pruned_tree_bytes inp)
               start_change_id ff) (\<lambda>(chain_valid, ff).
             if \<not> chain_valid then None
             else Some \<lparr>
               fr_start_clc_state = (case previous_io of None \<Rightarrow> fr_start_clc_state verify_range | Some io \<Rightarrow> fr_start_clc_state io),
               fr_end_clc_state = fr_end_clc_state verify_range,
               fr_start_dc = (case previous_io of None \<Rightarrow> fr_start_dc verify_range | Some io \<Rightarrow> fr_start_dc io),
               fr_end_dc = fr_end_dc verify_range,
               fr_end_change_id = (case previous_io of None \<Rightarrow> of_nat num_changes
                 | Some io \<Rightarrow> fr_end_change_id io + of_nat num_changes),
               fr_sigref_map = ff_sigref_map ff,
               fr_recent_roots = ff_recent_roots ff,
               fr_timestamp_hwm = ff_timestamp_hwm ff\<rparr>))))"

section \<open>The client\<close>

datatype ff_proof_error = DecodingError | DeserializationError | VerificationFailed

record 'receipt ff_proof =
  fp_io :: fast_forward_range
  fp_receipt :: 'receipt

record verified_ff_output =
  vo_start_clc_state :: tree_head
  vo_end_clc_state :: tree_head
  vo_start_dc :: digest
  vo_end_dc :: digest
  vo_end_change_id :: u32
  vo_sigref_map :: "u32 \<rightharpoonup> u32 \<times> digest"
  vo_timestamp_hwm :: u64

definition verify_ff_internal ::
  "('receipt \<Rightarrow> image_id \<Rightarrow> bool) \<Rightarrow> ('receipt \<Rightarrow> fast_forward_range option) \<Rightarrow> 'receipt ff_proof \<Rightarrow> image_id \<Rightarrow> bool"
where
  "verify_ff_internal receipt_verify journal_decode proof expected_image_id =
    (if \<not> receipt_verify (fp_receipt proof) expected_image_id then False
     else (case journal_decode (fp_receipt proof) of
         None \<Rightarrow> False
       | Some io \<Rightarrow>
           if fr_start_clc_state io \<noteq> fr_start_clc_state (fp_io proof) then False
           else if fr_end_clc_state io \<noteq> fr_end_clc_state (fp_io proof) then False
           else if fr_start_dc io \<noteq> fr_start_dc (fp_io proof) then False
           else if fr_end_dc io \<noteq> fr_end_dc (fp_io proof) then False
           else if fr_sigref_map io \<noteq> fr_sigref_map (fp_io proof) then False
           else if fr_timestamp_hwm io \<noteq> fr_timestamp_hwm (fp_io proof) then False
           else if fr_end_change_id io \<noteq> fr_end_change_id (fp_io proof) then False
           else True))"

definition verify_ff ::
  "(bytes \<Rightarrow> 'receipt ff_proof option) \<Rightarrow> ('receipt \<Rightarrow> image_id \<Rightarrow> bool) \<Rightarrow> ('receipt \<Rightarrow> fast_forward_range option) \<Rightarrow>
    bytes \<Rightarrow> image_id \<Rightarrow> ff_proof_error + verified_ff_output"
where
  "verify_ff deserialize receipt_verify journal_decode proof_bytes expected_image_id =
    (case deserialize proof_bytes of
       None \<Rightarrow> Inl DecodingError
     | Some proof \<Rightarrow>
         if verify_ff_internal receipt_verify journal_decode proof expected_image_id
         then Inr \<lparr>vo_start_clc_state = fr_start_clc_state (fp_io proof),
           vo_end_clc_state = fr_end_clc_state (fp_io proof), vo_start_dc = fr_start_dc (fp_io proof),
           vo_end_dc = fr_end_dc (fp_io proof), vo_end_change_id = fr_end_change_id (fp_io proof),
           vo_sigref_map = fr_sigref_map (fp_io proof), vo_timestamp_hwm = fr_timestamp_hwm (fp_io proof)\<rparr>
         else Inl VerificationFailed)"

section \<open>Journals of chained guest runs\<close>

text \<open>The metadata cache starts empty in every chunk.\<close>

fun replay_chunks :: "libs \<Rightarrow> dispatcher \<Rightarrow> bytes list list \<Rightarrow> chain \<Rightarrow> chain option" where
  "replay_chunks L dispatch [] c = Some c"
| "replay_chunks L dispatch (es # chunks) c =
    Option.bind (replay L dispatch es (c\<lparr>cn_cache := cache_default\<rparr>)) (replay_chunks L dispatch chunks)"

definition genesis :: "libs \<Rightarrow> digest \<Rightarrow> (bytes \<times> bytes) list \<Rightarrow> chain" where
  "genesis L dc kvs = chain_start [h_init (sha256 L) (digest_bytes dc)] kvs
    \<lparr>ff_sigref_map = Map.empty, ff_recent_roots = [], ff_timestamp_hwm = 0\<rparr>"

definition journal_sound :: "libs \<Rightarrow> dispatcher \<Rightarrow> (bytes \<times> bytes) list \<Rightarrow> bytes list list \<Rightarrow> fast_forward_range \<Rightarrow> bool" where
  "journal_sound L dispatch kvs chunks io \<longleftrightarrow> (\<exists>c.
    replay_chunks L dispatch chunks (genesis L (fr_start_dc io) kvs) = Some c \<and> range_ends L io (journal_ff io) c \<and>
    fr_start_clc_state io = the_head (sha256 L) [h_init (sha256 L) (digest_bytes (fr_start_dc io))] \<and>
    unat (fr_end_change_id io) = length (concat chunks) \<and> length (concat chunks) + 1 < 2 ^ 32)"

definition input_entries :: "guest_input \<Rightarrow> bytes list" where
  "input_entries inp = cut_at (gi_entries_bytes inp) 0 (map unat (gi_entry_ends inp))"

text \<open>No hash collision between the witness of a chunk and a tree that holds the entries of the store.\<close>

definition witness_free :: "libs \<Rightarrow> (digest \<Rightarrow> digest \<Rightarrow> digest \<Rightarrow> digest) \<Rightarrow> guest_input \<Rightarrow> (bytes \<times> bytes) list \<Rightarrow> bool" where
  "witness_free L node_hash inp kvs \<longleftrightarrow> (\<forall>p t. decode_compact_pruned_tree L (gi_pruned_tree_bytes inp) = Some p \<longrightarrow>
    store_ok (kvh L) (Some t) \<longrightarrow> entries t = kvs \<longrightarrow>
    collision_free (kvh L) node_hash (set (entries p) \<union> set (entries t)) (node_inputs (rooth L) p \<union> node_inputs (rooth L) t))"

text \<open>Journals that come from the guest itself: the first run starts from the tree of the initial store
  and every further run extends the journal of a run of the same program.\<close>

inductive ff_proved ::
  "libs \<Rightarrow> dispatcher \<Rightarrow> (bytes \<Rightarrow> fast_forward_range option) \<Rightarrow> (digest \<Rightarrow> digest \<Rightarrow> digest \<Rightarrow> digest) \<Rightarrow> merk_node \<Rightarrow>
    bytes list list \<Rightarrow> fast_forward_range \<Rightarrow> bool"
  for L dispatch decode_range node_hash t
where
  first: "gi_is_first inp \<Longrightarrow> extend_ff L dispatch decode_range (\<lambda>_ _. False) inp = Some io \<Longrightarrow>
    store_ok (kvh L) (Some t) \<Longrightarrow> rooth L t = fr_start_dc io \<Longrightarrow> witness_free L node_hash inp (entries t) \<Longrightarrow>
    ff_proved L dispatch decode_range node_hash t [input_entries inp] io"
| extension: "ff_proved L dispatch decode_range node_hash t chunks prev \<Longrightarrow> \<not> gi_is_first inp \<Longrightarrow>
    extend_ff L dispatch decode_range (\<lambda>_ io. io = prev) inp = Some io \<Longrightarrow>
    (\<And>c. replay_chunks L dispatch chunks (genesis L (fr_start_dc prev) (entries t)) = Some c \<Longrightarrow>
      witness_free L node_hash inp (cn_store c)) \<Longrightarrow>
    ff_proved L dispatch decode_range node_hash t (chunks @ [input_entries inp]) io"

lemma replay_chunks_append:
  "replay_chunks L dispatch (xs @ ys) c = Option.bind (replay_chunks L dispatch xs c) (replay_chunks L dispatch ys)"
proof (induction xs arbitrary: c)
  case (Cons es xs)
  then show ?case
    by (cases "replay L dispatch es (c\<lparr>cn_cache := cache_default\<rparr>)") simp_all
qed simp

lemma replay_chunks_leaves:
  "replay_chunks L dispatch chunks c = Some c' \<Longrightarrow>
    cn_leaves c' = cn_leaves c @ map (h_leaf (sha256 L)) (concat chunks)"
  by (induction chunks arbitrary: c) (auto simp: bind_eq_Some_conv dest!: replay_leaves)

lemma decode_compact_kv_bound: "decode_compact_pruned_tree L bs = Some p \<Longrightarrow> kv_bound (kvh L) p"
  by (auto simp: decode_compact_pruned_tree_def dest: decode_pruned_compact_kv_bound split: sum.splits)

text \<open>What a run of the guest has checked.\<close>

lemma extend_ff_Some:
  assumes "extend_ff L dispatch decode_range env_verify inp = Some out"
  obtains prev f rng p ff' where "read_previous_io decode_range env_verify inp = Some prev"
    "flat_new (gi_entries_bytes inp) (gi_entry_ends inp) = Inr f" "decode_range (gi_range_bytes inp) = Some rng"
    "\<And>io. prev = Some io \<Longrightarrow> fr_start_clc_state rng = fr_end_clc_state io \<and> fr_start_dc rng = fr_end_dc io"
    "decode_compact_pruned_tree L (gi_pruned_tree_bytes inp) = Some p"
    "verify_op_sequence_with_tree L dispatch (length (input_entries inp)) (flat_entry f) rng (Some p)
      (case prev of None \<Rightarrow> 0 | Some io \<Rightarrow> fr_end_change_id io)
      (case prev of None \<Rightarrow> \<lparr>ff_sigref_map = Map.empty, ff_recent_roots = [], ff_timestamp_hwm = 0\<rparr>
        | Some io \<Rightarrow> journal_ff io) = Some (True, ff')"
    "journal_ff out = ff'" "fr_end_clc_state out = fr_end_clc_state rng" "fr_end_dc out = fr_end_dc rng"
    "fr_start_clc_state out = fr_start_clc_state (case prev of None \<Rightarrow> rng | Some io \<Rightarrow> io)"
    "fr_start_dc out = fr_start_dc (case prev of None \<Rightarrow> rng | Some io \<Rightarrow> io)"
    "fr_end_change_id out = (case prev of None \<Rightarrow> 0 | Some io \<Rightarrow> fr_end_change_id io) + of_nat (length (input_entries inp))"
proof -
  from assms obtain prev f rng where *: "read_previous_io decode_range env_verify inp = Some prev"
      "flat_new (gi_entries_bytes inp) (gi_entry_ends inp) = Inr f" "decode_range (gi_range_bytes inp) = Some rng"
    by (cases "flat_new (gi_entries_bytes inp) (gi_entry_ends inp)") (auto simp: extend_ff_def bind_eq_Some_conv)
  have f: "fe_ends f = gi_entry_ends inp"
    using *(2) by (auto simp: flat_new_def split: if_splits)
  have len: "length (gi_entry_ends inp) = length (input_entries inp)"
    by (simp add: input_entries_def)
  note out = assms [unfolded extend_ff_def * Let_def, simplified, unfolded f len]
  obtain tree where tree: "decode_compact_pruned_tree L (gi_pruned_tree_bytes inp) = tree"
    by simp
  from out have "tree \<noteq> None"
    by (cases prev; cases tree) (auto simp: * f len verify_op_sequence_flat_def tree verify_op_sequence_with_tree_def split: if_splits)
  then obtain p where p: "tree = Some p"
    by auto
  show thesis
  proof (cases prev)
    case None
    with out that [OF *, of p] show thesis
      by (auto simp: * f len verify_op_sequence_flat_def tree p bind_eq_Some_conv journal_ff_def split: if_splits)
  next
    case (Some io)
    with out that [OF *, of p] show thesis
      by (auto simp: * f len verify_op_sequence_flat_def tree p bind_eq_Some_conv journal_ff_def split: if_splits)
  qed
qed

lemma range_ends_cong:
  "fr_end_clc_state rng = fr_end_clc_state rng' \<Longrightarrow> fr_end_dc rng = fr_end_dc rng' \<Longrightarrow>
    range_ends L rng ff c = range_ends L rng' ff c"
  by (simp add: range_ends_def)

lemma initial_clc_state_the_head:
  "initial_clc_state L dc = Some (the_head (sha256 L) [h_init (sha256 L) (digest_bytes dc)])"
  by (simp add: initial_clc_state_def initialize_the_tree mmr_tree_head_the_tree)

lemma range_ends_chain_start:
  "range_ends L rng ff c \<Longrightarrow> c\<lparr>cn_cache := cache_default\<rparr> = chain_start (cn_leaves c) (cn_store c) ff"
  by (simp add: range_ends_def chain_start_def)

lemma first_chunk_sound:
  assumes law: "merkle_law node_hash (rooth L)" and walker: "walker_law (kvh L) (rooth L) (walker L)"
    and inp: "gi_is_first inp" "extend_ff L dispatch decode_range env_verify inp = Some io"
    and store: "store_ok (kvh L) (Some t)" "rooth L t = fr_start_dc io" and free: "witness_free L node_hash inp (entries t)"
  shows "journal_sound L dispatch (entries t) [input_entries inp] io"
proof -
  let ?ff = "\<lparr>ff_sigref_map = Map.empty, ff_recent_roots = [], ff_timestamp_hwm = 0\<rparr>"
  from inp(2) obtain f rng p where f: "flat_new (gi_entries_bytes inp) (gi_entry_ends inp) = Inr f"
      and p: "decode_compact_pruned_tree L (gi_pruned_tree_bytes inp) = Some p"
      and run: "verify_op_sequence_with_tree L dispatch (length (input_entries inp)) (flat_entry f) rng (Some p) 0 ?ff =
        Some (True, journal_ff io)"
      and io: "fr_end_clc_state io = fr_end_clc_state rng" "fr_end_dc io = fr_end_dc rng"
        "fr_start_clc_state io = fr_start_clc_state rng" "fr_start_dc io = fr_start_dc rng"
        "fr_end_change_id io = of_nat (length (input_entries inp))"
    by (rule extend_ff_Some) (use inp(1) in \<open>auto simp: read_previous_io_def\<close>)
  let ?xs = "[h_init (sha256 L) (digest_bytes (fr_start_dc rng))]"
  have head: "fr_start_clc_state rng = the_head (sha256 L) ?xs"
    using run by (rule verify_sequence_True) (simp add: initial_clc_state_the_head)
  have entry: "\<forall>i < length (input_entries inp). flat_entry f i = Some (Some (input_entries inp ! i))"
    using flat_entry_cut(2) [OF f] by (simp add: input_entries_def)
  from accepted_sequence_replays [OF law walker store(1) _ decode_compact_kv_bound [OF p] _ head _ _ _ run entry]
  obtain c' where "replay L dispatch (input_entries inp) (chain_start ?xs (entries t) ?ff) = Some c'"
      "range_ends L rng (journal_ff io) c'" "length (input_entries inp) + 1 < 2 ^ 32"
    using free p store io(4) by (auto simp: witness_free_def window_ok_def)
  then show ?thesis
    using head io range_ends_cong [OF io(1,2)] unat_of_nat_u32 [of "length (input_entries inp)"]
    by (auto simp: journal_sound_def genesis_def chain_start_def)
qed

lemma extension_sound:
  assumes law: "merkle_law node_hash (rooth L)" and walker: "walker_law (kvh L) (rooth L) (walker L)"
    and prev: "journal_sound L dispatch kvs chunks prev"
    and inp: "\<not> gi_is_first inp" "extend_ff L dispatch decode_range (\<lambda>_ io. io = prev) inp = Some io"
    and free: "\<And>c. replay_chunks L dispatch chunks (genesis L (fr_start_dc prev) kvs) = Some c \<Longrightarrow>
      witness_free L node_hash inp (cn_store c)"
  shows "journal_sound L dispatch kvs (chunks @ [input_entries inp]) io"
proof -
  obtain c where c: "replay_chunks L dispatch chunks (genesis L (fr_start_dc prev) kvs) = Some c"
      and ends: "range_ends L prev (journal_ff prev) c"
      and ids: "unat (fr_end_change_id prev) = length (concat chunks)" "length (concat chunks) + 1 < 2 ^ 32"
      and start: "fr_start_clc_state prev = the_head (sha256 L) [h_init (sha256 L) (digest_bytes (fr_start_dc prev))]"
    using prev by (auto simp: journal_sound_def)
  from inp(2) obtain f rng p where f: "flat_new (gi_entries_bytes inp) (gi_entry_ends inp) = Inr f"
      and p: "decode_compact_pruned_tree L (gi_pruned_tree_bytes inp) = Some p"
      and joins: "fr_start_clc_state rng = fr_end_clc_state prev" "fr_start_dc rng = fr_end_dc prev"
      and run: "verify_op_sequence_with_tree L dispatch (length (input_entries inp)) (flat_entry f) rng (Some p)
        (fr_end_change_id prev) (journal_ff prev) = Some (True, journal_ff io)"
      and io: "fr_end_clc_state io = fr_end_clc_state rng" "fr_end_dc io = fr_end_dc rng"
        "fr_start_clc_state io = fr_start_clc_state prev" "fr_start_dc io = fr_start_dc prev"
        "fr_end_change_id io = fr_end_change_id prev + of_nat (length (input_entries inp))"
    by (rule extend_ff_Some) (use inp(1) in \<open>auto simp: read_previous_io_def bind_eq_Some_conv split: if_splits\<close>)
  have len: "length (cn_leaves c) = length (concat chunks) + 1"
    using replay_chunks_leaves [OF c] by (simp add: genesis_def chain_start_def)
  then have ne: "cn_leaves c \<noteq> []"
    by auto
  obtain t' where t': "store_ok (kvh L) (Some t')" "entries t' = cn_store c" "rooth L t' = fr_start_dc rng"
    using ends joins(2) by (auto simp: range_ends_def)
  have head: "fr_start_clc_state rng = the_head (sha256 L) (cn_leaves c)"
      and window: "window_ok (sha256 L) (cn_leaves c) (ff_recent_roots (journal_ff prev))"
    using ends joins(1) by (auto simp: range_ends_def)
  have entry: "\<forall>i < length (input_entries inp). flat_entry f i = Some (Some (input_entries inp ! i))"
    using flat_entry_cut(2) [OF f] by (simp add: input_entries_def)
  from accepted_sequence_replays [OF law walker t'(1,3) decode_compact_kv_bound [OF p] _ head ne _ window run entry]
  obtain c' where "replay L dispatch (input_entries inp) (c\<lparr>cn_cache := cache_default\<rparr>) = Some c'"
      "range_ends L rng (journal_ff io) c'" and fits: "length (cn_leaves c) + length (input_entries inp) < 2 ^ 32"
    using free [OF c] p t' len ids(2) by (auto simp: witness_free_def range_ends_chain_start [OF ends])
  moreover have "unat (fr_end_change_id io) = length (concat chunks) + length (input_entries inp)"
    using fits len ids(1) unat_of_nat_u32 [of "length (input_entries inp)"] by (simp add: io(5) unat_word_ariths)
  ultimately show ?thesis
    using c start io len range_ends_cong [OF io(1,2)] by (auto simp: journal_sound_def replay_chunks_append)
qed

lemma journal_sound_proved:
  assumes "ff_proved L dispatch decode_range node_hash t chunks io"
    and "merkle_law node_hash (rooth L)" and "walker_law (kvh L) (rooth L) (walker L)"
  shows "journal_sound L dispatch (entries t) chunks io"
  using assms(1)
proof induction
  case (first inp io)
  then show ?case
    by (intro first_chunk_sound [OF assms(2,3)])
next
  case (extension chunks prev inp io)
  then show ?case
    by (intro extension_sound [OF assms(2,3)])
qed

text \<open>C3: the journal of a chain of guest runs is sound.  Starting from the tree of the initial store, and
  as long as no hash collision occurs, the journal's end commitments are those of a replay of all
  the entries of all the chunks: every entry was decoded, was bound to the prefix of the log it
  names, continued its author's chain of entries and was accepted by its operation on the store at
  that point; the end head is the head over all these entries, the end data commitment is the root of
  the resulting store, and the signature references, the window of roots and the timestamp mark are
  those of the replay.\<close>

theorem chained_journals_sound:
  assumes "ff_proved L dispatch decode_range node_hash t chunks io"
    and "merkle_law node_hash (rooth L)" and "walker_law (kvh L) (rooth L) (walker L)"
  shows "journal_sound L dispatch (entries t) chunks io"
  using assms by (rule journal_sound_proved)

text \<open>An instance: one chunk with one entry, whose operation replaces the value of the root key.\<close>

definition flat_libs :: libs where
  "flat_libs = small_libs\<lparr>sha256 := (\<lambda>_. 0)\<rparr>"

definition small_range :: fast_forward_range where
  "small_range = \<lparr>fr_start_clc_state = the_head (\<lambda>_. 0) [0], fr_end_clc_state = the_head (\<lambda>_. 0) [0, 0],
    fr_start_dc = 12, fr_end_dc = 13, fr_end_change_id = 1, fr_sigref_map = Map.empty, fr_recent_roots = [],
    fr_timestamp_hwm = 0\<rparr>"

definition small_input :: guest_input where
  "small_input = \<lparr>gi_is_first = True, gi_previous_io_bytes = [], gi_program_id = [],
    gi_entry_ends = [of_nat (length (entry_wire default_entry))], gi_entries_bytes = entry_wire default_entry,
    gi_range_bytes = [], gi_pruned_tree_bytes = [2, 1, 0, 0, 0, 2, 1, 0, 0, 0, 9, 0, 0]\<rparr>"

definition small_journal :: fast_forward_range where
  "small_journal = small_range\<lparr>fr_sigref_map := [0 \<mapsto> (1, 0)], fr_recent_roots := [(0, 0), (1, 0)]\<rparr>"

lemma the_head_well_formed:
  "xs \<noteq> [] \<Longrightarrow> length xs < 2 ^ 32 \<Longrightarrow> verify_for_tree_size H (the_head H xs) (of_nat (length xs))"
  using head_of_well_formed [of H "the_head H xs" xs]
  by (simp add: head_of_the_head verify_for_tree_size_def head_is_well_formed_def the_head_def)

lemma small_wire: "length (entry_wire default_entry) = 42"
  "from_bytes_for_verification 4294967295 (entry_wire default_entry) = Inr default_entry"
proof -
  show len: "length (entry_wire default_entry) = 42"
    by (simp add: default_entry_def entry_wire_def vec_wire_def varint_bytes.simps digest_bytes_def)
  have "entry_sized default_entry"
    by (simp add: entry_sized_def default_entry_def)
  from decode_entry_wire [OF this, of 4294967295 False] len
  show "from_bytes_for_verification 4294967295 (entry_wire default_entry) = Inr default_entry"
    by (simp add: from_bytes_for_verification_def default_entry_def)
qed

lemma small_witness: "decode_compact_pruned_tree flat_libs [2, 1, 0, 0, 0, 2, 1, 0, 0, 0, 9, 0, 0] = Some (Node [2] [9] 11 None None)"
proof -
  have "encode_pruned_compact (PFull [2] [9] PEmpty PEmpty) = Some [2, 1, 0, 0, 0, 2, 1, 0, 0, 0, 9, 0, 0]"
    by (simp add: write_compact_bytes_def u32_to_le_bytes_def u32_to_be_bytes_def witness_tags nat_be_4)
  from compact_decodes [OF this, of 4294967295 small_kv_hash] show ?thesis
    by (simp add: decode_compact_pruned_tree_def flat_libs_def small_libs_def small_kv_hash_def)
qed

lemma small_tree_root: "tree_root (\<lambda>_. 0) [0] = 0" "tree_root (\<lambda>_. 0) [0, 0] = 0"
proof -
  show "tree_root (\<lambda>_. 0) [0] = 0"
    by (simp add: tree_root_def subtree_root_single)
  show "tree_root (\<lambda>_. 0) [0, 0] = 0"
    by (simp add: tree_root_def subtree_root.simps [of _ "[0, 0]" 0] h_node_def)
qed

lemma small_append:
  "mmr_append (\<lambda>_. 0) (the_tree (\<lambda>_. 0) [0]) bs = Some (the_tree (\<lambda>_. 0) [0, 0], 0)"
  by (simp add: mmr_append_the_tree h_leaf_def)

lemma flat_libs_simps [simp]: "sha256 flat_libs = (\<lambda>_. 0)" "usize_max flat_libs = 4294967295"
  "kvh flat_libs = small_kv_hash" "rooth flat_libs = small_root_hash" "walker flat_libs = root_put"
  by (simp_all add: flat_libs_def small_libs_def)

lemma small_step:
  "verify_step flat_libs put_root 0 0 (entry_wire default_entry)
      \<lparr>ls_tree = Node [2] [9] 11 None None, ls_working = the_tree (\<lambda>_. 0) [0], ls_cache = cache_default,
       ls_ff = \<lparr>ff_sigref_map = Map.empty, ff_recent_roots = [(0, 0)], ff_timestamp_hwm = 0\<rparr>\<rparr> =
    Some (Inr \<lparr>ls_tree = Node [2] [9, 9] 12 None None, ls_working = the_tree (\<lambda>_. 0) [0, 0], ls_cache = cache_default,
       ls_ff = \<lparr>ff_sigref_map = [0 \<mapsto> (1, 0)], ff_recent_roots = [(0, 0), (1, 0)], ff_timestamp_hwm = 0\<rparr>\<rparr>)"
proof -
  have fields: "ce_timestamp default_entry = 0" "ce_uid default_entry = 0" "ce_sig_ref default_entry = 0"
      "ce_parent_change default_entry = 0" "ce_parent_clc default_entry = 0" "lm_op_type (ce_message default_entry) = Op_Insert"
    by (simp_all add: default_entry_def)
  have "mmr_root (\<lambda>_. 0) (the_tree (\<lambda>_. 0) [0, 0]) = Some 0"
    by (simp add: mmr_root_the_tree small_tree_root)
  then show ?thesis
    by (simp add: verify_step_def small_append small_wire(2) fields validate_timestamp_hwm_def
      validate_sigref_def validate_parent_change_def MAX_PARENT_DISTANCE_def validate_parent_clc_def
      put_root_def run_pruned_def read_from_pruned_tree_def small_kv_hash_def flatten_write_steps_def apply_batch_def
      dedup_batch_def root_put_def finish_change_def static_metadata_cache_invalidated_by_def)
qed

lemma small_run: "extend_ff flat_libs put_root (\<lambda>_. Some small_range) env_verify small_input = Some small_journal"
proof -
  let ?H = "\<lambda>_ :: bytes. 0 :: digest" and ?f = "\<lparr>fe_bytes = entry_wire default_entry, fe_ends = [42]\<rparr>"
  let ?ff = "\<lparr>ff_sigref_map = Map.empty, ff_recent_roots = [], ff_timestamp_hwm = 0\<rparr>"
  have flat: "flat_new (gi_entries_bytes small_input) (gi_entry_ends small_input) = Inr ?f"
      "flat_entry ?f 0 = Some (Some (entry_wire default_entry))"
    by (simp_all add: small_input_def flat_new_def flat_entry_def small_wire(1) slice_def)
  have init: "initial_clc_state flat_libs 12 = Some (the_head ?H [0])"
    by (simp add: initial_clc_state_the_head h_init_def)
  have heads: "verify_for_change_id ?H (the_head ?H [0]) 0" "verify_for_tree_size ?H (the_head ?H [0, 0]) 2"
    using the_head_well_formed [of "[0]" ?H] the_head_well_formed [of "[0, 0]" ?H] by (simp_all add: verify_for_change_id_def)
  have sizes: "th_tree_size (the_head ?H [0]) = 1" "th_root (the_head ?H [0]) = 0"
    by (simp_all add: the_head_def small_tree_root)
  have tree: "\<lparr>mt_peaks = th_peaks (the_head ?H [0]), mt_tree_size = 1\<rparr> = the_tree ?H [0]"
    using the_head_the_tree [of ?H "[0]"] by (simp add: sizes)
  have "verify_op_sequence_flat flat_libs put_root ?f small_range [2, 1, 0, 0, 0, 2, 1, 0, 0, 0, 9, 0, 0] 0 ?ff =
      Some (True, \<lparr>ff_sigref_map = [0 \<mapsto> (1, 0)], ff_recent_roots = [(0, 0), (1, 0)], ff_timestamp_hwm = 0\<rparr>)"
    using flat(2) by (simp add: verify_op_sequence_flat_def small_witness verify_op_sequence_with_tree_def small_range_def heads
      init sizes seed_recent_roots_def small_node_hash_def tree small_step mmr_tree_head_the_tree)
  then show ?thesis
    by (simp add: extend_ff_def read_previous_io_def flat(1)) (simp add: small_input_def small_range_def small_journal_def)
qed

lemma no_entries: "child_complete c \<Longrightarrow> child_entries c = [] \<Longrightarrow> c = None"
  by (cases c rule: child_entries.cases) (auto elim: entries.elims)

lemma small_entries: "input_entries small_input = [entry_wire default_entry]"
  by (simp add: input_entries_def small_input_def small_wire(1) slice_def)

lemma small_witness_free:
  assumes "v \<in> {[9], [9, 9]}"
  shows "witness_free flat_libs small_node_hash small_input [([2], v)]"
  unfolding witness_free_def
proof (intro allI impI)
  fix p t
  assume p: "decode_compact_pruned_tree flat_libs (gi_pruned_tree_bytes small_input) = Some p"
    and t: "store_ok (kvh flat_libs) (Some t)" "entries t = [([2], v)]"
  obtain h where t: "t = Node [2] v h None None" and h: "small_kv_hash [2] v = Some h"
    using t by (cases t) (auto simp: store_ok_def append_eq_Cons_conv dest!: no_entries)
  have "p = Node [2] [9] 11 None None"
    using p small_witness by (simp add: small_input_def)
  then show "collision_free (kvh flat_libs) small_node_hash (set (entries p) \<union> set (entries t))
      (node_inputs (rooth flat_libs) p \<union> node_inputs (rooth flat_libs) t)"
    using assms h by (auto simp: t collision_free_def small_node_hash_def small_kv_hash_def inj_on_def)
qed

lemma small_proved:
  "ff_proved flat_libs put_root (\<lambda>_. Some small_range) small_node_hash (Node [2] [9] 11 None None)
    [[entry_wire default_entry]] small_journal"
  using ff_proved.first [OF _ small_run, of "Node [2] [9] 11 None None" small_node_hash] small_witness_free [of "[9]"] small_entries
  by (simp add: small_journal_def small_range_def small_input_def store_ok_def small_kv_hash_def small_node_hash_def search_tree_def)

theorem chained_journals_sound_witness:
  "journal_sound flat_libs put_root [([2], [9])] [[entry_wire default_entry]] small_journal"
  using chained_journals_sound [OF small_proved] small_merkle_law root_put_walker_law by simp

section \<open>What a client learns from a proof\<close>

text \<open>The output of a successful check is the proven journal of a receipt of the expected program.\<close>

lemma verify_ff_journal:
  assumes "verify_ff deserialize receipt_verify journal_decode proof_bytes image_id = Inr out"
  obtains r io where "receipt_verify r image_id" "journal_decode r = Some io"
    "vo_start_clc_state out = fr_start_clc_state io" "vo_end_clc_state out = fr_end_clc_state io"
    "vo_start_dc out = fr_start_dc io" "vo_end_dc out = fr_end_dc io" "vo_end_change_id out = fr_end_change_id io"
    "vo_sigref_map out = fr_sigref_map io" "vo_timestamp_hwm out = fr_timestamp_hwm io"
  using assms by (auto simp: verify_ff_def verify_ff_internal_def intro: that split: option.splits if_splits)

lemma extend_ff_advances:
  assumes "extend_ff L dispatch decode_range env_verify inp = Some io" and "\<not> gi_is_first inp"
  obtains prev where "env_verify (gi_program_id inp) prev" "fr_start_dc io = fr_start_dc prev"
    "unat (fr_end_change_id prev) < unat (fr_end_change_id io)"
    "extend_ff L dispatch decode_range (\<lambda>_ io. io = prev) inp = Some io"
proof -
  from assms(1) obtain prev f rng p ff' where read: "read_previous_io decode_range env_verify inp = Some prev"
      and run: "verify_op_sequence_with_tree L dispatch (length (input_entries inp)) (flat_entry f) rng (Some p)
        (case prev of None \<Rightarrow> 0 | Some io \<Rightarrow> fr_end_change_id io)
        (case prev of None \<Rightarrow> \<lparr>ff_sigref_map = Map.empty, ff_recent_roots = [], ff_timestamp_hwm = 0\<rparr>
          | Some io \<Rightarrow> journal_ff io) = Some (True, ff')"
      and dc: "fr_start_dc io = fr_start_dc (case prev of None \<Rightarrow> rng | Some io \<Rightarrow> io)"
      and last: "fr_end_change_id io = (case prev of None \<Rightarrow> 0 | Some io \<Rightarrow> fr_end_change_id io) + of_nat (length (input_entries inp))"
    by (rule extend_ff_Some)
  from read assms(2) obtain q where q: "prev = Some q" "env_verify (gi_program_id inp) q"
      "decode_range (gi_previous_io_bytes inp) = Some q"
    by (auto simp: read_previous_io_def bind_eq_Some_conv split: if_splits)
  let ?k = "fr_end_change_id q" and ?n = "length (input_entries inp)"
  from run have "?k \<noteq> 0xFFFFFFFF" "th_tree_size (fr_start_clc_state rng) = ?k + 1" "0 < ?n"
      "unat (th_tree_size (fr_start_clc_state rng)) + ?n < 2 ^ 32"
    by (auto elim!: verify_sequence_True simp: q(1) verify_for_change_id_def verify_for_tree_size_def split: if_splits)
  then have "unat (?k + 1) = unat ?k + 1" and "0 < ?n" "unat (?k + 1) + ?n < 2 ^ 32"
    using unat_succ_u32 by auto
  then have "unat (fr_end_change_id io) = unat ?k + ?n"
    using unat_of_nat_u32 [of ?n] by (simp add: last q(1) unat_word_ariths)
  moreover have "extend_ff L dispatch decode_range (\<lambda>_ io. io = q) inp = Some io"
  proof -
    have "read_previous_io decode_range (\<lambda>_ io. io = q) inp = read_previous_io decode_range env_verify inp"
      using assms(2) q by (simp add: read_previous_io_def)
    then show ?thesis
      using assms(1) by (simp add: extend_ff_def)
  qed
  ultimately show thesis
    using that [of q] q dc \<open>0 < ?n\<close> by simp
qed

text \<open>The zkVM's promise, with the inputs the guest was run on: a receipt of the program comes from a run of
  it, and a journal the guest assumed is the journal of a receipt.\<close>

definition zkvm_law ::
  "libs \<Rightarrow> dispatcher \<Rightarrow> (bytes \<Rightarrow> fast_forward_range option) \<Rightarrow> ('receipt \<Rightarrow> image_id \<Rightarrow> bool) \<Rightarrow>
    ('receipt \<Rightarrow> fast_forward_range option) \<Rightarrow> image_id \<Rightarrow> guest_input set \<Rightarrow> bool"
where
  "zkvm_law L dispatch decode_range receipt_verify journal_decode image_id inputs \<longleftrightarrow>
    (\<forall>r io. receipt_verify r image_id \<and> journal_decode r = Some io \<longrightarrow> (\<exists>inp \<in> inputs.
      extend_ff L dispatch decode_range
        (\<lambda>id io. \<exists>r'. receipt_verify r' id \<and> journal_decode r' = Some io) inp = Some io))"

definition inputs_free ::
  "libs \<Rightarrow> dispatcher \<Rightarrow> (digest \<Rightarrow> digest \<Rightarrow> digest \<Rightarrow> digest) \<Rightarrow> merk_node \<Rightarrow> guest_input set \<Rightarrow> bool"
where
  "inputs_free L dispatch node_hash t inputs \<longleftrightarrow> (\<forall>inp \<in> inputs. \<forall>chunks c. set chunks \<subseteq> input_entries ` inputs \<longrightarrow>
    replay_chunks L dispatch chunks (genesis L (rooth L t) (entries t)) = Some c \<longrightarrow>
    witness_free L node_hash inp (cn_store c))"

text \<open>The guest takes the identifier of the program whose journal it extends from its input and checks it
  against nothing.  A run on such an input may extend a journal that another program wrote.\<close>

definition foreign_extension ::
  "('receipt \<Rightarrow> image_id \<Rightarrow> bool) \<Rightarrow> ('receipt \<Rightarrow> fast_forward_range option) \<Rightarrow> image_id \<Rightarrow> guest_input set \<Rightarrow> digest \<Rightarrow> nat \<Rightarrow> bool"
where
  "foreign_extension receipt_verify journal_decode image_id inputs dc n \<longleftrightarrow> (\<exists>inp \<in> inputs. \<exists>r io.
    \<not> gi_is_first inp \<and> gi_program_id inp \<noteq> image_id \<and> receipt_verify r (gi_program_id inp) \<and> journal_decode r = Some io \<and>
    fr_start_dc io = dc \<and> unat (fr_end_change_id io) < n)"

lemma foreign_extension_mono:
  "foreign_extension receipt_verify journal_decode image_id inputs dc m \<Longrightarrow> m \<le> n \<Longrightarrow>
    foreign_extension receipt_verify journal_decode image_id inputs dc n"
  unfolding foreign_extension_def using order_less_le_trans by blast

lemma receipts_proved:
  assumes zkvm: "zkvm_law L dispatch decode_range receipt_verify journal_decode image_id inputs"
    and store: "store_ok (kvh L) (Some t)"
    and free: "inputs_free L dispatch node_hash t inputs"
    and "receipt_verify r image_id" "journal_decode r = Some io" "fr_start_dc io = rooth L t"
  shows "(\<exists>chunks. ff_proved L dispatch decode_range node_hash t chunks io \<and> set chunks \<subseteq> input_entries ` inputs) \<or>
    foreign_extension receipt_verify journal_decode image_id inputs (rooth L t) (unat (fr_end_change_id io))"
  using assms(4-)
proof (induction "unat (fr_end_change_id io)" arbitrary: io r rule: less_induct)
  case less
  from zkvm less.prems(1,2) obtain inp where inp: "inp \<in> inputs"
      and run: "extend_ff L dispatch decode_range (\<lambda>id io. \<exists>r'. receipt_verify r' id \<and> journal_decode r' = Some io) inp = Some io"
    by (auto simp: zkvm_law_def)
  show ?case
  proof (cases "gi_is_first inp")
    case True
    then have "extend_ff L dispatch decode_range (\<lambda>_ _. False) inp = Some io"
      using run by (simp add: extend_ff_def read_previous_io_def)
    moreover have "witness_free L node_hash inp (entries t)"
      using free inp by (auto simp: inputs_free_def genesis_def chain_start_def dest!: bspec spec [of _ "[]"])
    ultimately have "ff_proved L dispatch decode_range node_hash t [input_entries inp] io"
      using True store less.prems(3) by (intro ff_proved.first) auto
    then show ?thesis
      using inp by (intro disjI1 exI [of _ "[input_entries inp]"]) simp
  next
    case False
    from extend_ff_advances [OF run False] obtain prev r' where r': "receipt_verify r' (gi_program_id inp)" "journal_decode r' = Some prev"
        and prev: "fr_start_dc io = fr_start_dc prev" "unat (fr_end_change_id prev) < unat (fr_end_change_id io)"
          "extend_ff L dispatch decode_range (\<lambda>_ io. io = prev) inp = Some io"
      by blast
    show ?thesis
    proof (cases "gi_program_id inp = image_id")
      case own: True
      have "(\<exists>chunks. ff_proved L dispatch decode_range node_hash t chunks prev \<and> set chunks \<subseteq> input_entries ` inputs) \<or>
          foreign_extension receipt_verify journal_decode image_id inputs (rooth L t) (unat (fr_end_change_id prev))"
        using less.hyps [OF prev(2), of r'] r' own prev(1) less.prems(3) by simp
      then show ?thesis
      proof
        assume "\<exists>chunks. ff_proved L dispatch decode_range node_hash t chunks prev \<and> set chunks \<subseteq> input_entries ` inputs"
        then obtain chunks where chunks: "ff_proved L dispatch decode_range node_hash t chunks prev" "set chunks \<subseteq> input_entries ` inputs"
          by blast
        then have "ff_proved L dispatch decode_range node_hash t (chunks @ [input_entries inp]) io"
          using ff_proved.extension [OF chunks(1) False prev(3)] free inp chunks(2) prev(1) less.prems(3)
          by (simp add: inputs_free_def)
        then show ?thesis
          using chunks(2) inp by (intro disjI1 exI [of _ "chunks @ [input_entries inp]"]) simp
      qed (use prev(2) in \<open>auto intro: foreign_extension_mono\<close>)
    next
      case foreign: False
      have "foreign_extension receipt_verify journal_decode image_id inputs (rooth L t) (unat (fr_end_change_id io))"
        unfolding foreign_extension_def using inp False foreign r' prev(1,2) less.prems(3) by auto
      then show ?thesis ..
    qed
  qed
qed

lemma accepted_proof_replays:
  assumes law: "merkle_law node_hash (rooth L)" and walker: "walker_law (kvh L) (rooth L) (walker L)"
    and zkvm: "zkvm_law L dispatch decode_range receipt_verify journal_decode image_id inputs"
    and store: "store_ok (kvh L) (Some t)" "rooth L t = vo_start_dc out"
    and free: "inputs_free L dispatch node_hash t inputs"
    and accepted: "verify_ff deserialize receipt_verify journal_decode proof_bytes image_id = Inr out"
  shows "(\<exists>chunks c t'. replay_chunks L dispatch chunks (genesis L (vo_start_dc out) (entries t)) = Some c \<and>
      length (concat chunks) = unat (vo_end_change_id out) \<and> vo_end_clc_state out = the_head (sha256 L) (cn_leaves c) \<and>
      store_ok (kvh L) (Some t') \<and> entries t' = cn_store c \<and> rooth L t' = vo_end_dc out \<and>
      vo_sigref_map out = cn_sigrefs c \<and> vo_timestamp_hwm out = cn_hwm c) \<or>
    foreign_extension receipt_verify journal_decode image_id inputs (vo_start_dc out) (unat (vo_end_change_id out))"
proof -
  from accepted obtain r io where receipt: "receipt_verify r image_id" "journal_decode r = Some io"
      and out: "vo_end_clc_state out = fr_end_clc_state io" "vo_start_dc out = fr_start_dc io" "vo_end_dc out = fr_end_dc io"
        "vo_end_change_id out = fr_end_change_id io" "vo_sigref_map out = fr_sigref_map io" "vo_timestamp_hwm out = fr_timestamp_hwm io"
    by (rule verify_ff_journal) blast
  have "fr_start_dc io = rooth L t"
    using store(2) out(2) by simp
  from receipts_proved [OF zkvm store(1) free receipt this] show ?thesis
  proof
    assume "\<exists>chunks. ff_proved L dispatch decode_range node_hash t chunks io \<and> set chunks \<subseteq> input_entries ` inputs"
    then obtain chunks where "ff_proved L dispatch decode_range node_hash t chunks io"
      by blast
    from journal_sound_proved [OF this law walker] obtain c where
        "replay_chunks L dispatch chunks (genesis L (fr_start_dc io) (entries t)) = Some c" "range_ends L io (journal_ff io) c"
        "unat (fr_end_change_id io) = length (concat chunks)"
      by (auto simp: journal_sound_def)
    then show ?thesis
      by (intro disjI1 exI [of _ chunks] exI [of _ c]) (auto simp: out range_ends_def journal_ff_def)
  qed (simp add: out store(2) [unfolded out(2)])
qed

text \<open>C2: what a proof that a client accepts tells it.  Assume that the zkVM is sound, that no hash
  collision occurs, and that the output starts at the commitment of the initial store, which the client
  compares.  Then the output is the end of a replay -- the end head covers exactly as many changes as the
  output says, the end data commitment is the root of the store after them, and for every user the output
  names the user's latest change and the hash of its entry -- or some run of the guest was told to extend
  the receipt of another program, over the same initial commitment and fewer changes.  The guest accepts
  such a receipt, so the second case is part of the guarantee: it excludes every other way to forge a
  proof.\<close>

theorem accepted_proof_sound:
  assumes law: "merkle_law node_hash (rooth L)" and walker: "walker_law (kvh L) (rooth L) (walker L)"
    and zkvm: "zkvm_law L dispatch decode_range receipt_verify journal_decode image_id inputs"
    and store: "store_ok (kvh L) (Some t)" "rooth L t = vo_start_dc out"
    and free: "inputs_free L dispatch node_hash t inputs"
    and accepted: "verify_ff deserialize receipt_verify journal_decode proof_bytes image_id = Inr out"
  shows "(\<exists>chunks c t'. replay_chunks L dispatch chunks (genesis L (vo_start_dc out) (entries t)) = Some c \<and>
      length (concat chunks) = unat (vo_end_change_id out) \<and> vo_end_clc_state out = the_head (sha256 L) (cn_leaves c) \<and>
      store_ok (kvh L) (Some t') \<and> entries t' = cn_store c \<and> rooth L t' = vo_end_dc out \<and>
      vo_sigref_map out = cn_sigrefs c \<and> vo_timestamp_hwm out = cn_hwm c) \<or>
    foreign_extension receipt_verify journal_decode image_id inputs (vo_start_dc out) (unat (vo_end_change_id out))"
  using assms by (rule accepted_proof_replays)

lemma small_chunks:
  assumes "set chunks \<subseteq> {[entry_wire default_entry]}"
    and "replay_chunks flat_libs put_root chunks (genesis flat_libs 12 [([2], [9])]) = Some c"
  shows "cn_store c \<in> {[([2], [9])], [([2], [9, 9])]}"
proof -
  have fields: "ce_timestamp default_entry = 0" "ce_uid default_entry = 0" "ce_sig_ref default_entry = 0"
      "ce_parent_change default_entry = 0" "ce_parent_clc default_entry = 0"
    by (simp_all add: default_entry_def)
  let ?c = "genesis flat_libs 12 [([2], [9])]"
  have once: "replay_entry flat_libs put_root (entry_wire default_entry) (?c\<lparr>cn_cache := cache_default\<rparr>) = Some c1 \<Longrightarrow>
      cn_store c1 = [([2], [9, 9])] \<and> cn_sigrefs c1 0 = Some (1, 0)" for c1
    by (auto simp: replay_entry_def genesis_def chain_start_def small_wire(2) put_root_def flatten_write_steps_def fields answer_def
      h_leaf_def Let_def validate_timestamp_hwm_def split: if_splits)
  have twice: "cn_sigrefs c1 0 = Some (1, 0) \<Longrightarrow>
      replay_entry flat_libs put_root (entry_wire default_entry) (c1\<lparr>cn_cache := cache_default\<rparr>) = None" for c1
    by (simp add: replay_entry_def small_wire(2) entry_bound_def fields split: prod.splits)
  show ?thesis
  proof (cases chunks)
    case Nil
    then show ?thesis
      using assms(2) by (auto simp: genesis_def chain_start_def)
  next
    case (Cons es rest)
    then obtain c1 where c1: "replay_entry flat_libs put_root (entry_wire default_entry) (?c\<lparr>cn_cache := cache_default\<rparr>) = Some c1"
        "replay_chunks flat_libs put_root rest c1 = Some c"
      using assms by (auto simp: bind_eq_Some_conv)
    have "rest = []"
      using Cons assms(1) c1 twice [of c1] once [OF c1(1)] by (cases rest) (auto simp: bind_eq_Some_conv)
    then show ?thesis
      using c1 once [OF c1(1)] by simp
  qed
qed

theorem accepted_proof_sound_witness:
  "\<exists>out chunks c t'. verify_ff (\<lambda>_. Some \<lparr>fp_io = small_journal, fp_receipt = ()\<rparr>) (\<lambda>_ id. id = []) (\<lambda>_. Some small_journal) [] [] = Inr out \<and>
    replay_chunks flat_libs put_root chunks (genesis flat_libs 12 [([2], [9])]) = Some c \<and>
    length (concat chunks) = 1 \<and> entries t' = cn_store c \<and> small_root_hash t' = 13"
proof -
  let ?t = "Node [2] [9] 11 None None"
  obtain out where out: "verify_ff (\<lambda>_. Some \<lparr>fp_io = small_journal, fp_receipt = ()\<rparr>) (\<lambda>_ id. id = [])
      (\<lambda>_. Some small_journal) [] [] = Inr out"
    by (simp add: verify_ff_def verify_ff_internal_def)
  then have fields: "vo_end_change_id out = 1" "vo_end_dc out = 13" "vo_start_dc out = 12"
    by (auto simp: verify_ff_def small_journal_def small_range_def split: if_splits)
  have law: "merkle_law small_node_hash (rooth flat_libs)" "walker_law (kvh flat_libs) (rooth flat_libs) (walker flat_libs)"
    using small_merkle_law root_put_walker_law by simp_all
  have zkvm: "zkvm_law flat_libs put_root (\<lambda>_. Some small_range) (\<lambda>_ :: unit. \<lambda>id. id = []) (\<lambda>_. Some small_journal) [] {small_input}"
    by (simp add: zkvm_law_def small_run)
  have store: "store_ok (kvh flat_libs) (Some ?t)" "rooth flat_libs ?t = vo_start_dc out"
    by (simp_all add: small_input_def store_ok_def small_kv_hash_def search_tree_def small_node_hash_def fields)
  have free: "inputs_free flat_libs put_root small_node_hash ?t {small_input}"
    using small_witness_free by (fastforce simp: inputs_free_def small_node_hash_def small_entries dest!: small_chunks)
  have own: "\<not> foreign_extension (\<lambda>_ :: unit. \<lambda>id. id = []) (\<lambda>_. Some small_journal) [] {small_input} dc n" for dc n
    by (simp add: foreign_extension_def)
  from accepted_proof_sound [OF law zkvm store free out] out fields own show ?thesis
    by auto
qed

text \<open>The guest does not bind the program whose journal it extends.  The program identifier is read
  from the host's input, is checked by nothing and does not appear in the journal: the run that
  extends the journal of the guest itself gives the same result when the same journal comes from any
  other program, so a receipt of the guest does not say that the earlier chunks were verified by it.\<close>

lemma extended_program_unbound:
  assumes honest: "extend_ff L dispatch decode_range (\<lambda>id io. id = self \<and> io = prev) inp = Some out"
    and "\<not> gi_is_first inp" and "env_verify other prev"
  shows "extend_ff L dispatch decode_range env_verify (inp\<lparr>gi_program_id := other\<rparr>) = Some out"
proof -
  have "decode_range (gi_previous_io_bytes inp) = Some prev"
    using assms(1,2) by (auto simp: extend_ff_def read_previous_io_def bind_eq_Some_conv split: if_splits)
  then have "read_previous_io decode_range env_verify (inp\<lparr>gi_program_id := other\<rparr>) =
      read_previous_io decode_range (\<lambda>id io. id = self \<and> io = prev) inp"
    using assms by (auto simp: extend_ff_def read_previous_io_def split: if_splits)
  with honest show ?thesis
    by (simp add: extend_ff_def Let_def cong: if_cong option.case_cong sum.case_cong)
qed

end
