(* ===== verification/Trace_Creation.thy ===== *)
theory Trace_Creation
  imports Pruned_Tree
begin

text \<open>
  How the prover records a witness: \<open>ffproof/tracer/src\<close> (\<open>extract.rs\<close>, \<open>tracer.rs\<close>, \<open>pruned.rs\<close>,
  \<open>trace_prove.rs\<close>).  Reads and writes run against the full tree, with an overlay of the nodes that
  earlier writes changed; every key that is looked at is recorded, and the witness is the tree cut
  off below the recorded keys.

  Two loops of the code follow keys from node to node and return only if the nodes form a tree; they
  are partial functions.  The outer option is a loop that does not return, the inner one a panic.
  merk's hash, subtree heights and batch walker are parameters.

  The lemmas show that the loops return on every complete search tree, and that the witness recorded
  for a list of reads is accepted and answers them.
\<close>

section \<open>Node data\<close>

record child_ref =
  cr_key :: bytes
  cr_hash :: digest
  cr_child_heights :: "u8 \<times> u8"

record node_data =
  nd_key :: bytes
  nd_value :: bytes
  nd_kv_hash :: digest
  nd_left :: "child_ref option"
  nd_right :: "child_ref option"

fun extract_child_ref :: "(merk_node \<Rightarrow> digest) \<Rightarrow> (merk_node \<Rightarrow> u8 \<times> u8) \<Rightarrow> merk_child \<Rightarrow> child_ref" where
  "extract_child_ref root_hash heights (Resident n) =
    \<lparr>cr_key = nkey n, cr_hash = root_hash n, cr_child_heights = heights n\<rparr>"
| "extract_child_ref root_hash heights (PrunedChild k h hs) = \<lparr>cr_key = k, cr_hash = h, cr_child_heights = hs\<rparr>"

definition extract_node_data :: "(merk_node \<Rightarrow> digest) \<Rightarrow> (merk_node \<Rightarrow> u8 \<times> u8) \<Rightarrow> merk_node \<Rightarrow> node_data" where
  "extract_node_data root_hash heights n =
    \<lparr>nd_key = nkey n, nd_value = nvalue n, nd_kv_hash = nkv_hash n,
     nd_left = map_option (extract_child_ref root_hash heights) (nleft n),
     nd_right = map_option (extract_child_ref root_hash heights) (nright n)\<rparr>"

text \<open>\<open>child\<close> of merk gives the subtrees that are in memory only.\<close>

fun find_node_in_tree :: "merk_node \<Rightarrow> bytes \<Rightarrow> merk_node option"
  and find_node_in_child :: "merk_child option \<Rightarrow> bytes \<Rightarrow> merk_node option"
where
  "find_node_in_tree (Node k v h l r) key =
    (if key = k then Some (Node k v h l r)
     else if key < k then find_node_in_child l key else find_node_in_child r key)"
| "find_node_in_child None key = None"
| "find_node_in_child (Some (Resident n)) key = find_node_in_tree n key"
| "find_node_in_child (Some (PrunedChild k h hs)) key = None"

definition child_ref_to_pruned_child :: "child_ref \<Rightarrow> merk_child" where
  "child_ref_to_pruned_child c = PrunedChild (cr_key c) (cr_hash c) (cr_child_heights c)"

definition get_node_data ::
  "(merk_node \<Rightarrow> digest) \<Rightarrow> (merk_node \<Rightarrow> u8 \<times> u8) \<Rightarrow> merk_node \<Rightarrow> (bytes \<rightharpoonup> node_data) \<Rightarrow> bytes \<Rightarrow> node_data option"
where
  "get_node_data root_hash heights tree overlay key =
    (case overlay key of
       Some data \<Rightarrow> Some data
     | None \<Rightarrow> map_option (extract_node_data root_hash heights) (find_node_in_tree tree key))"

fun update_node_map_from_result ::
  "(merk_node \<Rightarrow> digest) \<Rightarrow> (merk_node \<Rightarrow> u8 \<times> u8) \<Rightarrow> merk_node \<Rightarrow> (bytes \<rightharpoonup> node_data) \<Rightarrow> (bytes \<rightharpoonup> node_data)"
and update_node_map_from_child ::
  "(merk_node \<Rightarrow> digest) \<Rightarrow> (merk_node \<Rightarrow> u8 \<times> u8) \<Rightarrow> merk_child option \<Rightarrow> (bytes \<rightharpoonup> node_data) \<Rightarrow> (bytes \<rightharpoonup> node_data)"
where
  "update_node_map_from_result root_hash heights (Node k v h l r) nodes =
    update_node_map_from_child root_hash heights r
      (update_node_map_from_child root_hash heights l
        (nodes(k \<mapsto> extract_node_data root_hash heights (Node k v h l r))))"
| "update_node_map_from_child root_hash heights None nodes = nodes"
| "update_node_map_from_child root_hash heights (Some (Resident n)) nodes = update_node_map_from_result root_hash heights n nodes"
| "update_node_map_from_child root_hash heights (Some (PrunedChild k h hs)) nodes = nodes"

section \<open>Traced reads\<close>

definition create_skeleton_root :: "node_data \<Rightarrow> merk_node" where
  "create_skeleton_root data = Node (nd_key data) (nd_value data) (nd_kv_hash data)
    (map_option child_ref_to_pruned_child (nd_left data)) (map_option child_ref_to_pruned_child (nd_right data))"

text \<open>The tracer's \<open>fetch\<close>; \<^const>\<open>None\<close> is merk's key error.  It records the key.\<close>

definition fetch_by_key :: "(bytes \<Rightarrow> node_data option) \<Rightarrow> bytes \<Rightarrow> bytes set \<Rightarrow> merk_node option \<times> bytes set" where
  "fetch_by_key get key accessed = (map_option create_skeleton_root (get key), insert key accessed)"

partial_function (option) trace_key ::
  "(bytes \<Rightarrow> node_data option) \<Rightarrow> bytes \<Rightarrow> bytes \<Rightarrow> bytes set \<Rightarrow> (bytes option \<times> bytes set) option option"
where
  "trace_key get current_key key accessed =
    (case get current_key of
       None \<Rightarrow> Some None
     | Some data \<Rightarrow>
         if key = nd_key data then Some (Some (Some (nd_value data), insert current_key accessed))
         else (case (if key < nd_key data then nd_left data else nd_right data) of
             Some child \<Rightarrow> trace_key get (cr_key child) key (insert current_key accessed)
           | None \<Rightarrow> Some (Some (None, insert current_key accessed))))"

partial_function (option) trace_range_recursive ::
  "(bytes \<Rightarrow> node_data option) \<Rightarrow> bytes \<Rightarrow> bytes \<Rightarrow> bytes option \<Rightarrow> (bytes \<times> bytes) list \<Rightarrow> bytes set \<Rightarrow>
    ((bytes \<times> bytes) list \<times> bytes set) option option"
where
  "trace_range_recursive get current_key start end_key results accessed =
    (case get current_key of
       None \<Rightarrow> Some None
     | Some data \<Rightarrow>
         Option.bind
           (if start < nd_key data then
              (case nd_left data of
                 Some l \<Rightarrow> trace_range_recursive get (cr_key l) start end_key results (insert current_key accessed)
               | None \<Rightarrow> Some (Some (results, insert current_key accessed)))
            else Some (Some (results, insert current_key accessed)))
           (\<lambda>left. case left of
              None \<Rightarrow> Some None
            | Some (results, accessed) \<Rightarrow>
                if before_end (nd_key data) end_key then
                  (case nd_right data of
                     Some r \<Rightarrow> trace_range_recursive get (cr_key r) start end_key
                       (if start \<le> nd_key data then results @ [(nd_key data, nd_value data)] else results) accessed
                   | None \<Rightarrow> Some (Some (if start \<le> nd_key data then results @ [(nd_key data, nd_value data)] else results,
                       accessed)))
                else Some (Some (results, accessed))))"

definition trace_read_op ::
  "(bytes \<Rightarrow> node_data option) \<Rightarrow> read_op \<Rightarrow> bytes \<Rightarrow> bytes set \<Rightarrow> bytes set \<Rightarrow> (proven_read \<times> bytes set \<times> bytes set) option option"
where
  "trace_read_op get read_op root_key accessed read_target_keys =
    map_option (map_option (\<lambda>(targets, accessed).
        (\<lparr>pr_op = read_op, pr_results = []\<rparr>, accessed, read_target_keys \<union> set targets)))
      (case read_op of
         ReadKey key \<Rightarrow> map_option (map_option (\<lambda>(v, accessed). (if v \<noteq> None then [key] else [], accessed)))
           (trace_key get root_key key accessed)
       | ReadPrefix p \<Rightarrow> map_option (map_option (\<lambda>(rs, accessed). (map fst rs, accessed)))
           (trace_range_recursive get root_key p (prefix_successor p) [] accessed)
       | ReadRange start end_key \<Rightarrow> map_option (map_option (\<lambda>(rs, accessed). (map fst rs, accessed)))
           (trace_range_recursive get root_key start (Some end_key) [] accessed))"

section \<open>The witness\<close>

fun build_pruned_recursive ::
  "(merk_node \<Rightarrow> digest) \<Rightarrow> (merk_node \<Rightarrow> u8 \<times> u8) \<Rightarrow> merk_node \<Rightarrow> bytes set \<Rightarrow> pruned_merkle_tree"
and build_pruned_child ::
  "(merk_node \<Rightarrow> digest) \<Rightarrow> (merk_node \<Rightarrow> u8 \<times> u8) \<Rightarrow> merk_child option \<Rightarrow> bytes set \<Rightarrow> pruned_merkle_tree"
where
  "build_pruned_recursive root_hash heights (Node k v h l r) accessed_keys =
    (if k \<in> accessed_keys then
       PFull k v (build_pruned_child root_hash heights l accessed_keys) (build_pruned_child root_hash heights r accessed_keys)
     else PPruned k (root_hash (Node k v h l r)) (heights (Node k v h l r)))"
| "build_pruned_child root_hash heights None accessed_keys = PEmpty"
| "build_pruned_child root_hash heights (Some (Resident n)) accessed_keys = build_pruned_recursive root_hash heights n accessed_keys"
| "build_pruned_child root_hash heights (Some (PrunedChild k h hs)) accessed_keys = PEmpty"

definition build_pruned_tree_compacted ::
  "(merk_node \<Rightarrow> digest) \<Rightarrow> (merk_node \<Rightarrow> u8 \<times> u8) \<Rightarrow> merk_node \<Rightarrow> bytes set \<Rightarrow> bytes set \<Rightarrow> pruned_merkle_tree"
where
  "build_pruned_tree_compacted root_hash heights tree accessed_keys read_target_keys =
    build_pruned_recursive root_hash heights tree accessed_keys"

datatype input_step = IRead "read_op list" | IWrite "batch_op list"

record trace_state =
  ts_overlay :: "bytes \<rightharpoonup> node_data"
  ts_root_key :: bytes
  ts_accessed :: "bytes set"
  ts_read_targets :: "bytes set"
  ts_end_root :: digest
  ts_resolved :: "trace_step list"

fun trace_reads ::
  "(bytes \<Rightarrow> node_data option) \<Rightarrow> read_op list \<Rightarrow> proven_read list \<Rightarrow> trace_state \<Rightarrow> (proven_read list \<times> trace_state) option option"
where
  "trace_reads get [] proven s = Some (Some (proven, s))"
| "trace_reads get (op # ops) proven s =
    Option.bind (trace_read_op get op (ts_root_key s) (ts_accessed s) (ts_read_targets s)) (\<lambda>res. case res of
        None \<Rightarrow> Some None
      | Some (p, accessed, targets) \<Rightarrow>
          trace_reads get ops (proven @ [p]) (s\<lparr>ts_accessed := accessed, ts_read_targets := targets\<rparr>))"

text \<open>merk's walker fetches the nodes it needs; it returns the new tree and the keys it fetched, or an
  error that panics.\<close>

type_synonym fetch_walker =
  "(bytes \<Rightarrow> merk_node option) \<Rightarrow> merk_node option \<Rightarrow> (bytes \<times> merk_op) list \<Rightarrow> (merk_node option \<times> bytes list) option"

definition apply_batch_traced ::
  "fetch_walker \<Rightarrow> (bytes \<Rightarrow> merk_node option) \<Rightarrow> merk_node option \<Rightarrow> batch_op list \<Rightarrow> (merk_node option \<times> bytes list) option"
where
  "apply_batch_traced walker fetch tree ops =
    (let batch = dedup_batch ops in if batch = [] then Some (tree, []) else walker fetch tree batch)"

definition trace_write ::
  "(merk_node \<Rightarrow> digest) \<Rightarrow> (merk_node \<Rightarrow> u8 \<times> u8) \<Rightarrow> fetch_walker \<Rightarrow> merk_node \<Rightarrow> batch_op list \<Rightarrow> trace_state \<Rightarrow> trace_state option"
where
  "trace_write root_hash heights walker full_tree ops s =
    (let get = get_node_data root_hash heights full_tree (ts_overlay s) in
     Option.bind (get (ts_root_key s)) (\<lambda>root_data.
     Option.bind (apply_batch_traced walker (\<lambda>key. fst (fetch_by_key get key {})) (Some (create_skeleton_root root_data)) ops)
       (\<lambda>(result_tree, fetched).
         let s = (case result_tree of
               Some tree \<Rightarrow> s\<lparr>ts_end_root := root_hash tree, ts_root_key := nkey tree,
                 ts_overlay := update_node_map_from_result root_hash heights tree (ts_overlay s)\<rparr>
             | None \<Rightarrow> s\<lparr>ts_end_root := 0\<rparr>);
           deleted = map fst (filter (\<lambda>(_, op). op = OpDelete) (dedup_batch ops))
         in Some (s\<lparr>ts_accessed := ts_accessed s \<union> set fetched, ts_overlay := ts_overlay s |` (- set deleted),
              ts_resolved := ts_resolved s @ [TWrite ops]\<rparr>))))"

fun trace_steps ::
  "(merk_node \<Rightarrow> digest) \<Rightarrow> (merk_node \<Rightarrow> u8 \<times> u8) \<Rightarrow> fetch_walker \<Rightarrow> merk_node \<Rightarrow> input_step list \<Rightarrow> trace_state \<Rightarrow>
    trace_state option option"
where
  "trace_steps root_hash heights walker full_tree [] s = Some (Some s)"
| "trace_steps root_hash heights walker full_tree (IRead read_ops # steps) s =
    Option.bind (trace_reads (get_node_data root_hash heights full_tree (ts_overlay s)) read_ops [] s) (\<lambda>res. case res of
        None \<Rightarrow> Some None
      | Some (proven, s) \<Rightarrow>
          trace_steps root_hash heights walker full_tree steps (s\<lparr>ts_resolved := ts_resolved s @ [TRead proven]\<rparr>))"
| "trace_steps root_hash heights walker full_tree (IWrite ops # steps) s =
    (case trace_write root_hash heights walker full_tree ops s of
       None \<Rightarrow> Some None
     | Some s \<Rightarrow> trace_steps root_hash heights walker full_tree steps s)"

definition create_trace ::
  "(merk_node \<Rightarrow> digest) \<Rightarrow> (merk_node \<Rightarrow> u8 \<times> u8) \<Rightarrow> fetch_walker \<Rightarrow> merk_node \<Rightarrow> input_step list \<Rightarrow> tracer_proof option option"
where
  "create_trace root_hash heights walker full_tree steps =
    map_option (map_option (\<lambda>s.
        \<lparr>tp_pruned_tree = build_pruned_tree_compacted root_hash heights full_tree (ts_accessed s) (ts_read_targets s),
         tp_steps = ts_resolved s, tp_expected_start_root = root_hash full_tree, tp_expected_end_root = ts_end_root s\<rparr>))
      (trace_steps root_hash heights walker full_tree steps
        \<lparr>ts_overlay = Map.empty, ts_root_key = nkey full_tree, ts_accessed = {nkey full_tree}, ts_read_targets = {},
         ts_end_root = root_hash full_tree, ts_resolved = []\<rparr>)"

section \<open>The loops return\<close>

fun subnodes :: "merk_node \<Rightarrow> merk_node set" and child_subnodes :: "merk_child option \<Rightarrow> merk_node set"
where
  "subnodes (Node k v h l r) = insert (Node k v h l r) (child_subnodes l \<union> child_subnodes r)"
| "child_subnodes None = {}"
| "child_subnodes (Some (Resident n)) = subnodes n"
| "child_subnodes (Some (PrunedChild k h hs)) = {}"

fun path_keys :: "merk_node \<Rightarrow> bytes \<Rightarrow> bytes set" and child_path_keys :: "merk_child option \<Rightarrow> bytes \<Rightarrow> bytes set"
where
  "path_keys (Node k v h l r) key =
    insert k (if key = k then {} else if key < k then child_path_keys l key else child_path_keys r key)"
| "child_path_keys None key = {}"
| "child_path_keys (Some (Resident n)) key = path_keys n key"
| "child_path_keys (Some (PrunedChild k h hs)) key = {}"

fun range_keys :: "merk_node \<Rightarrow> bytes \<Rightarrow> bytes option \<Rightarrow> bytes set"
  and child_range_keys :: "merk_child option \<Rightarrow> bytes \<Rightarrow> bytes option \<Rightarrow> bytes set"
where
  "range_keys (Node k v h l r) s e =
    insert k ((if s < k then child_range_keys l s e else {}) \<union> (if before_end k e then child_range_keys r s e else {}))"
| "child_range_keys None s e = {}"
| "child_range_keys (Some (Resident n)) s e = range_keys n s e"
| "child_range_keys (Some (PrunedChild k h hs)) s e = {}"

lemma subnodes_self: "n \<in> subnodes n"
  by (cases n) simp

lemma subnodes_key:
  "m \<in> subnodes n \<Longrightarrow> nkey m \<in> fst ` set (entries n)"
  "m \<in> child_subnodes c \<Longrightarrow> nkey m \<in> fst ` set (child_entries c)"
  by (induction n and c rule: subnodes_child_subnodes.induct) auto

lemma find_subnode:
  "m \<in> subnodes n \<Longrightarrow> sorted_wrt (<) (map fst (entries n)) \<Longrightarrow> find_node_in_tree n (nkey m) = Some m"
  "m \<in> child_subnodes c \<Longrightarrow> sorted_wrt (<) (map fst (child_entries c)) \<Longrightarrow> find_node_in_child c (nkey m) = Some m"
proof (induction n and c rule: subnodes_child_subnodes.induct)
  case (1 k v h l r)
  have left: "nkey m < k" if "m \<in> child_subnodes l"
    using subnodes_key(2) [OF that] 1(4) by (auto simp: sorted_wrt_append)
  have right: "k < nkey m" if "m \<in> child_subnodes r"
    using subnodes_key(2) [OF that] 1(4) by (auto simp: sorted_wrt_append)
  show ?case
    using 1 left right by (auto simp: sorted_wrt_append dest: less_not_sym)
qed simp_all

text \<open>A source of node data that knows every node of a tree.\<close>

definition knows :: "(merk_node \<Rightarrow> digest) \<Rightarrow> (merk_node \<Rightarrow> u8 \<times> u8) \<Rightarrow> (bytes \<Rightarrow> node_data option) \<Rightarrow> merk_node set \<Rightarrow> bool" where
  "knows root_hash heights get ns \<longleftrightarrow> (\<forall>n \<in> ns. get (nkey n) = Some (extract_node_data root_hash heights n))"

lemma knows_tree: "search_tree t \<Longrightarrow> knows root_hash heights (get_node_data root_hash heights t Map.empty) (subnodes t)"
  by (simp add: knows_def get_node_data_def search_tree_def find_subnode(1))

lemma trace_key_node:
  "knows root_hash heights get (subnodes n) \<Longrightarrow> complete n \<Longrightarrow> sorted_wrt (<) (map fst (entries n)) \<Longrightarrow>
    trace_key get (nkey n) key acc = Some (Some (map_of (entries n) key, acc \<union> path_keys n key))"
  "knows root_hash heights get (child_subnodes c) \<Longrightarrow> child_complete c \<Longrightarrow> sorted_wrt (<) (map fst (child_entries c)) \<Longrightarrow>
    (case map_option (extract_child_ref root_hash heights) c of
       Some r \<Rightarrow> trace_key get (cr_key r) key acc
     | None \<Rightarrow> Some (Some (None, acc))) = Some (Some (map_of (child_entries c) key, acc \<union> child_path_keys c key))"
proof (induction n and c arbitrary: acc and acc rule: entries_child_entries.induct)
  case (1 k v h l r)
  have data: "get k = Some (extract_node_data root_hash heights (Node k v h l r))"
    using 1(3) by (simp add: knows_def)
  have left: "map_of (child_entries l) key = None" if "k \<le> key"
    using 1(5) that by (fastforce simp: sorted_wrt_append map_of_eq_None_iff)
  have right: "map_of (child_entries r) key = None" if "key \<le> k"
    using 1(5) that by (fastforce simp: sorted_wrt_append map_of_eq_None_iff)
  have known: "knows root_hash heights get (child_subnodes l)" "knows root_hash heights get (child_subnodes r)"
    using 1(3) by (auto simp: knows_def)
  show ?case
    using 1(1) [of "insert k acc"] 1(2) [of "insert k acc"] 1(4,5) known left right
    by (cases key k rule: linorder_cases)
      (auto simp: trace_key.simps [of get k] data extract_node_data_def sorted_wrt_append map_add_def split: option.splits dest: less_not_sym)
qed (simp_all add: knows_def)

lemma trace_range_node:
  "knows root_hash heights get (subnodes n) \<Longrightarrow> complete n \<Longrightarrow> sorted_wrt (<) (map fst (entries n)) \<Longrightarrow>
    trace_range_recursive get (nkey n) s e res acc =
      Some (Some (res @ filter (\<lambda>(k, _). s \<le> k \<and> before_end k e) (entries n), acc \<union> range_keys n s e))"
  "knows root_hash heights get (child_subnodes c) \<Longrightarrow> child_complete c \<Longrightarrow> sorted_wrt (<) (map fst (child_entries c)) \<Longrightarrow>
    (case map_option (extract_child_ref root_hash heights) c of
       Some r \<Rightarrow> trace_range_recursive get (cr_key r) s e res acc
     | None \<Rightarrow> Some (Some (res, acc))) =
      Some (Some (res @ filter (\<lambda>(k, _). s \<le> k \<and> before_end k e) (child_entries c), acc \<union> child_range_keys c s e))"
proof (induction n and c arbitrary: res acc and res acc rule: entries_child_entries.induct)
  case (1 k v h l r)
  let ?P = "\<lambda>(k, _). s \<le> k \<and> before_end k e"
  have data: "get k = Some (extract_node_data root_hash heights (Node k v h l r))"
    using 1(3) by (simp add: knows_def)
  have left: "filter ?P (child_entries l) = []" if "\<not> s < k"
    using 1(5) that by (intro filter_none) (fastforce simp: sorted_wrt_append)
  have right: "filter ?P (child_entries r) = []" if "\<not> before_end k e"
    using 1(5) that
    by (intro filter_none) (fastforce simp: sorted_wrt_append before_end_def split: option.splits)
  have known: "knows root_hash heights get (child_subnodes l)" "knows root_hash heights get (child_subnodes r)"
    using 1(3) by (auto simp: knows_def)
  show ?case
    using 1(1) [of res "insert k acc"] 1(2) 1(4,5) known left right
    by (cases "s < k"; cases "before_end k e")
      (auto simp: trace_range_recursive.simps [of get k] data extract_node_data_def sorted_wrt_append Un_ac)
qed (simp_all add: knows_def)

text \<open>C18: the prover's tracing loops terminate.  On every complete search tree, for every key and every
  range, following the node data from the root returns: the loop neither runs forever nor panics, and
  what it finds is the value of the key and the entries of the range.\<close>

theorem tracing_returns:
  assumes "complete t" and "search_tree t"
  shows "(\<exists>visited. trace_key (get_node_data root_hash heights t Map.empty) (nkey t) key accessed =
      Some (Some (map_of (entries t) key, visited))) \<and>
    (\<exists>visited. trace_range_recursive (get_node_data root_hash heights t Map.empty) (nkey t) start end_key results accessed =
      Some (Some (results @ filter (\<lambda>(k, _). start \<le> k \<and> before_end k end_key) (entries t), visited)))"
proof -
  note sorted = assms(2) [unfolded search_tree_def]
  from trace_key_node(1) [OF knows_tree [OF assms(2)] assms(1) sorted, of root_hash heights key accessed]
    trace_range_node(1) [OF knows_tree [OF assms(2)] assms(1) sorted, of root_hash heights start end_key results accessed]
  show ?thesis
    by blast
qed

theorem tracing_returns_witness:
  "\<exists>visited. trace_key (get_node_data small_root_hash (\<lambda>_. (0, 0)) small_store Map.empty) (nkey small_store) [2] {} =
    Some (Some (map_of (entries small_store) [2], visited))"
  using tracing_returns [of small_store small_root_hash "\<lambda>_. (0, 0)" "[2]" "{}"]
  by (simp add: small_store_def search_tree_def)

section \<open>Recorded witnesses answer the reads\<close>

fun cut_node :: "(merk_node \<Rightarrow> digest) \<Rightarrow> (merk_node \<Rightarrow> u8 \<times> u8) \<Rightarrow> bytes set \<Rightarrow> merk_node \<Rightarrow> merk_node"
  and cut_child :: "(merk_node \<Rightarrow> digest) \<Rightarrow> (merk_node \<Rightarrow> u8 \<times> u8) \<Rightarrow> bytes set \<Rightarrow> merk_child option \<Rightarrow> merk_child option"
where
  "cut_node root_hash heights A (Node k v h l r) = Node k v h (cut_child root_hash heights A l) (cut_child root_hash heights A r)"
| "cut_child root_hash heights A None = None"
| "cut_child root_hash heights A (Some (Resident n)) =
    Some (if nkey n \<in> A then Resident (cut_node root_hash heights A n) else PrunedChild (nkey n) (root_hash n) (heights n))"
| "cut_child root_hash heights A (Some (PrunedChild k h hs)) = Some (PrunedChild k h hs)"

lemma pruned_build:
  "complete n \<Longrightarrow> kv_bound kv_hash n \<Longrightarrow>
    pruned_to_child kv_hash (build_pruned_recursive root_hash heights n A) =
      Some (cut_child root_hash heights A (Some (Resident n)))"
  "child_complete c \<Longrightarrow> child_kv_bound kv_hash c \<Longrightarrow>
    pruned_to_child kv_hash (build_pruned_child root_hash heights c A) = Some (cut_child root_hash heights A c)"
  by (induction n and c rule: entries_child_entries.induct) simp_all

lemma pruned_build_root:
  assumes "complete t" and "kv_bound kv_hash t" and "nkey t \<in> A"
  shows "pruned_to_merk kv_hash (build_pruned_recursive root_hash heights t A) = Some (Some (cut_node root_hash heights A t))"
proof (cases t)
  case (Node k v h l r)
  then show ?thesis
    using assms pruned_build(2) [of l kv_hash root_hash heights A] pruned_build(2) [of r kv_hash root_hash heights A] by simp
qed

lemma cut_prunes:
  "complete n \<Longrightarrow> prunes root_hash (cut_node root_hash heights A n) n"
  "child_complete c \<Longrightarrow> child_prunes root_hash (cut_child root_hash heights A c) c"
  by (induction n and c rule: entries_child_entries.induct) (simp_all add: link_hash_def)

lemma lookup_cut:
  "path_keys n key \<subseteq> A \<Longrightarrow> complete n \<Longrightarrow>
    lookup_value_verified kv_hash (cut_node root_hash heights A n) key = lookup_value_verified kv_hash n key"
  "child_path_keys c key \<subseteq> A \<Longrightarrow> child_complete c \<Longrightarrow>
    lookup_child kv_hash (cut_child root_hash heights A c) key = lookup_child kv_hash c key"
proof (induction n and c rule: entries_child_entries.induct)
  case (3 n)
  then show ?case
    by (cases n) auto
qed auto

lemma collect_cut:
  "range_keys n s e \<subseteq> A \<Longrightarrow> complete n \<Longrightarrow>
    collect_range_recursive kv_hash (cut_node root_hash heights A n) s e acc = collect_range_recursive kv_hash n s e acc"
  "child_range_keys c s e \<subseteq> A \<Longrightarrow> child_complete c \<Longrightarrow>
    collect_range_child kv_hash (cut_child root_hash heights A c) s e acc = collect_range_child kv_hash c s e acc"
proof (induction n and c arbitrary: acc and acc rule: entries_child_entries.induct)
  case (1 k v h l r)
  have "before_end k e \<Longrightarrow> collect_range_child kv_hash (cut_child root_hash heights A r) s e = collect_range_child kv_hash r s e"
    using 1 by (intro ext) simp
  then show ?case
    using 1 by (cases "s < k") (simp_all cong: if_cong)
next
  case (3 n)
  then show ?case
    by (cases n) auto
qed auto

fun read_keys :: "merk_node \<Rightarrow> read_op \<Rightarrow> bytes set" where
  "read_keys t (ReadKey key) = path_keys t key"
| "read_keys t (ReadPrefix p) = range_keys t p (prefix_successor p)"
| "read_keys t (ReadRange s e) = range_keys t s (Some e)"

lemma extract_read_cut:
  "read_keys t op \<subseteq> A \<Longrightarrow> complete t \<Longrightarrow> extract_read kv_hash (cut_node root_hash heights A t) op = extract_read kv_hash t op"
  by (cases op) (simp_all add: lookup_cut collect_cut collect_range_def)

lemma trace_read_op_keys:
  assumes "complete t" and "search_tree t"
  shows "\<exists>targets. trace_read_op (get_node_data root_hash heights t Map.empty) op (nkey t) acc tk =
    Some (Some (\<lparr>pr_op = op, pr_results = []\<rparr>, acc \<union> read_keys t op, targets))"
proof -
  note sorted = assms(2) [unfolded search_tree_def]
  note key = trace_key_node(1) [OF knows_tree [OF assms(2)] assms(1) sorted, of root_hash heights]
    and scan = trace_range_node(1) [OF knows_tree [OF assms(2)] assms(1) sorted, of root_hash heights]
  show ?thesis
    by (cases op) (simp_all add: trace_read_op_def key scan)
qed

lemma trace_reads_keys:
  assumes "complete t" and "search_tree t" and "ts_root_key s = nkey t"
  shows "\<exists>targets. trace_reads (get_node_data root_hash heights t Map.empty) ops proven s =
    Some (Some (proven @ map (\<lambda>op. \<lparr>pr_op = op, pr_results = []\<rparr>) ops,
      s\<lparr>ts_accessed := ts_accessed s \<union> (\<Union>op \<in> set ops. read_keys t op), ts_read_targets := targets\<rparr>))"
  using assms(3)
proof (induction ops arbitrary: proven s)
  case Nil
  show ?case
    by (intro exI [of _ "ts_read_targets s"]) simp
next
  case (Cons op ops)
  obtain targets where step: "trace_read_op (get_node_data root_hash heights t Map.empty) op (nkey t) (ts_accessed s) (ts_read_targets s) =
      Some (Some (\<lparr>pr_op = op, pr_results = []\<rparr>, ts_accessed s \<union> read_keys t op, targets))"
    using trace_read_op_keys [OF assms(1,2)] by blast
  show ?case
    using Cons.IH [of "s\<lparr>ts_accessed := ts_accessed s \<union> read_keys t op, ts_read_targets := targets\<rparr>" "proven @ [\<lparr>pr_op = op, pr_results = []\<rparr>]"]
      Cons.prems step by (auto simp: Un_assoc)
qed

lemma trace_steps_reads:
  assumes "complete t" and "search_tree t" and "ts_root_key s = nkey t" and "ts_overlay s = Map.empty"
  shows "\<exists>targets. trace_steps root_hash heights walker t (map IRead opss) s =
    Some (Some (s\<lparr>ts_accessed := ts_accessed s \<union> (\<Union>op \<in> set (concat opss). read_keys t op), ts_read_targets := targets,
      ts_resolved := ts_resolved s @ map (\<lambda>ops. TRead (map (\<lambda>op. \<lparr>pr_op = op, pr_results = []\<rparr>) ops)) opss\<rparr>))"
  using assms(3,4)
proof (induction opss arbitrary: s)
  case Nil
  show ?case
    by (intro exI [of _ "ts_read_targets s"]) simp
next
  case (Cons ops opss)
  let ?rs = "map (\<lambda>op. \<lparr>pr_op = op, pr_results = []\<rparr>) ops"
  obtain targets where "trace_reads (get_node_data root_hash heights t Map.empty) ops [] s =
      Some (Some (?rs, s\<lparr>ts_accessed := ts_accessed s \<union> (\<Union>op \<in> set ops. read_keys t op), ts_read_targets := targets\<rparr>))"
    using trace_reads_keys [OF assms(1,2) Cons.prems(1), of root_hash heights ops "[]"] by auto
  then show ?case
    using Cons.IH [of "s\<lparr>ts_accessed := ts_accessed s \<union> (\<Union>op \<in> set ops. read_keys t op), ts_read_targets := targets,
        ts_resolved := ts_resolved s @ [TRead ?rs]\<rparr>"] Cons.prems by (auto simp: Un_assoc)
qed

lemma process_reads:
  assumes "\<forall>op \<in> set (concat opss). extract_read kv_hash p op = Some (pr_results (answer kvs \<lparr>pr_op = op, pr_results = []\<rparr>))"
  shows "process_steps kv_hash apply (map (\<lambda>ops. TRead (map (\<lambda>op. \<lparr>pr_op = op, pr_results = []\<rparr>) ops)) opss) (Some p) acc =
    Some (Some p, acc @ map (map (\<lambda>op. answer kvs \<lparr>pr_op = op, pr_results = []\<rparr>)) opss)"
  using assms
proof (induction opss arbitrary: acc)
  case (Cons ops opss)
  have "extract_reads kv_hash p (map (\<lambda>op. \<lparr>pr_op = op, pr_results = []\<rparr>) ops) =
      Some (map (\<lambda>op. answer kvs \<lparr>pr_op = op, pr_results = []\<rparr>) ops)"
    using Cons.prems by (induction ops) (simp_all add: answer_def)
  then show ?case
    using Cons by simp
qed simp

text \<open>C17: a witness recorded for reads is complete.  For every complete search tree and every list of reads,
  creating a trace returns, and verification accepts the trace and answers each read with exactly the
  entries of the tree: no read runs into a part of the tree that the witness left out.\<close>

theorem recorded_reads_verify:
  assumes law: "merkle_law node_hash root_hash" and store: "store_ok kv_hash (Some t)"
  shows "\<exists>trace. create_trace root_hash heights walker t (map IRead opss) = Some (Some trace) \<and>
    verify_trace kv_hash root_hash apply trace =
      Inr (map (map (\<lambda>op. answer (entries t) \<lparr>pr_op = op, pr_results = []\<rparr>)) opss)"
proof -
  have t: "complete t" "kv_bound kv_hash t" "search_tree t"
    using store by (simp_all add: store_ok_def)
  let ?A = "{nkey t} \<union> (\<Union>op \<in> set (concat opss). read_keys t op)"
  let ?p = "cut_node root_hash heights ?A t"
  let ?steps = "map (\<lambda>ops. TRead (map (\<lambda>op. \<lparr>pr_op = op, pr_results = []\<rparr>) ops)) opss"
  let ?trace = "\<lparr>tp_pruned_tree = build_pruned_recursive root_hash heights t ?A, tp_steps = ?steps,
    tp_expected_start_root = root_hash t, tp_expected_end_root = root_hash t\<rparr>"
  have "create_trace root_hash heights walker t (map IRead opss) = Some (Some ?trace)"
    using trace_steps_reads [OF t(1,3), of "\<lparr>ts_overlay = Map.empty, ts_root_key = nkey t, ts_accessed = {nkey t},
        ts_read_targets = {}, ts_end_root = root_hash t, ts_resolved = []\<rparr>" root_hash heights walker opss]
    by (auto simp: create_trace_def build_pruned_tree_compacted_def)
  moreover have "verify_trace kv_hash root_hash apply ?trace =
      Inr (map (map (\<lambda>op. answer (entries t) \<lparr>pr_op = op, pr_results = []\<rparr>)) opss)"
  proof -
    have "\<forall>op \<in> set (concat opss). read_keys t op \<subseteq> ?A"
      by auto
    then have "\<forall>op \<in> set (concat opss). extract_read kv_hash ?p op = Some (pr_results (answer (entries t) \<lparr>pr_op = op, pr_results = []\<rparr>))"
      by (simp add: extract_read_cut [OF _ t(1)] extract_read_complete [OF t] answer_def)
    moreover have "root_hash ?p = root_hash t"
      using prunes_same_root(1) [OF law cut_prunes(1) [OF t(1)]] .
    ultimately show ?thesis
      using pruned_build_root [OF t(1,2), of ?A root_hash heights] process_reads [of opss kv_hash ?p "entries t" _ "[]"]
      by (simp add: verify_trace_def verify_trace_internal_def end_root_def)
  qed
  ultimately show ?thesis
    by blast
qed

theorem recorded_reads_verify_witness:
  "\<exists>trace. create_trace small_root_hash (\<lambda>_. (0, 0)) (\<lambda>_ _ _. None) small_store [IRead [ReadKey [2]], IRead [ReadPrefix []]] = Some (Some trace) \<and>
    verify_trace small_kv_hash small_root_hash root_put trace =
      Inr [[\<lparr>pr_op = ReadKey [2], pr_results = [([2], [9])]\<rparr>], [\<lparr>pr_op = ReadPrefix [], pr_results = entries small_store\<rparr>]]"
  using recorded_reads_verify [OF small_merkle_law, of small_kv_hash small_store "\<lambda>_. (0, 0)" "\<lambda>_ _ _. None" "[[ReadKey [2]], [ReadPrefix []]]" root_put]
  by (simp add: small_store_def store_ok_def small_kv_hash_def search_tree_def answer_def)

end
