(* ===== verification/Ff_Prover.thy ===== *)
theory Ff_Prover
  imports Fast_Forward Trace_Creation
begin

text \<open>
  The host side of fast-forward proving, \<open>ffproof/src/prover.rs\<close>: the steps of a range of changes are
  extracted by running every operation against the tree before the range, with a write overlay in
  front of it, and a chunk is handed to the guest as flat entry bytes, a range and a compact witness.

  \<open>get_value\<close> (merk), the zkVM prover, postcard and the tracer are parameters.

  The lemmas show that a read through the overlay is a read of the store after the earlier writes, so
  that the extracted steps are those of the sequential execution, and that the flat entry bytes the
  host sends are the ones the guest reads back.
\<close>

section \<open>Reads through the write overlay\<close>

type_synonym overlay = "(bytes \<times> bytes option) list"

definition upsert :: "bytes \<times> bytes option \<Rightarrow> (bytes \<times> bytes) list \<Rightarrow> (bytes \<times> bytes) list" where
  "upsert = (\<lambda>(key, val) results.
    let results = filter (\<lambda>(k, _). k \<noteq> key) results
    in (case val of Some v \<Rightarrow> results @ [(key, v)] | None \<Rightarrow> results))"

definition apply_overlay_to_range ::
  "(bytes \<times> bytes) list \<Rightarrow> overlay \<Rightarrow> bytes \<Rightarrow> bytes option \<Rightarrow> (bytes \<times> bytes) list"
where
  "apply_overlay_to_range snapshot_results overlay start end_key =
    sort_key fst (fold upsert (takeWhile (\<lambda>(key, _). before_end key end_key) (filter (\<lambda>(key, _). start \<le> key) overlay))
      snapshot_results)"

text \<open>The resolver of the prover's reader.  \<open>get_value\<close> is merk's lookup; \<^const>\<open>None\<close> is its error.\<close>

definition resolver ::
  "(bytes \<Rightarrow> bytes \<Rightarrow> digest option) \<Rightarrow> (merk_node \<Rightarrow> bytes \<Rightarrow> get_result option) \<Rightarrow> merk_node \<Rightarrow> overlay \<Rightarrow> reader"
where
  "resolver kv_hash get_value tree_snapshot write_overlay op =
    res_bind (case op of
        ReadKey key \<Rightarrow>
          (case map_of write_overlay key of
             Some entry \<Rightarrow> Inr (case entry of Some val \<Rightarrow> [(key, val)] | None \<Rightarrow> [])
           | None \<Rightarrow>
               (case get_value tree_snapshot key of
                  None \<Rightarrow> Inl Generic
                | Some (Found val) \<Rightarrow> Inr [(key, val)]
                | Some NotFound \<Rightarrow> Inr []
                | Some HitPruned \<Rightarrow> Inl Generic))
      | ReadPrefix p \<Rightarrow>
          res_bind (ok_or Panic (collect_range kv_hash tree_snapshot p (prefix_successor p))) (\<lambda>rs.
            Inr (apply_overlay_to_range rs write_overlay p (prefix_successor p)))
      | ReadRange start end_key \<Rightarrow>
          res_bind (ok_or Panic (collect_range kv_hash tree_snapshot start (Some end_key))) (\<lambda>rs.
            Inr (apply_overlay_to_range rs write_overlay start (Some end_key))))
      (\<lambda>results. Inr \<lparr>pr_op = op, pr_results = results\<rparr>)"

section \<open>Extraction of the steps\<close>



fun overlay_write :: "batch_op \<Rightarrow> overlay \<Rightarrow> overlay" where
  "overlay_write (BPut key val) overlay = btree_insert key (Some val) overlay"
| "overlay_write (BDelete key) overlay = btree_insert key None overlay"

fun emit_writes :: "trace_step list \<Rightarrow> overlay \<Rightarrow> input_step list \<Rightarrow> changelog_error + overlay \<times> input_step list" where
  "emit_writes [] overlay steps = Inr (overlay, steps)"
| "emit_writes (TWrite ops # rest) overlay steps = emit_writes rest (fold overlay_write ops overlay) (steps @ [IWrite ops])"
| "emit_writes (TRead rs # rest) overlay steps = Inl Generic"

definition extract_change ::
  "libs \<Rightarrow> dispatcher \<Rightarrow> (bytes \<Rightarrow> changelog_entry option) \<Rightarrow> (merk_node \<Rightarrow> bytes \<Rightarrow> get_result option) \<Rightarrow> merk_node \<Rightarrow>
    nat \<Rightarrow> changelog_entry \<Rightarrow> overlay \<times> meta_cache \<times> input_step list \<Rightarrow>
    changelog_error + overlay \<times> meta_cache \<times> input_step list"
where
  "extract_change L dispatch entry_from_bytes get_value tree_snapshot i change = (\<lambda>(write_overlay, cache, input_steps).
    res_bind (ok_or Generic (entry_from_bytes (entry_bytes L change))) (\<lambda>entry.
    let (logged_reads, result) = run_prover (resolver (kvh L) get_value tree_snapshot write_overlay)
          (dispatch entry (begin_change for_change_sequence (i + 1)) cache) []
    in res_bind result (\<lambda>(op_result, cache).
       res_bind (emit_writes (write_steps op_result) write_overlay (input_steps @ map (\<lambda>r. IRead [r]) logged_reads))
         (\<lambda>(write_overlay, input_steps).
           Inr (write_overlay, finish_change (lm_op_type (ce_message entry)) cache, input_steps)))))"

fun extract_changes ::
  "libs \<Rightarrow> dispatcher \<Rightarrow> (bytes \<Rightarrow> changelog_entry option) \<Rightarrow> (merk_node \<Rightarrow> bytes \<Rightarrow> get_result option) \<Rightarrow> merk_node \<Rightarrow>
    nat \<Rightarrow> changelog_entry list \<Rightarrow> overlay \<times> meta_cache \<times> input_step list \<Rightarrow>
    changelog_error + overlay \<times> meta_cache \<times> input_step list"
where
  "extract_changes L dispatch entry_from_bytes get_value tree i [] s = Inr s"
| "extract_changes L dispatch entry_from_bytes get_value tree i (change # changes) s =
    res_bind (extract_change L dispatch entry_from_bytes get_value tree i change s) (\<lambda>s.
      extract_changes L dispatch entry_from_bytes get_value tree (i + 1) changes s)"

definition extract_input_steps ::
  "libs \<Rightarrow> dispatcher \<Rightarrow> (bytes \<Rightarrow> changelog_entry option) \<Rightarrow> (merk_node \<Rightarrow> bytes \<Rightarrow> get_result option) \<Rightarrow>
    change_log \<Rightarrow> nat \<Rightarrow> merk_node \<Rightarrow> changelog_error + input_step list"
where
  "extract_input_steps L dispatch entry_from_bytes get_value changelog start_idx tree_snapshot =
    res_bind (extract_changes L dispatch entry_from_bytes get_value tree_snapshot start_idx
        (drop start_idx (take (unat (num_changes changelog)) (cl_changes changelog))) ([], cache_default, []))
      (\<lambda>(_, _, input_steps). Inr input_steps)"

section \<open>The overlay stands for the updated store\<close>

definition overlay_of :: "(bytes \<times> bytes) list \<Rightarrow> overlay \<Rightarrow> (bytes \<times> bytes) list \<Rightarrow> bool" where
  "overlay_of kvs overlay kvs' \<longleftrightarrow> sorted_map kvs \<and> sorted_map overlay \<and> sorted_map kvs' \<and>
    map_of kvs' = (\<lambda>k. case map_of overlay k of Some v \<Rightarrow> v | None \<Rightarrow> map_of kvs k)"

lemma sorted_map_distinct: "sorted_map m \<Longrightarrow> distinct (map fst m)"
  by (simp add: strict_sorted_iff)

lemma sorted_map_sort_key:
  assumes "distinct (map fst m)"
  shows "sorted_map (sort_key fst m)" and "map_of (sort_key fst m) = map_of m"
proof -
  have "distinct (map fst (sort_key fst m))"
    using assms by (simp add: distinct_map)
  then show "sorted_map (sort_key fst m)" "map_of (sort_key fst m) = map_of m"
    using assms by (auto simp: strict_sorted_iff intro: map_of_inject_set [THEN iffD2])
qed

lemma map_of_filter_key: "map_of (filter (\<lambda>(k, _). P k) m) = (\<lambda>k. if P k then map_of m k else None)"
  by (induction m) (auto simp: fun_eq_iff)

lemma upsert_spec:
  assumes "distinct (map fst rs)"
  shows "distinct (map fst (upsert (k, v) rs)) \<and> map_of (upsert (k, v) rs) = (map_of rs)(k := v)"
proof -
  let ?rs = "filter (\<lambda>(k', _). k' \<noteq> k) rs"
  have "distinct (map fst ?rs)" "k \<notin> fst ` set ?rs"
    using assms by (auto simp: distinct_map_filter)
  then show ?thesis
    by (cases v) (auto simp: upsert_def map_of_filter_key fun_eq_iff map_add_def split: option.splits)
qed

lemma fold_upsert:
  assumes "distinct (map fst rs)" and "distinct (map fst ov)"
  shows "distinct (map fst (fold upsert ov rs)) \<and>
    map_of (fold upsert ov rs) = (\<lambda>k. case map_of ov k of Some v \<Rightarrow> v | None \<Rightarrow> map_of rs k)"
  using assms
proof (induction ov arbitrary: rs)
  case (Cons kv ov)
  obtain k v where kv: "kv = (k, v)"
    by (cases kv)
  note up = upsert_spec [OF Cons.prems(1), of k v]
  have "map_of ov k = None"
    using Cons.prems(2) by (simp add: kv map_of_eq_None_iff)
  then show ?case
    using Cons.IH [of "upsert (k, v) rs"] up Cons.prems(2) by (auto simp: kv fun_eq_iff split: option.splits)
qed simp

lemma takeWhile_range:
  fixes ov :: overlay
  assumes "sorted_map ov"
  shows "takeWhile (\<lambda>(k, _). before_end k e) (filter (\<lambda>(k, _). s \<le> k) ov) = filter (\<lambda>(k, _). s \<le> k \<and> before_end k e) ov"
  using assms
proof (induction ov)
  case (Cons kv ov)
  obtain k v where kv: "kv = (k, v)"
    by (cases kv)
  have later: "\<not> before_end k e \<Longrightarrow> x \<in> set ov \<Longrightarrow> \<not> before_end (fst x) e" for x
    using Cons.prems by (fastforce simp: kv before_end_def split: option.splits)
  have "\<not> before_end k e \<Longrightarrow> filter (\<lambda>(k, _). s \<le> k \<and> before_end k e) ov = []"
    using later by (fastforce simp: filter_empty_conv)
  then show ?case
    using Cons.IH Cons.prems by (auto simp: kv)
qed simp

lemma overlay_range:
  assumes "overlay_of kvs ov kvs'"
  shows "apply_overlay_to_range (filter (\<lambda>(k, _). s \<le> k \<and> before_end k e) kvs) ov s e =
    filter (\<lambda>(k, _). s \<le> k \<and> before_end k e) kvs'"
proof -
  let ?in = "\<lambda>k. s \<le> k \<and> before_end k e"
  let ?sel = "filter (\<lambda>(k, _). ?in k)"
  have "distinct (map fst kvs)" "distinct (map fst ov)" "sorted_map kvs'"
    using assms by (simp_all add: overlay_of_def sorted_map_distinct)
  then have "distinct (map fst (?sel kvs))" "distinct (map fst (?sel ov))" "sorted_map (?sel kvs')"
    by (simp_all add: distinct_map_filter sorted_wrt_map sorted_wrt_filter)
  moreover from fold_upsert [OF this(1,2)] have "map_of (fold upsert (?sel ov) (?sel kvs)) = map_of (?sel kvs')"
    using assms by (auto simp: map_of_filter_key overlay_of_def fun_eq_iff split: option.splits)
  ultimately have "sort_key fst (fold upsert (?sel ov) (?sel kvs)) = ?sel kvs'"
    using fold_upsert [of "?sel kvs" "?sel ov"] sorted_map_sort_key [of "fold upsert (?sel ov) (?sel kvs)"]
    by (intro sorted_map_unique) auto
  then show ?thesis
    using assms by (simp add: apply_overlay_to_range_def takeWhile_range overlay_of_def)
qed

text \<open>merk's lookup on a complete tree.\<close>

definition get_value_law :: "(merk_node \<Rightarrow> bytes \<Rightarrow> get_result option) \<Rightarrow> bool" where
  "get_value_law get_value \<longleftrightarrow> (\<forall>t k. complete t \<and> search_tree t \<longrightarrow>
    get_value t k = Some (case map_of (entries t) k of Some v \<Rightarrow> Found v | None \<Rightarrow> NotFound))"

lemma resolver_reads_store:
  assumes law: "get_value_law get_value" and store: "store_ok kv_hash (Some t)" and ov: "overlay_of (entries t) ov kvs"
  shows "resolver kv_hash get_value t ov = store_read kvs"
proof
  fix op
  note t = store [unfolded store_ok_def, simplified]
  show "resolver kv_hash get_value t ov op = store_read kvs op"
  proof (cases op)
    case (ReadKey key)
    have "get_value t key = Some (case map_of (entries t) key of Some v \<Rightarrow> Found v | None \<Rightarrow> NotFound)"
      using law t by (simp add: get_value_law_def)
    moreover have "filter (\<lambda>(k, _). k = key) kvs = (case map_of kvs key of Some v \<Rightarrow> [(key, v)] | None \<Rightarrow> [])"
      using ov by (intro filter_key_map_of sorted_map_distinct) (simp add: overlay_of_def)
    ultimately show ?thesis
      using ov ReadKey by (auto simp: resolver_def store_read_def answer_def overlay_of_def split: option.splits)
  next
    case (ReadPrefix p)
    have "collect_range kv_hash t p (prefix_successor p) =
        Some (filter (\<lambda>(k, _). p \<le> k \<and> before_end k (prefix_successor p)) (entries t))"
      using collect_range_complete(1) [of t kv_hash p "prefix_successor p" "[]"] t by (simp add: collect_range_def search_tree_def)
    then show ?thesis
      using ReadPrefix overlay_range [OF ov, of p "prefix_successor p"]
      by (simp add: resolver_def store_read_def answer_def prefix_scan_bounds)
  next
    case (ReadRange s e)
    have "collect_range kv_hash t s (Some e) = Some (filter (\<lambda>(k, _). s \<le> k \<and> before_end k (Some e)) (entries t))"
      using collect_range_complete(1) [of t kv_hash s "Some e" "[]"] t by (simp add: collect_range_def search_tree_def)
    then show ?thesis
      using ReadRange overlay_range [OF ov, of s "Some e"] by (simp add: resolver_def store_read_def answer_def before_end_def)
  qed
qed

lemma overlay_of_write:
  assumes "overlay_of kvs ov kvs'"
  shows "overlay_of kvs (overlay_write op ov) (write_op op kvs')"
proof -
  have sorted: "sorted_map ov" "sorted_map kvs'"
    using assms by (simp_all add: overlay_of_def)
  have "sorted_map (overlay_write op ov)"
    using sorted(1) by (cases op) (simp_all add: sorted_btree_insert)
  moreover have "sorted_map (write_op op kvs') \<and> map_of (write_op op kvs') = store_op op (map_of kvs')"
    using write_ops [OF sorted(2), of "[op]"] by simp
  ultimately show ?thesis
    using assms by (cases op) (auto simp: overlay_of_def map_of_btree_insert fun_eq_iff)
qed

lemma overlay_of_writes: "overlay_of kvs ov kvs' \<Longrightarrow> overlay_of kvs (fold overlay_write ops ov) (fold write_op ops kvs')"
  by (induction ops arbitrary: ov kvs') (simp_all add: overlay_of_write)

section \<open>The extracted steps are those of the sequential execution\<close>

text \<open>The sequential execution of changes on the entries of a store, with the reads and writes it makes.\<close>

definition run_change ::
  "libs \<Rightarrow> dispatcher \<Rightarrow> (bytes \<Rightarrow> changelog_entry option) \<Rightarrow> nat \<Rightarrow> changelog_entry \<Rightarrow>
    (bytes \<times> bytes) list \<times> meta_cache \<times> input_step list \<Rightarrow>
    changelog_error + (bytes \<times> bytes) list \<times> meta_cache \<times> input_step list"
where
  "run_change L dispatch entry_from_bytes i change = (\<lambda>(kvs, cache, steps).
    res_bind (ok_or Generic (entry_from_bytes (entry_bytes L change))) (\<lambda>entry.
    let (reads, result) = run_prover (store_read kvs) (dispatch entry (for_change_id (i + 1)) cache) []
    in res_bind result (\<lambda>(op_result, cache).
       res_bind (flatten_write_steps op_result) (\<lambda>writes.
         Inr (fold write_op writes kvs, finish_change (lm_op_type (ce_message entry)) cache,
           steps @ map (\<lambda>r. IRead [r]) reads @
           map (\<lambda>step. case step of TWrite ops \<Rightarrow> IWrite ops | TRead _ \<Rightarrow> IWrite []) (write_steps op_result))))))"

fun run_changes ::
  "libs \<Rightarrow> dispatcher \<Rightarrow> (bytes \<Rightarrow> changelog_entry option) \<Rightarrow> nat \<Rightarrow> changelog_entry list \<Rightarrow>
    (bytes \<times> bytes) list \<times> meta_cache \<times> input_step list \<Rightarrow>
    changelog_error + (bytes \<times> bytes) list \<times> meta_cache \<times> input_step list"
where
  "run_changes L dispatch entry_from_bytes i [] s = Inr s"
| "run_changes L dispatch entry_from_bytes i (change # changes) s =
    res_bind (run_change L dispatch entry_from_bytes i change s) (run_changes L dispatch entry_from_bytes (i + 1) changes)"

lemma emit_writes_flatten:
  "emit_writes ws ov steps = (case flatten_write_steps \<lparr>write_steps = ws\<rparr> of
      Inl e \<Rightarrow> Inl Generic
    | Inr writes \<Rightarrow> Inr (fold overlay_write writes ov,
        steps @ map (\<lambda>step. case step of TWrite ops \<Rightarrow> IWrite ops | TRead _ \<Rightarrow> IWrite []) ws))"
proof (cases "flatten_write_steps \<lparr>write_steps = ws\<rparr>")
  case (Inr writes)
  then obtain opss where "ws = map TWrite opss" "writes = concat opss"
    by (auto simp: flatten_write_steps_iff)
  moreover have "emit_writes (map TWrite opss) ov steps = Inr (fold overlay_write (concat opss) ov, steps @ map IWrite opss)"
    by (induction opss arbitrary: ov steps) simp_all
  ultimately show ?thesis
    using Inr by simp
next
  case (Inl e)
  then have "\<nexists>opss. ws = map TWrite opss"
    using flatten_write_steps_iff [of "\<lparr>write_steps = ws\<rparr>"] by auto
  then have "emit_writes ws ov steps = Inl Generic"
  proof (induction ws arbitrary: ov steps)
    case (Cons w ws)
    then show ?case
      by (cases w) (auto simp: Cons_eq_map_conv)
  qed simp
  then show ?thesis
    using Inl by simp
qed

lemma flatten_write_steps_error: "flatten_write_steps res = Inl e \<Longrightarrow> e = Generic"
proof -
  have "fold_res (\<lambda>step writes. case step of TWrite ops \<Rightarrow> Inr (writes @ ops) | TRead _ \<Rightarrow> Inl Generic) steps acc = Inl e \<Longrightarrow>
      e = Generic" for steps acc
    by (induction steps arbitrary: acc) (auto split: trace_step.splits)
  then show "flatten_write_steps res = Inl e \<Longrightarrow> e = Generic"
    by (simp add: flatten_write_steps_def)
qed

definition same_outcome ::
  "(bytes \<times> bytes) list \<Rightarrow> changelog_error + overlay \<times> 'a \<Rightarrow> changelog_error + (bytes \<times> bytes) list \<times> 'a \<Rightarrow> bool"
where
  "same_outcome kvs r r' \<longleftrightarrow> (\<exists>e. r = Inl e \<and> r' = Inl e) \<or>
    (\<exists>ov kvs' a. r = Inr (ov, a) \<and> r' = Inr (kvs', a) \<and> overlay_of kvs ov kvs')"

lemma extract_change_runs:
  assumes law: "get_value_law get_value" and store: "store_ok (kvh L) (Some t)" and ov: "overlay_of (entries t) ov kvs"
  shows "same_outcome (entries t) (extract_change L dispatch entry_from_bytes get_value t i change (ov, s))
    (run_change L dispatch entry_from_bytes i change (kvs, s))"
proof (cases "entry_from_bytes (entry_bytes L change)")
  case (Some entry)
  obtain cache steps where s: "s = (cache, steps)"
    by (cases s)
  have ctx: "begin_change for_change_sequence n = for_change_id n" for n
    by (simp add: begin_change_def for_change_sequence_def for_change_id_def)
  obtain reads result where run: "run_prover (store_read kvs) (dispatch entry (for_change_id (i + 1)) cache) [] = (reads, result)"
    by fastforce
  note same = resolver_reads_store [OF law store ov]
  show ?thesis
  proof (cases result)
    case (Inl e)
    then show ?thesis
      using Some run by (simp add: same_outcome_def extract_change_def run_change_def s ctx same)
  next
    case (Inr r)
    obtain ws cache' where r: "r = (\<lparr>write_steps = ws\<rparr>, cache')"
      by (metis op_verify_result.cases surj_pair)
    show ?thesis
    proof (cases "flatten_write_steps \<lparr>write_steps = ws\<rparr>")
      case (Inl e)
      then show ?thesis
        using Some run \<open>result = Inr r\<close> flatten_write_steps_error [OF Inl]
        by (simp add: same_outcome_def extract_change_def run_change_def s ctx same r emit_writes_flatten)
    next
      case (Inr writes)
      then show ?thesis
        using Some run \<open>result = Inr r\<close> overlay_of_writes [OF ov, of writes]
        by (simp add: same_outcome_def extract_change_def run_change_def s ctx same r emit_writes_flatten)
    qed
  qed
qed (cases s, simp add: same_outcome_def extract_change_def run_change_def)

lemma extract_changes_run:
  assumes law: "get_value_law get_value" and store: "store_ok (kvh L) (Some t)" and "overlay_of (entries t) ov kvs"
  shows "same_outcome (entries t) (extract_changes L dispatch entry_from_bytes get_value t i changes (ov, s))
    (run_changes L dispatch entry_from_bytes i changes (kvs, s))"
  using assms(3)
proof (induction changes arbitrary: i ov kvs s)
  case (Cons change changes)
  from extract_change_runs [OF law store Cons.prems, of dispatch entry_from_bytes i change s] show ?case
    unfolding same_outcome_def
  proof (elim disjE exE conjE)
    fix ov' kvs' a
    assume "extract_change L dispatch entry_from_bytes get_value t i change (ov, s) = Inr (ov', a)"
      "run_change L dispatch entry_from_bytes i change (kvs, s) = Inr (kvs', a)" "overlay_of (entries t) ov' kvs'"
    then show "(\<exists>e. extract_changes L dispatch entry_from_bytes get_value t i (change # changes) (ov, s) = Inl e \<and>
        run_changes L dispatch entry_from_bytes i (change # changes) (kvs, s) = Inl e) \<or>
      (\<exists>ov' kvs' a. extract_changes L dispatch entry_from_bytes get_value t i (change # changes) (ov, s) = Inr (ov', a) \<and>
        run_changes L dispatch entry_from_bytes i (change # changes) (kvs, s) = Inr (kvs', a) \<and> overlay_of (entries t) ov' kvs')"
      using Cons.IH [of ov' kvs' "i + 1" a] by (simp add: same_outcome_def)
  qed auto
qed (simp add: same_outcome_def)

text \<open>C11: the prover extracts the reads and writes of the sequential execution.  Although all operations
  run against the tree before the range, with an overlay of pending writes in front of it, every
  operation sees the store as the earlier changes left it: extraction succeeds exactly when running
  the changes one after the other on the store succeeds, and gives the same steps in the same order.\<close>

theorem extracted_steps_sequential:
  assumes "get_value_law get_value" and "store_ok (kvh L) (Some t)"
  shows "extract_input_steps L dispatch entry_from_bytes get_value cl start t =
    res_bind (run_changes L dispatch entry_from_bytes start (drop start (take (unat (num_changes cl)) (cl_changes cl)))
      (entries t, cache_default, [])) (\<lambda>(_, _, steps). Inr steps)"
proof -
  have "overlay_of (entries t) [] (entries t)"
    using assms(2) by (simp add: overlay_of_def store_ok_def search_tree_def)
  from extract_changes_run [OF assms this, of dispatch entry_from_bytes start "drop start (take (unat (num_changes cl)) (cl_changes cl))"
      "(cache_default, [])"] show ?thesis
    unfolding extract_input_steps_def same_outcome_def by auto
qed

definition two_puts :: change_log where
  "two_puts = \<lparr>cl_tree = mmr_new, cl_roots_by_change_id = [], cl_proven_clc_state = None, cl_initial_dc = 12,
    cl_changes = [default_entry, default_entry], cl_ff_proof = [], cl_proven_up_to = 0, cl_pruned_merkle_trees = [],
    cl_inclusion_proof_cache = None, cl_ff_inclusion_proof_cache = None\<rparr>"

theorem extracted_steps_sequential_witness:
  "extract_input_steps small_libs put_root (\<lambda>_. Some default_entry)
      (\<lambda>t k. Some (case map_of (entries t) k of Some v \<Rightarrow> Found v | None \<Rightarrow> NotFound)) two_puts 0 (Node [2] [9] 11 None None) =
    Inr [IRead [ReadKey [2]], IWrite [BPut [2] [9, 9]], IRead [ReadKey [2]], IWrite [BPut [2] [9, 9, 9]]]"
proof -
  have law: "get_value_law (\<lambda>t k. Some (case map_of (entries t) k of Some v \<Rightarrow> Found v | None \<Rightarrow> NotFound))"
    by (simp add: get_value_law_def)
  have store: "store_ok (kvh small_libs) (Some (Node [2] [9] 11 None None))"
    by (simp add: store_ok_def small_libs_def small_kv_hash_def search_tree_def)
  have "cl_changes two_puts = [default_entry, default_entry]" "num_changes two_puts = 2"
    by (simp_all add: two_puts_def num_changes_def)
  then show ?thesis
    unfolding extracted_steps_sequential [OF law store]
    by (simp add: run_change_def put_root_def store_read_def answer_def flatten_write_steps_def)
qed

section \<open>Proving a chunk\<close>

record change_response =
  rs_change_id :: u32
  rs_old_root :: digest
  rs_new_root :: digest
  rs_pruned_merkle_tree :: bytes
  rs_rows_affected :: u64
  rs_hashed_values :: "(digest \<times> bytes) list"
  rs_accepted_at_server_time :: u64

fun flatten_entry_bytes :: "libs \<Rightarrow> changelog_entry list \<Rightarrow> u32 list \<Rightarrow> bytes \<Rightarrow> (u32 list \<times> bytes) option" where
  "flatten_entry_bytes L [] entry_ends bs = Some (entry_ends, bs)"
| "flatten_entry_bytes L (entry # es) entry_ends bs =
    (let end_pos = length bs + length (entry_bytes L entry) in
     if \<not> end_pos \<le> usize_max L then None
     else if \<not> end_pos < 2 ^ 32 then None
     else flatten_entry_bytes L es (entry_ends @ [of_nat end_pos]) (bs @ entry_bytes L entry))"

text \<open>The range and the input of the guest for the changes from \<open>start_idx\<close> on.  The check that a debug
  build makes on the first chunk is left out.\<close>

definition chunk_input ::
  "libs \<Rightarrow> (fast_forward_range \<Rightarrow> bytes) \<Rightarrow> image_id \<Rightarrow> fast_forward_range option \<Rightarrow> change_log \<Rightarrow> change_response list \<Rightarrow> nat \<Rightarrow>
    bytes \<Rightarrow> guest_input option"
where
  "chunk_input L encode_range extend_ff_id previous_io changelog change_responses start_idx pruned_tree_bytes =
    Option.bind (get_tail changelog start_idx) (\<lambda>tail_changelog.
    if \<not> start_idx \<le> length change_responses then None
    else let tail_responses = drop start_idx change_responses;
             end_idx = unat (of_nat (length (tl_changes tail_changelog)) :: u32) in
    Option.bind (case previous_io of
        Some io \<Rightarrow> Some (fr_end_clc_state io)
      | None \<Rightarrow> if start_idx \<noteq> 0 then None else initial_clc_state L (cl_initial_dc changelog)) (\<lambda>start_clc_state.
    Option.bind (current_clc_state L changelog) (\<lambda>end_clc_state.
    if tail_responses = [] \<or> end_idx = 0 \<or> \<not> end_idx - 1 < length tail_responses then None
    else let start_dc = rs_old_root (tail_responses ! 0); end_dc = rs_new_root (tail_responses ! (end_idx - 1)) in
    Option.bind (flatten_entry_bytes L (tl_changes tail_changelog) [] []) (\<lambda>(entry_ends, entries_flat).
    if (case previous_io of Some io \<Rightarrow> of_nat start_idx \<noteq> fr_end_change_id io \<or> start_dc \<noteq> fr_end_dc io | None \<Rightarrow> False) then None
    else Some \<lparr>gi_is_first = (previous_io = None),
      gi_previous_io_bytes = (case previous_io of Some io \<Rightarrow> encode_range io | None \<Rightarrow> []),
      gi_program_id = extend_ff_id, gi_entry_ends = entry_ends, gi_entries_bytes = entries_flat,
      gi_range_bytes = encode_range \<lparr>fr_start_clc_state = start_clc_state, fr_end_clc_state = end_clc_state,
        fr_start_dc = start_dc, fr_end_dc = end_dc, fr_end_change_id = of_nat end_idx, fr_sigref_map = Map.empty,
        fr_recent_roots = [], fr_timestamp_hwm = 0\<rparr>,
      gi_pruned_tree_bytes = pruned_tree_bytes\<rparr>))))"

text \<open>What the host uses of other libraries: postcard, merk and the zkVM, whose prover runs the guest on an
  input.\<close>

record 'receipt host_libs =
  hl_entry_from_bytes :: "bytes \<Rightarrow> changelog_entry option"
  hl_encode_range :: "fast_forward_range \<Rightarrow> bytes"
  hl_serialize :: "'receipt ff_proof \<Rightarrow> bytes"
  hl_get_value :: "merk_node \<Rightarrow> bytes \<Rightarrow> get_result option"
  hl_heights :: "merk_node \<Rightarrow> u8 \<times> u8"
  hl_fetch_walker :: fetch_walker
  hl_prove :: "guest_input \<Rightarrow> 'receipt option"
  hl_receipt_verify :: "'receipt \<Rightarrow> image_id \<Rightarrow> bool"
  hl_journal_decode :: "'receipt \<Rightarrow> fast_forward_range option"
  hl_extend_ff_id :: image_id

definition prove_ff_chunk ::
  "libs \<Rightarrow> 'receipt host_libs \<Rightarrow> 'receipt ff_proof option \<Rightarrow> change_log \<Rightarrow> change_response list \<Rightarrow> nat \<Rightarrow> bytes \<Rightarrow>
    'receipt ff_proof option"
where
  "prove_ff_chunk L Z previous_proof changelog change_responses start_idx pruned_tree_bytes =
    Option.bind (chunk_input L (hl_encode_range Z) (hl_extend_ff_id Z) (map_option fp_io previous_proof) changelog
        change_responses start_idx pruned_tree_bytes) (\<lambda>inp.
    Option.bind (hl_prove Z inp) (\<lambda>receipt.
    if \<not> hl_receipt_verify Z receipt (hl_extend_ff_id Z) then None
    else Option.bind (hl_journal_decode Z receipt) (\<lambda>io. Some \<lparr>fp_io = io, fp_receipt = receipt\<rparr>)))"

definition update_changelog_proof ::
  "libs \<Rightarrow> dispatcher \<Rightarrow> 'receipt host_libs \<Rightarrow> change_log \<Rightarrow> change_response list \<Rightarrow> 'receipt ff_proof option \<Rightarrow> merk_node \<Rightarrow>
    (changelog_error + change_log) option"
where
  "update_changelog_proof L dispatch Z changelog change_responses previous_proof tree_snapshot =
    (let start_idx = cl_proven_up_to changelog in
     if unat (num_changes changelog) \<le> start_idx then Some (Inr changelog)
     else (case extract_input_steps L dispatch (hl_entry_from_bytes Z) (hl_get_value Z) changelog start_idx tree_snapshot of
         Inl e \<Rightarrow> Some (Inl (if e = Panic then Panic else Generic))
       | Inr steps \<Rightarrow>
           Option.bind (create_trace (rooth L) (hl_heights Z) (hl_fetch_walker Z) tree_snapshot steps) (\<lambda>tracer_proof.
           Some (res_bind (ok_or Panic tracer_proof) (\<lambda>tracer_proof.
             res_bind (ok_or Panic (encode_pruned_compact (tp_pruned_tree tracer_proof))) (\<lambda>pruned_tree_bytes.
             res_bind (ok_or Panic (prove_ff_chunk L Z previous_proof changelog change_responses start_idx pruned_tree_bytes))
               (\<lambda>proof. ok_or Panic (set_ff_proof L changelog (hl_serialize Z proof) (unat (num_changes changelog))))))))))"

text \<open>The guest reads back the entries that the host flattened.\<close>

lemma flatten_entry_bytes_cut:
  assumes "flatten_entry_bytes L es ends bs = Some (ends', bs')" and "length bs < 2 ^ 32"
  shows "\<exists>new. ends' = ends @ new \<and> length new = length es \<and> bs' = bs @ concat (map (entry_bytes L) es) \<and> length bs' < 2 ^ 32 \<and>
    sorted (length bs # map unat new) \<and> last (length bs # map unat new) = length bs' \<and>
    cut_at bs' (length bs) (map unat new) = map (entry_bytes L) es"
  using assms
proof (induction es arbitrary: ends bs)
  case (Cons e es)
  let ?bs = "bs @ entry_bytes L e"
  from Cons.prems have rest: "flatten_entry_bytes L es (ends @ [of_nat (length ?bs)]) ?bs = Some (ends', bs')"
      and len: "length ?bs < 2 ^ 32"
    by (auto simp: Let_def split: if_splits)
  from Cons.IH [OF rest len] obtain new where new: "ends' = (ends @ [of_nat (length ?bs)]) @ new" "length new = length es"
      "bs' = ?bs @ concat (map (entry_bytes L) es)" "length bs' < 2 ^ 32" "sorted (length ?bs # map unat new)"
      "last (length ?bs # map unat new) = length bs'" "cut_at bs' (length ?bs) (map unat new) = map (entry_bytes L) es"
    by blast
  have "unat (of_nat (length ?bs) :: u32) = length ?bs"
    using unat_of_nat_u32 [OF len] .
  moreover have "slice bs' (length bs) (length ?bs) = entry_bytes L e"
    by (simp add: slice_def new(3))
  ultimately show ?case
    using new by (intro exI [of _ "of_nat (length ?bs) # new"]) auto
qed simp

lemma flatten_entry_bytes_read_back:
  assumes "flatten_entry_bytes L es [] [] = Some (ends, bs)"
  shows "flat_new bs ends = Inr \<lparr>fe_bytes = bs, fe_ends = ends\<rparr>" and "cut_at bs 0 (map unat ends) = map (entry_bytes L) es"
  using flatten_entry_bytes_cut [OF assms] by (auto simp: flat_new_def monotonic_from_sorted last_map split: if_splits)

lemma chunk_input_entries:
  assumes "chunk_input L encode_range image_id previous_io cl responses start_idx w = Some inp"
  shows "input_entries inp = map (entry_bytes L) (drop start_idx (cl_changes cl))"
    and "flat_new (gi_entries_bytes inp) (gi_entry_ends inp) = Inr \<lparr>fe_bytes = gi_entries_bytes inp, fe_ends = gi_entry_ends inp\<rparr>"
    and "gi_program_id inp = image_id"
proof -
  obtain ends bs where "flatten_entry_bytes L (drop start_idx (cl_changes cl)) [] [] = Some (ends, bs)"
      "gi_entry_ends inp = ends" "gi_entries_bytes inp = bs" "gi_program_id inp = image_id"
    using assms by (auto simp: chunk_input_def get_tail_def bind_eq_Some_conv Let_def split: if_splits)
  then show "input_entries inp = map (entry_bytes L) (drop start_idx (cl_changes cl))"
      "flat_new (gi_entries_bytes inp) (gi_entry_ends inp) = Inr \<lparr>fe_bytes = gi_entries_bytes inp, fe_ends = gi_entry_ends inp\<rparr>"
      "gi_program_id inp = image_id"
    using flatten_entry_bytes_read_back by (auto simp: input_entries_def)
qed

text \<open>Updating the proof is a step of the changelog.\<close>

lemma update_changelog_proof_step:
  assumes "update_changelog_proof L dispatch Z cl responses previous_proof tree = Some (Inr cl')"
  shows "(log_step L dispatch)\<^sup>*\<^sup>* cl cl' \<and> unat (num_changes cl') \<le> cl_proven_up_to cl'"
proof (cases "unat (num_changes cl) \<le> cl_proven_up_to cl")
  case False
  with assms obtain bs where set: "set_ff_proof L cl bs (unat (num_changes cl)) = Some cl'"
    by (auto simp: update_changelog_proof_def Let_def bind_eq_Some_conv res_bind_Inr_iff split: sum.splits)
  then have "log_step L dispatch cl cl'"
    by (rule step_set_ff)
  moreover have "cl_proven_up_to cl' = unat (num_changes cl)" "cl_changes cl' = cl_changes cl"
    using set by (auto simp: set_ff_proof_def bind_eq_Some_conv Let_def split: if_splits option.splits)
  ultimately show ?thesis
    by (auto simp: num_changes_def)
qed (use assms in \<open>auto simp: update_changelog_proof_def\<close>)

end
