(* ===== verification/Ops_Common.thy ===== *)
theory Ops_Common
  imports Op_Monad "HOL-Library.Product_Lexorder"
begin

text \<open>
  What the operations share: the value format of \<open>backend/storage-encoding/src/stored_value.rs\<close> and the
  helpers of \<open>ffproof/changelog_core/src/ops/mod.rs\<close> (lines 47 to 1799).

  A helper that reads the tree or uses the metadata cache is a value of \<open>'a op\<close>, a reading program that
  passes the cache through; a helper that does neither returns a sum.  Error messages are dropped, so
  the arguments that only occur in messages (\<open>op_name\<close>, \<open>label\<close>) are left out.  What the operations use of
  postcard and \<open>serde_json\<close> is collected in the record \<open>op_libs\<close>.

  A \<open>BTreeSet\<close> is the strictly increasing list of its elements and a \<open>BTreeMap\<close> the list of its entries
  sorted by key; row identifiers are ordered as signed numbers through the type \<open>row_ident\<close>.
\<close>

section \<open>Programs that use the cache\<close>

type_synonym 'a op = "meta_cache \<Rightarrow> ('a \<times> meta_cache) read_prog"

definition op_return :: "'a \<Rightarrow> 'a op" where
  "op_return a = (\<lambda>c. Done (a, c))"

definition op_lift :: "changelog_error + 'a \<Rightarrow> 'a op" where
  "op_lift r = (\<lambda>c. case r of Inl e \<Rightarrow> Fail e | Inr a \<Rightarrow> Done (a, c))"

definition op_bind :: "'a op \<Rightarrow> ('a \<Rightarrow> 'b op) \<Rightarrow> 'b op" where
  "op_bind m f = (\<lambda>c. rp_bind (m c) (\<lambda>(a, c'). f a c'))"

definition op_read :: "read_op \<Rightarrow> (bytes \<times> bytes) list op" where
  "op_read q = (\<lambda>c. Ask q (\<lambda>r. Done (pr_results r, c)))"

definition op_ensure :: "changelog_error \<Rightarrow> bool \<Rightarrow> unit op" where
  "op_ensure e b = op_lift (ensure e b)"

text \<open>The value for a key of one of the maps of the cache; on a miss the value is fetched and stored.\<close>

definition op_cached ::
  "(meta_cache \<Rightarrow> 'k \<Rightarrow> 'v option) \<Rightarrow> ('k \<Rightarrow> 'v \<Rightarrow> meta_cache \<Rightarrow> meta_cache) \<Rightarrow> 'k \<Rightarrow> 'v op \<Rightarrow> 'v op"
where
  "op_cached get put k fetch = (\<lambda>c. case get c k of
      Some v \<Rightarrow> Done (v, c)
    | None \<Rightarrow> rp_bind (fetch c) (\<lambda>(v, c'). Done (v, put k v c')))"

fun op_map :: "('a \<Rightarrow> 'b op) \<Rightarrow> 'a list \<Rightarrow> 'b list op" where
  "op_map f [] = op_return []"
| "op_map f (x # xs) = op_bind (f x) (\<lambda>y. op_bind (op_map f xs) (\<lambda>ys. op_return (y # ys)))"

fun op_fold :: "('a \<Rightarrow> 's \<Rightarrow> 's op) \<Rightarrow> 'a list \<Rightarrow> 's \<Rightarrow> 's op" where
  "op_fold f [] s = op_return s"
| "op_fold f (x # xs) s = op_bind (f x s) (op_fold f xs)"

section \<open>Row identifiers and checked arithmetic\<close>

datatype row_ident = RowId (raw_id: i64)

instantiation row_ident :: linorder
begin

definition less_eq_row_ident :: "row_ident \<Rightarrow> row_ident \<Rightarrow> bool" where
  "a \<le> b \<longleftrightarrow> sint (raw_id a) \<le> sint (raw_id b)"

definition less_row_ident :: "row_ident \<Rightarrow> row_ident \<Rightarrow> bool" where
  "a < b \<longleftrightarrow> sint (raw_id a) < sint (raw_id b)"

instance
  by standard (auto simp: less_eq_row_ident_def less_row_ident_def intro: row_ident.expand signed_word_eqI [symmetric])

end

definition i64_checked_add :: "i64 \<Rightarrow> i64 \<Rightarrow> i64 option" where
  "i64_checked_add a b =
    (let s = sint a + sint b in if - (2 ^ 63) \<le> s \<and> s < 2 ^ 63 then Some (a + b) else None)"

section \<open>Stored values\<close>

datatype stored_value =
    SNull
  | SBool bool
  | SI64 i64
  | SU64 u64
  | SF64 u64
  | SString bytes
  | SArray "stored_value list"
  | SObject "(bytes \<times> stored_value) list"

datatype stored_value_error = StoredValueError

record 'n op_libs =
  ol_decode_stored :: "bytes \<Rightarrow> stored_value option"
  ol_encode_stored :: "stored_value \<Rightarrow> bytes option"
  ol_as_i64 :: "'n \<Rightarrow> i64 option"
  ol_as_u64 :: "'n \<Rightarrow> u64 option"
  ol_as_f64 :: "'n \<Rightarrow> u64 option"
  ol_from_i64 :: "i64 \<Rightarrow> 'n"
  ol_from_u64 :: "u64 \<Rightarrow> 'n"
  ol_from_f64 :: "u64 \<Rightarrow> 'n option"
  ol_decode_rule :: "bytes \<Rightarrow> access_rule option"
  ol_decode_names :: "bytes \<Rightarrow> bytes list option"
  ol_decode_action_body :: "bytes \<Rightarrow> action_body option"

definition number_to_stored :: "'n op_libs \<Rightarrow> 'n \<Rightarrow> stored_value" where
  "number_to_stored L n =
    (case ol_as_i64 L n of
       Some i \<Rightarrow> SI64 i
     | None \<Rightarrow> (case ol_as_u64 L n of
         Some u \<Rightarrow> SU64 u
       | None \<Rightarrow> (case ol_as_f64 L n of Some f \<Rightarrow> SF64 f | None \<Rightarrow> SNull)))"

fun json_to_stored :: "'n op_libs \<Rightarrow> 'n json \<Rightarrow> stored_value" where
  "json_to_stored L JNull = SNull"
| "json_to_stored L (JBool b) = SBool b"
| "json_to_stored L (JNumber n) = number_to_stored L n"
| "json_to_stored L (JString s) = SString s"
| "json_to_stored L (JArray arr) = SArray (map (json_to_stored L) arr)"
| "json_to_stored L (JObject m) = SObject (map (\<lambda>(k, v). (k, json_to_stored L v)) m)"

fun stored_to_json :: "'n op_libs \<Rightarrow> stored_value \<Rightarrow> 'n json" where
  "stored_to_json L SNull = JNull"
| "stored_to_json L (SBool b) = JBool b"
| "stored_to_json L (SI64 i) = JNumber (ol_from_i64 L i)"
| "stored_to_json L (SU64 u) = JNumber (ol_from_u64 L u)"
| "stored_to_json L (SF64 f) = (case ol_from_f64 L f of Some n \<Rightarrow> JNumber n | None \<Rightarrow> JNull)"
| "stored_to_json L (SString s) = JString s"
| "stored_to_json L (SArray arr) = JArray (map (stored_to_json L) arr)"
| "stored_to_json L (SObject kvs) =
    JObject (fold (\<lambda>(k, v) m. btree_insert k v m) (map (\<lambda>(k, v). (k, stored_to_json L v)) kvs) [])"

definition value_to_bytes :: "'n op_libs \<Rightarrow> 'n json \<Rightarrow> stored_value_error + bytes" where
  "value_to_bytes L v = ok_or StoredValueError (ol_encode_stored L (json_to_stored L v))"

definition bytes_to_value :: "'n op_libs \<Rightarrow> bytes \<Rightarrow> stored_value_error + 'n json" where
  "bytes_to_value L bs = res_bind (ok_or StoredValueError (ol_decode_stored L bs)) (\<lambda>s. Inr (stored_to_json L s))"

section \<open>Checks on entries\<close>

definition validate_max_entries :: "changelog_entry \<Rightarrow> changelog_error + unit" where
  "validate_max_entries entry = ensure Generic (length (lm_entries (ce_message entry)) \<le> MAX_LOGMSG_ENTRIES)"

fun strictly_ascending :: "kv_data list \<Rightarrow> bool" where
  "strictly_ascending (a # b # kvs) \<longleftrightarrow> kv_key a < kv_key b \<and> strictly_ascending (b # kvs)"
| "strictly_ascending _ \<longleftrightarrow> True"

definition validate_sorted_entries :: "changelog_entry \<Rightarrow> changelog_error + unit" where
  "validate_sorted_entries entry = ensure Generic (strictly_ascending (lm_entries (ce_message entry)))"

definition validate_not_internal_table :: "bytes \<Rightarrow> changelog_error + unit" where
  "validate_not_internal_table table = ensure Generic (\<not> prefix (str ''_'') table)"

definition column_keys_from_entry :: "changelog_entry \<Rightarrow> bytes list" where
  "column_keys_from_entry entry = map kv_key (lm_entries (ce_message entry))"

record parsed_column_entry =
  pe_kv :: kv_data
  pe_key :: bytes
  pe_table :: bytes
  pe_row_id :: i64
  pe_column :: bytes

definition parse_column_entry :: "kv_data \<Rightarrow> changelog_error + parsed_column_entry" where
  "parse_column_entry kv =
    res_bind (map_err (\<lambda>_. KeyMismatch) (parse_column_key_ref (kv_key kv))) (\<lambda>(table, row_id, column).
      Inr \<lparr>pe_kv = kv, pe_key = kv_key kv, pe_table = table, pe_row_id = row_id, pe_column = column\<rparr>)"

definition parse_column_entries :: "changelog_entry \<Rightarrow> changelog_error + parsed_column_entry list" where
  "parse_column_entries entry = map_res parse_column_entry (lm_entries (ce_message entry))"

definition validate_same_table :: "parsed_column_entry list \<Rightarrow> changelog_error + bytes" where
  "validate_same_table es = (case es of
      [] \<Rightarrow> Inl KeyMismatch
    | first # rest \<Rightarrow>
        if \<forall>e \<in> set rest. pe_table e = pe_table first then Inr (pe_table first) else Inl KeyMismatch)"

definition validate_same_table_row :: "parsed_column_entry list \<Rightarrow> changelog_error + bytes \<times> i64" where
  "validate_same_table_row es = (case es of
      [] \<Rightarrow> Inl Generic
    | first # rest \<Rightarrow>
        if \<forall>e \<in> set rest. pe_table e = pe_table first \<and> pe_row_id e = pe_row_id first
        then Inr (pe_table first, pe_row_id first) else Inl Generic)"

definition column_name_set :: "parsed_column_entry list \<Rightarrow> bytes list" where
  "column_name_set es = btree_set (map pe_column es)"

definition unique_row_ids :: "parsed_column_entry list \<Rightarrow> i64 list" where
  "unique_row_ids es = map raw_id (btree_set (map (\<lambda>e. RowId (pe_row_id e)) es))"

section \<open>Keys of inserted rows\<close>

definition rebuild_column_key_with_row_id :: "bytes \<Rightarrow> i64 \<Rightarrow> changelog_error + bytes" where
  "rebuild_column_key_with_row_id entry_key new_row_id =
    (case parse_key entry_key of
       Inr (PColumn table row_id column) \<Rightarrow>
         if row_id \<noteq> 0 then Inl KeyMismatch else Inr (column_key table new_row_id column)
     | _ \<Rightarrow> Inl KeyMismatch)"

definition derive_column_keys_with_row_id :: "kv_data list \<Rightarrow> i64 \<Rightarrow> changelog_error + bytes list" where
  "derive_column_keys_with_row_id kvs new_row_id =
    map_res (\<lambda>kv. rebuild_column_key_with_row_id (kv_key kv) new_row_id) kvs"

text \<open>The loop over the entries; \<open>column_counts\<close> is the number of occurrences of each column so far.\<close>

fun derive_chain_loop ::
  "nat \<Rightarrow> i64 \<Rightarrow> kv_data list \<Rightarrow> (bytes \<times> nat) list \<Rightarrow> bytes list \<Rightarrow> changelog_error + (bytes \<times> nat) list \<times> bytes list"
where
  "derive_chain_loop num_rows counter [] column_counts keys = Inr (column_counts, keys)"
| "derive_chain_loop num_rows counter (kv # kvs) column_counts keys =
    (case parse_key (kv_key kv) of
       Inr (PColumn _ _ column) \<Rightarrow>
         (let occurrence_idx = (case map_of column_counts column of Some n \<Rightarrow> n | None \<Rightarrow> 0) in
          if num_rows \<le> occurrence_idx then Inl Generic
          else res_bind (ok_or Generic (i64_checked_add counter (of_nat occurrence_idx))) (\<lambda>row_id.
            res_bind (rebuild_column_key_with_row_id (kv_key kv) row_id) (\<lambda>key.
              derive_chain_loop num_rows counter kvs (btree_insert column (occurrence_idx + 1) column_counts) (keys @ [key]))))
     | _ \<Rightarrow> Inl KeyMismatch)"

definition derive_column_keys_for_chain :: "kv_data list \<Rightarrow> i64 \<Rightarrow> nat \<Rightarrow> changelog_error + bytes list" where
  "derive_column_keys_for_chain kvs counter col_count =
    (if col_count = 0 then Inl Generic
     else if length kvs mod col_count \<noteq> 0 then Inl Generic
     else let num_rows = length kvs div col_count in
       res_bind (derive_chain_loop num_rows counter kvs [] []) (\<lambda>(column_counts, keys).
         if length column_counts \<noteq> col_count \<or> (\<exists>count \<in> set (map snd column_counts). count \<noteq> num_rows) then Inl Generic
         else Inr keys))"

record partitioned_composite_entry =
  pce_key_history :: "kv_data list"
  pce_retention :: "kv_data list"
  pce_users :: "kv_data list"

definition partition_kv :: "kv_data \<Rightarrow> partitioned_composite_entry \<Rightarrow> changelog_error + partitioned_composite_entry" where
  "partition_kv kv parts =
    (case parse_key (kv_key kv) of
       Inr (PColumn table _ _) \<Rightarrow>
         if table = USERS_TABLE then Inr (parts\<lparr>pce_users := pce_users parts @ [kv]\<rparr>)
         else if table = RETENTION_TABLE then Inr (parts\<lparr>pce_retention := pce_retention parts @ [kv]\<rparr>)
         else if table = KEY_HISTORY_TABLE then Inr (parts\<lparr>pce_key_history := pce_key_history parts @ [kv]\<rparr>)
         else Inl KeyMismatch
     | _ \<Rightarrow> Inl KeyMismatch)"

definition partition_composite_entry :: "changelog_entry \<Rightarrow> changelog_error + partitioned_composite_entry" where
  "partition_composite_entry entry =
    fold_res partition_kv (lm_entries (ce_message entry)) \<lparr>pce_key_history = [], pce_retention = [], pce_users = []\<rparr>"

section \<open>Integer columns and the status of users\<close>

definition is_provisional_status :: "i64 \<Rightarrow> bool" where
  "is_provisional_status status \<longleftrightarrow> status = 0"

definition parse_i64_column_value :: "'n op_libs \<Rightarrow> bytes \<Rightarrow> i64 option" where
  "parse_i64_column_value L val =
    (case bytes_to_value L val of Inr v \<Rightarrow> json_as_i64 (ol_as_i64 L) v | Inl _ \<Rightarrow> None)"

definition decode_i64_column_value :: "'n op_libs \<Rightarrow> bytes \<Rightarrow> changelog_error + i64" where
  "decode_i64_column_value L val = ok_or Generic (parse_i64_column_value L val)"

definition read_user_status :: "'n op_libs \<Rightarrow> u32 \<Rightarrow> i64 option op" where
  "read_user_status L uid =
    op_bind (op_read (ReadKey (column_key USERS_TABLE (ucast uid) (str ''status'')))) (\<lambda>results.
      (case results of
         [] \<Rightarrow> op_lift (Inl Generic)
       | (_, status_value) # _ \<Rightarrow> op_return (parse_i64_column_value L status_value)))"

definition column_of_table :: "bytes \<Rightarrow> bytes \<Rightarrow> kv_data \<Rightarrow> bool" where
  "column_of_table table column_name kv \<longleftrightarrow>
    (case parse_key (kv_key kv) of
       Inr (PColumn key_table _ column) \<Rightarrow> key_table = table \<and> column = column_name
     | _ \<Rightarrow> False)"

definition extract_i64_column_from_entry :: "'n op_libs \<Rightarrow> changelog_entry \<Rightarrow> bytes \<Rightarrow> bytes \<Rightarrow> changelog_error + i64" where
  "extract_i64_column_from_entry L entry table column_name =
    res_bind (ok_or Generic (find (column_of_table table column_name) (lm_entries (ce_message entry)))) (\<lambda>kv.
      decode_i64_column_value L (kv_value kv))"

definition validate_user_access :: "'n op_libs \<Rightarrow> changelog_entry \<Rightarrow> op_type \<Rightarrow> unit op" where
  "validate_user_access L entry op =
    op_bind (read_user_status L (ce_uid entry)) (\<lambda>status.
      let is_provisional = (case status of Some s \<Rightarrow> is_provisional_status s | None \<Rightarrow> False) in
      op_ensure Generic (\<not> (is_provisional \<and> op \<noteq> Op_RefreshKeys)))"

section \<open>Access rules\<close>

record acl_check =
  ac_rule :: access_rule
  ac_resource_name :: bytes
  ac_needed_columns :: "bytes list"

text \<open>The check that the operations build from the rule of a table.\<close>

definition acl_check_of :: "bytes \<Rightarrow> access_rule \<Rightarrow> acl_check" where
  "acl_check_of table rule =
    \<lparr>ac_rule = rule, ac_resource_name = table, ac_needed_columns = collect_resource_columns rule []\<rparr>"

definition resource_insert ::
  "'n op_libs \<Rightarrow> acl_check \<Rightarrow> bytes \<times> bytes \<Rightarrow> (bytes \<times> 'n json) list \<Rightarrow> changelog_error + (bytes \<times> 'n json) list"
where
  "resource_insert L acl = (\<lambda>(col_name, bs) resource_map.
    if col_name \<in> set (ac_needed_columns acl) then
      res_bind (map_err (\<lambda>_. AclDenied) (bytes_to_value L bs)) (\<lambda>val. Inr (btree_insert col_name val resource_map))
    else Inr resource_map)"

definition evaluate_acl :: "'n op_libs \<Rightarrow> acl_check \<Rightarrow> u32 \<Rightarrow> (bytes \<times> bytes) list \<Rightarrow> changelog_error + unit" where
  "evaluate_acl L acl uid column_values =
    res_bind (fold_res (resource_insert L acl) column_values []) (\<lambda>resource_map.
      (case evaluate (ol_as_i64 L) (ac_rule acl) (Some (ucast uid)) (Some (JObject resource_map)) of
         Inr True \<Rightarrow> Inr ()
       | Inr False \<Rightarrow> Inl AclDenied
       | Inl _ \<Rightarrow> Inl AclDenied))"

definition read_column_from_tree ::
  "'n op_libs \<Rightarrow> bytes \<Rightarrow> i64 \<Rightarrow> bytes \<Rightarrow> (bytes \<times> bytes) list \<Rightarrow> (bytes \<times> bytes) list op"
where
  "read_column_from_tree L table row_id col_name vals =
    (if col_name = str ''id'' then
       op_lift (res_bind (map_err (\<lambda>_. Generic) (value_to_bytes L (JNumber (ol_from_i64 L row_id)))) (\<lambda>bs.
         Inr (vals @ [(col_name, bs)])))
     else op_bind (op_read (ReadKey (column_key table row_id col_name))) (\<lambda>results.
       op_return (case results of [] \<Rightarrow> vals | (_, val_bytes) # _ \<Rightarrow> vals @ [(col_name, val_bytes)])))"

definition read_columns_from_tree :: "'n op_libs \<Rightarrow> bytes \<Rightarrow> i64 \<Rightarrow> bytes list \<Rightarrow> (bytes \<times> bytes) list op" where
  "read_columns_from_tree L table row_id needed_columns =
    op_fold (read_column_from_tree L table row_id) needed_columns []"

definition kv_row_id :: "bytes \<Rightarrow> i64 option \<Rightarrow> kv_data \<Rightarrow> i64 option" where
  "kv_row_id table row_id_filter kv =
    (case parse_key (kv_key kv) of
       Inr (PColumn key_table row_id _) \<Rightarrow>
         if key_table = table \<and> (case row_id_filter of None \<Rightarrow> True | Some want \<Rightarrow> want = row_id) then Some row_id else None
     | _ \<Rightarrow> None)"

definition entry_acl_column :: "bytes \<Rightarrow> i64 option \<Rightarrow> bytes list \<Rightarrow> kv_data \<Rightarrow> (bytes \<times> bytes) option" where
  "entry_acl_column table row_id_filter needed_columns kv =
    (case parse_key (kv_key kv) of
       Inr (PColumn key_table row_id column) \<Rightarrow>
         if key_table \<noteq> table \<or> (case row_id_filter of None \<Rightarrow> False | Some want \<Rightarrow> want \<noteq> row_id) then None
         else if column = str ''id'' then None
         else if column \<in> set needed_columns then Some (column, kv_value kv) else None
     | _ \<Rightarrow> None)"

definition extract_acl_columns_from_entry ::
  "'n op_libs \<Rightarrow> changelog_entry \<Rightarrow> bytes \<Rightarrow> i64 option \<Rightarrow> i64 option \<Rightarrow> bytes list \<Rightarrow> (bytes \<times> bytes) list"
where
  "extract_acl_columns_from_entry L entry table row_id_filter id_value needed_columns =
    (let kvs = lm_entries (ce_message entry);
         synthesized = (case id_value of
             Some i \<Rightarrow> Some i
           | None \<Rightarrow> (case List.map_filter (kv_row_id table row_id_filter) kvs of [] \<Rightarrow> None | r # _ \<Rightarrow> Some r));
         id_values = (if str ''id'' \<in> set needed_columns then
             (case synthesized of
                Some row_id \<Rightarrow>
                  (case value_to_bytes L (JNumber (ol_from_i64 L row_id)) of Inr bs \<Rightarrow> [(str ''id'', bs)] | Inl _ \<Rightarrow> [])
              | None \<Rightarrow> [])
           else [])
     in id_values @ List.map_filter (entry_acl_column table row_id_filter needed_columns) kvs)"

definition require_all_acl_columns_present :: "(bytes \<times> bytes) list \<Rightarrow> bytes list \<Rightarrow> changelog_error + unit" where
  "require_all_acl_columns_present extracted needed_columns =
    ensure AclDenied (\<forall>needed \<in> set needed_columns. needed \<in> set (map fst extracted))"

definition fetch_acl_rule :: "'n op_libs \<Rightarrow> bytes \<times> bytes \<Rightarrow> access_rule option op" where
  "fetch_acl_rule L = (\<lambda>(table, op).
    op_bind (op_read (ReadKey (acl_rule_key table op))) (\<lambda>results.
      (case results of
         [] \<Rightarrow> op_return None
       | (_, blob_bytes) # _ \<Rightarrow> op_bind (op_lift (ok_or Generic (ol_decode_rule L blob_bytes))) (\<lambda>rule. op_return (Some rule)))))"

definition read_acl_rule :: "'n op_libs \<Rightarrow> bytes \<Rightarrow> bytes \<Rightarrow> access_rule option op" where
  "read_acl_rule L table op =
    op_cached mc_acl_rules (\<lambda>k v c. c\<lparr>mc_acl_rules := (mc_acl_rules c)(k \<mapsto> v)\<rparr>) (table, op) (fetch_acl_rule L (table, op))"

section \<open>Gating by actions\<close>

definition fetch_only_via_actions :: "'n op_libs \<Rightarrow> bytes \<times> bytes \<Rightarrow> bytes list option op" where
  "fetch_only_via_actions L = (\<lambda>(table, op).
    op_bind (op_read (ReadKey (acl_only_via_actions_key table op))) (\<lambda>results.
      (case results of
         [] \<Rightarrow> op_return None
       | (_, bs) # _ \<Rightarrow> op_bind (op_lift (ok_or Generic (ol_decode_names L bs))) (\<lambda>actions. op_return (Some actions)))))"

definition read_only_via_actions :: "'n op_libs \<Rightarrow> bytes \<Rightarrow> bytes \<Rightarrow> bytes list option op" where
  "read_only_via_actions L table op =
    op_cached mc_only_via_actions (\<lambda>k v c. c\<lparr>mc_only_via_actions := (mc_only_via_actions c)(k \<mapsto> v)\<rparr>) (table, op)
      (fetch_only_via_actions L (table, op))"

definition enforce_only_via_actions :: "'n op_libs \<Rightarrow> bytes \<Rightarrow> bytes \<Rightarrow> op_context \<Rightarrow> unit op" where
  "enforce_only_via_actions L table op_str ctx =
    op_bind (read_only_via_actions L table op_str) (\<lambda>gate.
      (case gate of
         None \<Rightarrow> op_return ()
       | Some allowed \<Rightarrow>
           (case cx_action_name ctx of
              None \<Rightarrow> op_lift (Inl Generic)
            | Some action_name \<Rightarrow> op_ensure Generic (action_name \<in> set allowed))))"

fun table_from_keys :: "bytes list \<Rightarrow> bytes option \<Rightarrow> changelog_error + bytes option" where
  "table_from_keys [] table = Inr table"
| "table_from_keys (key # keys) table =
    (case parse_key key of
       Inr (PColumn t _ _) \<Rightarrow>
         (case table of
            None \<Rightarrow> table_from_keys keys (Some t)
          | Some expected \<Rightarrow> if expected \<noteq> t then Inl KeyMismatch else table_from_keys keys table)
     | _ \<Rightarrow> Inl KeyMismatch)"

definition table_from_column_keys :: "bytes list \<Rightarrow> changelog_error + bytes" where
  "table_from_column_keys column_keys = res_bind (table_from_keys column_keys None) (ok_or KeyMismatch)"

definition is_internal_table :: "bytes \<Rightarrow> bool" where
  "is_internal_table name \<longleftrightarrow>
    name \<in> {USERS_TABLE, RETENTION_TABLE, KEY_HISTORY_TABLE, str ''_access_control'', str ''_lists''}"

definition gated_operation :: "op_type \<Rightarrow> bytes option" where
  "gated_operation op = (case op of
      Op_Insert \<Rightarrow> Some (str ''write'')
    | Op_Update \<Rightarrow> Some (str ''write'')
    | Op_Delete \<Rightarrow> Some (str ''delete'')
    | _ \<Rightarrow> None)"

definition enforce_dispatch_gating :: "'n op_libs \<Rightarrow> changelog_entry \<Rightarrow> op_context \<Rightarrow> unit op" where
  "enforce_dispatch_gating L entry ctx =
    (case gated_operation (lm_op_type (ce_message entry)) of
       None \<Rightarrow> op_return ()
     | Some op_str \<Rightarrow>
         let column_keys = column_keys_from_entry entry in
         if column_keys = [] then op_return ()
         else op_bind (op_lift (table_from_column_keys column_keys)) (\<lambda>table.
           if is_internal_table table then op_return ()
           else enforce_only_via_actions L table op_str ctx))"

definition fetch_action :: "'n op_libs \<Rightarrow> bytes \<times> bytes \<Rightarrow> action option op" where
  "fetch_action L = (\<lambda>(primary_table, name).
    op_bind (op_read (ReadKey (action_storage_key primary_table name))) (\<lambda>results.
      (case results of
         [] \<Rightarrow> op_return None
       | (_, bs) # _ \<Rightarrow>
           op_lift (res_bind (map_err (\<lambda>_. Generic) (decode_action_value bs)) (\<lambda>body_bytes.
             res_bind (ok_or Generic (ol_decode_action_body L body_bytes)) (\<lambda>body. Inr (Some (into_action body name))))))))"

definition read_action :: "'n op_libs \<Rightarrow> bytes \<Rightarrow> bytes \<Rightarrow> action option op" where
  "read_action L primary_table name =
    op_cached mc_actions (\<lambda>k v c. c\<lparr>mc_actions := (mc_actions c)(k \<mapsto> v)\<rparr>) (primary_table, name) (fetch_action L (primary_table, name))"

section \<open>Schema metadata and counters\<close>

definition fetch_schema_columns :: "bytes \<Rightarrow> bytes list op" where
  "fetch_schema_columns table =
    op_bind (op_read (ReadKey (schema_columns_key table))) (\<lambda>results.
      (case results of
         [] \<Rightarrow> op_lift (Inl Generic)
       | (_, col_bytes) # _ \<Rightarrow> op_lift (ok_or Generic (decode_column_names col_bytes))))"

definition read_schema_columns :: "bytes \<Rightarrow> bytes list op" where
  "read_schema_columns table =
    op_cached mc_schema_columns (\<lambda>k v c. c\<lparr>mc_schema_columns := (mc_schema_columns c)(k \<mapsto> v)\<rparr>) table (fetch_schema_columns table)"

definition fetch_schema_indexes :: "bytes \<Rightarrow> bytes list op" where
  "fetch_schema_indexes table =
    op_bind (op_read (ReadKey (schema_indexes_key table))) (\<lambda>results.
      (case results of
         (_, idx_bytes) # _ \<Rightarrow> op_lift (ok_or Generic (decode_column_names idx_bytes))
       | [] \<Rightarrow> op_return []))"

definition read_schema_indexes :: "bytes \<Rightarrow> bytes list op" where
  "read_schema_indexes table =
    op_cached mc_schema_indexes (\<lambda>k v c. c\<lparr>mc_schema_indexes := (mc_schema_indexes c)(k \<mapsto> v)\<rparr>) table (fetch_schema_indexes table)"

definition fetch_schema_list_columns :: "bytes \<Rightarrow> bytes list op" where
  "fetch_schema_list_columns table =
    op_bind (op_read (ReadKey (schema_list_columns_key table))) (\<lambda>results.
      (case results of
         (_, bs) # _ \<Rightarrow> op_lift (ok_or Generic (decode_column_names bs))
       | [] \<Rightarrow> op_return []))"

definition read_schema_list_columns :: "bytes \<Rightarrow> bytes list op" where
  "read_schema_list_columns table =
    op_cached mc_schema_list_columns (\<lambda>k v c. c\<lparr>mc_schema_list_columns := (mc_schema_list_columns c)(k \<mapsto> v)\<rparr>) table
      (fetch_schema_list_columns table)"

definition fetch_auto_increment :: "bytes \<Rightarrow> bool op" where
  "fetch_auto_increment table =
    op_bind (op_read (ReadKey (schema_id_mode_key table))) (\<lambda>results.
      (case results of
         [] \<Rightarrow> op_lift (Inl Generic)
       | (_, bs) # _ \<Rightarrow>
           if bs = [0] then op_return True else if bs = [1] then op_return False else op_lift (Inl Generic)))"

definition read_auto_increment :: "bytes \<Rightarrow> bool op" where
  "read_auto_increment table =
    op_cached mc_auto_increment (\<lambda>k v c. c\<lparr>mc_auto_increment := (mc_auto_increment c)(k \<mapsto> v)\<rparr>) table (fetch_auto_increment table)"

definition read_next_id :: "bytes \<Rightarrow> i64 op" where
  "read_next_id table =
    op_bind (op_read (ReadKey (schema_next_id_key table))) (\<lambda>results.
      (case results of
         [] \<Rightarrow> op_return 1
       | (_, bs) # _ \<Rightarrow> if length bs \<noteq> 8 then op_lift (Inl Generic) else op_return (u64_from_be_bytes bs)))"

definition verify_row_absent :: "bytes \<Rightarrow> i64 \<Rightarrow> unit op" where
  "verify_row_absent table row_id =
    op_bind (op_read (ReadPrefix (row_key table row_id))) (\<lambda>results. op_ensure Generic (results = []))"

definition verify_row_present :: "bytes \<Rightarrow> i64 \<Rightarrow> unit op" where
  "verify_row_present table row_id =
    op_bind (op_read (ReadPrefix (row_key table row_id))) (\<lambda>results. op_ensure Generic (results \<noteq> []))"

definition verify_column_present :: "bytes \<Rightarrow> unit op" where
  "verify_column_present key = op_bind (op_read (ReadKey key)) (\<lambda>results. op_ensure Generic (results \<noteq> []))"

definition verify_column_absent :: "bytes \<Rightarrow> unit op" where
  "verify_column_absent key = op_bind (op_read (ReadKey key)) (\<lambda>results. op_ensure Generic (results = []))"

definition next_id_after :: "i64 \<Rightarrow> changelog_error + i64" where
  "next_id_after row_id = ok_or Generic (i64_checked_add row_id 1)"

definition next_id_put :: "bytes \<Rightarrow> i64 \<Rightarrow> batch_op" where
  "next_id_put table next_id = BPut (schema_next_id_key table) (u64_to_be_bytes next_id)"

definition bump_next_id_after_chain :: "batch_op list \<Rightarrow> bytes \<Rightarrow> i64 \<Rightarrow> i64 \<Rightarrow> changelog_error + batch_op list" where
  "bump_next_id_after_chain batch_ops table counter num_rows =
    (if num_rows = 0 then Inr batch_ops
     else res_bind (ok_or Generic (i64_checked_add counter (num_rows - 1))) (\<lambda>last_row_id.
       res_bind (next_id_after last_row_id) (\<lambda>next_id. Inr (batch_ops @ [next_id_put table next_id]))))"

section \<open>Index entries\<close>

definition build_index_key :: "'n op_libs \<Rightarrow> bytes \<Rightarrow> bytes \<Rightarrow> bytes \<Rightarrow> i64 \<Rightarrow> changelog_error + bytes" where
  "build_index_key L table column value_bytes row_id =
    res_bind (map_err (\<lambda>_. Generic) (bytes_to_value L value_bytes)) (\<lambda>json_val.
    res_bind (map_err (\<lambda>_. Generic) (json_to_tuple_element (ol_as_i64 L) (ol_as_f64 L) json_val False)) (\<lambda>tuple_elem.
      map_err (\<lambda>_. Generic) (index_key table column (Inr tuple_elem) row_id)))"

definition make_index_put :: "'n op_libs \<Rightarrow> bytes \<Rightarrow> bytes \<Rightarrow> bytes \<Rightarrow> i64 \<Rightarrow> changelog_error + batch_op" where
  "make_index_put L table column value_bytes row_id =
    res_bind (build_index_key L table column value_bytes row_id) (\<lambda>idx_key.
    res_bind (ok_or Panic (row_id_to_bytes row_id)) (\<lambda>row_id_bytes. Inr (BPut idx_key row_id_bytes)))"

definition make_index_delete :: "'n op_libs \<Rightarrow> bytes \<Rightarrow> bytes \<Rightarrow> bytes \<Rightarrow> i64 \<Rightarrow> changelog_error + batch_op" where
  "make_index_delete L table column value_bytes row_id =
    res_bind (build_index_key L table column value_bytes row_id) (\<lambda>idx_key. Inr (BDelete idx_key))"

fun keys_target :: "bytes list \<Rightarrow> bytes \<Rightarrow> i64 \<Rightarrow> changelog_error + unit" where
  "keys_target [] table row_id = Inr ()"
| "keys_target (key # keys) table row_id =
    (case parse_key key of
       Inr (PColumn t r _) \<Rightarrow> if t \<noteq> table \<or> r \<noteq> row_id then Inl Generic else keys_target keys table row_id
     | _ \<Rightarrow> Inl Generic)"

definition validate_consistent_column_key_row_id :: "bytes list \<Rightarrow> changelog_error + bytes \<times> i64" where
  "validate_consistent_column_key_row_id column_keys = (case column_keys of
      [] \<Rightarrow> Inl Generic
    | first # rest \<Rightarrow>
        (case parse_key first of
           Inr (PColumn table row_id _) \<Rightarrow> res_bind (keys_target rest table row_id) (\<lambda>_. Inr (table, row_id))
         | _ \<Rightarrow> Inl Generic))"

definition inline_values_by_column :: "kv_data list \<Rightarrow> bytes list \<Rightarrow> (bytes \<times> bytes) list" where
  "inline_values_by_column kvs indexed_columns =
    fold (\<lambda>kv m. case parse_key (kv_key kv) of
        Inr (PColumn _ _ column) \<Rightarrow> if column \<in> set indexed_columns then btree_insert column (kv_value kv) m else m
      | _ \<Rightarrow> m) kvs []"

definition index_put_of ::
  "'n op_libs \<Rightarrow> bytes \<Rightarrow> i64 \<Rightarrow> (bytes \<times> bytes) list \<Rightarrow> bytes list \<Rightarrow> bytes \<Rightarrow> batch_op list \<Rightarrow> changelog_error + batch_op list"
where
  "index_put_of L table row_id values_by_column skip_columns indexed_column batch_ops =
    (if indexed_column \<in> set skip_columns then Inr batch_ops
     else res_bind (ok_or Generic (map_of values_by_column indexed_column)) (\<lambda>value_bytes.
       res_bind (make_index_put L table indexed_column value_bytes row_id) (\<lambda>put. Inr (batch_ops @ [put]))))"

definition append_insert_index_puts_skip ::
  "'n op_libs \<Rightarrow> batch_op list \<Rightarrow> bytes \<Rightarrow> i64 \<Rightarrow> kv_data list \<Rightarrow> bytes list \<Rightarrow> batch_op list op"
where
  "append_insert_index_puts_skip L batch_ops table row_id kvs skip_columns =
    op_bind (read_schema_indexes table) (\<lambda>indexed_columns.
      if indexed_columns = [] then op_return batch_ops
      else op_lift (fold_res (index_put_of L table row_id (inline_values_by_column kvs indexed_columns) skip_columns)
        indexed_columns batch_ops))"

definition append_insert_index_puts ::
  "'n op_libs \<Rightarrow> batch_op list \<Rightarrow> bytes \<Rightarrow> i64 \<Rightarrow> kv_data list \<Rightarrow> batch_op list op"
where
  "append_insert_index_puts L batch_ops table row_id kvs = append_insert_index_puts_skip L batch_ops table row_id kvs []"

text \<open>The elements of \<open>(0..len).step_by(n)\<close>.\<close>

definition step_by :: "nat \<Rightarrow> nat \<Rightarrow> nat list" where
  "step_by len n = map (\<lambda>i. i * n) [0..<(len + n - 1) div n]"

definition append_chunk_index_puts ::
  "'n op_libs \<Rightarrow> bytes \<Rightarrow> bytes list \<Rightarrow> kv_data list \<Rightarrow> nat \<Rightarrow> nat \<Rightarrow> batch_op list \<Rightarrow> batch_op list op"
where
  "append_chunk_index_puts L table column_keys kvs schema_col_count chunk_start batch_ops =
    (let chunk_end = min (chunk_start + schema_col_count) (length column_keys) in
     op_bind (op_lift (validate_consistent_column_key_row_id (slice column_keys chunk_start chunk_end))) (\<lambda>(chunk_table, row_id).
       if chunk_table \<noteq> table then op_lift (Inl Generic)
       else if length kvs < chunk_end then op_lift (Inl Panic)
       else append_insert_index_puts L batch_ops table row_id (slice kvs chunk_start chunk_end)))"

definition append_multi_row_insert_index_puts ::
  "'n op_libs \<Rightarrow> batch_op list \<Rightarrow> bytes \<Rightarrow> bytes list \<Rightarrow> kv_data list \<Rightarrow> batch_op list op"
where
  "append_multi_row_insert_index_puts L batch_ops table column_keys kvs =
    op_bind (read_schema_columns table) (\<lambda>cols.
      let schema_col_count = length cols in
      if schema_col_count = 0 then op_return batch_ops
      else op_fold (append_chunk_index_puts L table column_keys kvs schema_col_count)
        (step_by (length column_keys) schema_col_count) batch_ops)"

definition column_names_from_keys :: "bytes list \<Rightarrow> bytes list" where
  "column_names_from_keys column_keys =
    btree_set (List.map_filter (\<lambda>k. case parse_key k of Inr (PColumn _ _ column) \<Rightarrow> Some column | _ \<Rightarrow> None) column_keys)"

text \<open>The columns that the entries of a delete name, grouped by row.\<close>

type_synonym row_columns = "(row_ident \<times> bytes list) list"

definition group_by_row :: "kv_data list \<Rightarrow> row_columns" where
  "group_by_row kvs = fold (\<lambda>kv m. case parse_key (kv_key kv) of
      Inr (PColumn _ row_id column) \<Rightarrow>
        btree_insert (RowId row_id) (btree_set (column # (case map_of m (RowId row_id) of Some cs \<Rightarrow> cs | None \<Rightarrow> []))) m
    | _ \<Rightarrow> m) kvs []"

definition index_row_id :: "bytes \<Rightarrow> bytes \<Rightarrow> bytes \<times> bytes \<Rightarrow> changelog_error + i64" where
  "index_row_id table column = (\<lambda>(key, val).
    res_bind (map_err (\<lambda>_. Generic) (parse_key key)) (\<lambda>parsed.
    res_bind (case parsed of
        PIndex key_table key_column _ row_id \<Rightarrow> if key_table = table \<and> key_column = column then Inr row_id else Inl Generic
      | _ \<Rightarrow> Inl Generic) (\<lambda>row_id.
    res_bind (ok_or Panic (row_id_to_bytes row_id)) (\<lambda>encoded_row_id.
      if val \<noteq> encoded_row_id then Inl Generic else Inr row_id))))"

text \<open>The callers look up integers, which convert without an error.\<close>

definition read_indexed_row_ids :: "bytes \<Rightarrow> bytes \<Rightarrow> i64 \<Rightarrow> i64 list op" where
  "read_indexed_row_ids table column val =
    op_bind (op_lift (map_err (\<lambda>_. Generic) (index_value_prefix table column (Inr (TInt val))))) (\<lambda>index_prefix.
    op_bind (op_read (ReadPrefix index_prefix)) (\<lambda>results.
    op_bind (op_lift (map_res (index_row_id table column) results)) (\<lambda>row_ids.
      op_return (map raw_id (btree_set (map RowId row_ids))))))"

section \<open>Existence tests of assertions\<close>

fun collect_conjuncts :: "access_rule \<Rightarrow> access_rule list" where
  "collect_conjuncts (RAnd a b) = collect_conjuncts a @ collect_conjuncts b"
| "collect_conjuncts r = [r]"

fun is_row_col :: "rule_value \<Rightarrow> bool" where
  "is_row_col (RColumn Resource _) \<longleftrightarrow> True"
| "is_row_col _ \<longleftrightarrow> False"

fun row_col_name :: "rule_value \<Rightarrow> bytes option" where
  "row_col_name (RColumn Resource name) = Some name"
| "row_col_name _ = None"

fun exists_operand :: "u32 \<Rightarrow> (bytes \<times> i64) list \<Rightarrow> rule_value \<Rightarrow> changelog_error + i64" where
  "exists_operand self_uid self_row (RInt n) = Inr n"
| "exists_operand self_uid self_row AuthUserId = Inr (ucast self_uid)"
| "exists_operand self_uid self_row (RColumn SelfRow name) = ok_or Generic (map_of self_row name)"
| "exists_operand self_uid self_row (RColumn Resource _) = Inl Panic"

fun exists_constraint :: "u32 \<Rightarrow> (bytes \<times> i64) list \<Rightarrow> access_rule \<Rightarrow> changelog_error + bytes \<times> i64" where
  "exists_constraint self_uid self_row (Comparison left Equal right) =
    res_bind (case (is_row_col left, is_row_col right) of
        (True, False) \<Rightarrow> res_bind (ok_or Panic (row_col_name left)) (\<lambda>col. Inr (col, right))
      | (False, True) \<Rightarrow> res_bind (ok_or Panic (row_col_name right)) (\<lambda>col. Inr (col, left))
      | _ \<Rightarrow> Inl Generic) (\<lambda>(col, value_expr).
    res_bind (exists_operand self_uid self_row value_expr) (\<lambda>v. Inr (col, v)))"
| "exists_constraint self_uid self_row _ = Inl Generic"

text \<open>The constraint on the identifier and the others; no result when two constraints on the identifier
  differ.\<close>

fun split_id_constraint :: "(bytes \<times> i64) list \<Rightarrow> i64 option \<Rightarrow> (bytes \<times> i64) list \<Rightarrow> (i64 option \<times> (bytes \<times> i64) list) option" where
  "split_id_constraint [] id_value others = Some (id_value, others)"
| "split_id_constraint ((col, v) # cs) id_value others =
    (if col = str ''id'' then
       (case id_value of
          None \<Rightarrow> split_id_constraint cs (Some v) others
        | Some prev \<Rightarrow> if prev \<noteq> v then None else split_id_constraint cs id_value others)
     else split_id_constraint cs id_value (others @ [(col, v)]))"

fun check_row_columns :: "'n op_libs \<Rightarrow> bytes \<Rightarrow> i64 \<Rightarrow> (bytes \<times> i64) list \<Rightarrow> bool op" where
  "check_row_columns L table row_id [] = op_return True"
| "check_row_columns L table row_id ((col, expected) # cs) =
    op_bind (op_read (ReadKey (column_key table row_id col))) (\<lambda>results.
      (case results of
         [] \<Rightarrow> op_return False
       | (_, value_bytes) # _ \<Rightarrow>
           op_bind (op_lift (decode_i64_column_value L value_bytes)) (\<lambda>actual.
             if actual \<noteq> expected then op_return False else check_row_columns L table row_id cs)))"

definition intersect_indexed :: "bytes \<Rightarrow> bytes \<times> i64 \<Rightarrow> i64 list option \<Rightarrow> i64 list option op" where
  "intersect_indexed table = (\<lambda>(col, v) matching.
    op_bind (read_indexed_row_ids table col v) (\<lambda>row_ids.
      op_return (Some (case matching of None \<Rightarrow> row_ids | Some prev \<Rightarrow> filter (\<lambda>r. r \<in> set row_ids) prev))))"

definition resolve_exists_in_op :: "'n op_libs \<Rightarrow> bytes \<Rightarrow> access_rule \<Rightarrow> u32 \<Rightarrow> (bytes \<times> i64) list \<Rightarrow> bool op" where
  "resolve_exists_in_op L table inner self_uid self_row =
    op_bind (op_lift (map_res (exists_constraint self_uid self_row) (collect_conjuncts inner))) (\<lambda>constraints.
      if constraints = [] then op_lift (Inl Generic)
      else (case split_id_constraint constraints None [] of
          None \<Rightarrow> op_return False
        | Some (Some row_id, other_constraints) \<Rightarrow>
            if row_id = 0 then op_return False
            else if other_constraints = [] then
              op_bind (op_read (ReadPrefix (row_key table row_id))) (\<lambda>results. op_return (results \<noteq> []))
            else check_row_columns L table row_id other_constraints
        | Some (None, other_constraints) \<Rightarrow>
            op_bind (op_fold (intersect_indexed table) other_constraints None) (\<lambda>matching.
              op_return (case matching of Some s \<Rightarrow> s \<noteq> [] | None \<Rightarrow> False))))"

section \<open>Key history\<close>

definition KEY_HISTORY_REQUIRED_COLUMNS :: "bytes list" where
  "KEY_HISTORY_REQUIRED_COLUMNS =
    [str ''old_auth_key'', str ''uid'', str ''valid_from_change_id'', str ''valid_to_change_id'']"

definition match_kh_entry :: "bytes \<times> kv_data \<Rightarrow> i64 option \<Rightarrow> changelog_error + i64 option" where
  "match_kh_entry = (\<lambda>(col_key, kv) kh_row_id.
    (case parse_key col_key of
       Inr (PColumn table row_id column) \<Rightarrow>
         if (case kh_row_id of None \<Rightarrow> False | Some prev \<Rightarrow> prev \<noteq> row_id) then Inl Generic
         else (case parse_key (kv_key kv) of
             Inr (PColumn entry_table _ entry_column) \<Rightarrow>
               if (table, column) \<noteq> (entry_table, entry_column) then Inl KeyMismatch else Inr (Some row_id)
           | _ \<Rightarrow> Inl KeyMismatch)
     | _ \<Rightarrow> Inl KeyMismatch))"

fun json_as_u64 :: "('n \<Rightarrow> u64 option) \<Rightarrow> 'n json \<Rightarrow> u64 option" where
  "json_as_u64 as_u64 (JNumber n) = as_u64 n"
| "json_as_u64 as_u64 _ = None"

definition kh_uid_value :: "'n op_libs \<Rightarrow> bytes \<Rightarrow> u64 option" where
  "kh_uid_value L val = (case bytes_to_value L val of
      Inl _ \<Rightarrow> None
    | Inr v \<Rightarrow> (case json_as_u64 (ol_as_u64 L) v of Some u \<Rightarrow> Some u | None \<Rightarrow> json_as_i64 (ol_as_i64 L) v))"

definition check_kh_uid :: "'n op_libs \<Rightarrow> u32 \<Rightarrow> bytes \<times> kv_data \<Rightarrow> unit \<Rightarrow> changelog_error + unit" where
  "check_kh_uid L expected_uid = (\<lambda>(col_key, kv) _.
    (case parse_key col_key of
       Inr (PColumn _ _ column) \<Rightarrow>
         if column = str ''uid'' then
           res_bind (ok_or Generic (kh_uid_value L (kv_value kv))) (\<lambda>uid_int.
             if uid_int \<noteq> ucast expected_uid then Inl Generic else Inr ())
         else Inr ()
     | _ \<Rightarrow> Inr ()))"

definition validate_key_history_entries :: "'n op_libs \<Rightarrow> bytes list \<Rightarrow> kv_data list \<Rightarrow> u32 \<Rightarrow> changelog_error + i64" where
  "validate_key_history_entries L kh_column_keys kh_entries expected_uid =
    res_bind (fold_res match_kh_entry (zip kh_column_keys kh_entries) None) (\<lambda>kh_row_id.
    res_bind (ok_or Generic kh_row_id) (\<lambda>row_id.
    res_bind (table_from_column_keys kh_column_keys) (\<lambda>kh_table.
      if kh_table \<noteq> KEY_HISTORY_TABLE then Inl Generic
      else let kh_actual = column_names_from_keys kh_column_keys in
        if \<not> (\<forall>required \<in> set KEY_HISTORY_REQUIRED_COLUMNS. required \<in> set kh_actual) then Inl Generic
        else res_bind (fold_res (check_kh_uid L expected_uid) (zip kh_column_keys kh_entries) ()) (\<lambda>_. Inr row_id))))"

definition has_column :: "bytes \<Rightarrow> kv_data \<Rightarrow> bool" where
  "has_column column_name kv \<longleftrightarrow>
    (case parse_key (kv_key kv) of Inr (PColumn _ _ column) \<Rightarrow> column = column_name | _ \<Rightarrow> False)"

definition extract_i64_from_kh_entries :: "'n op_libs \<Rightarrow> kv_data list \<Rightarrow> bytes \<Rightarrow> changelog_error + i64" where
  "extract_i64_from_kh_entries L kh_entries column_name =
    (case find (has_column column_name) kh_entries of
       Some kv \<Rightarrow> decode_i64_column_value L (kv_value kv)
     | None \<Rightarrow> Inl Generic)"

definition extract_value_from_kh_entries :: "kv_data list \<Rightarrow> bytes \<Rightarrow> changelog_error + bytes" where
  "extract_value_from_kh_entries kh_entries column_name =
    (case find (has_column column_name) kh_entries of Some kv \<Rightarrow> Inr (kv_value kv) | None \<Rightarrow> Inl Generic)"

definition read_kh_range :: "'n op_libs \<Rightarrow> i64 \<Rightarrow> (i64 \<times> i64) op" where
  "read_kh_range L row_id =
    op_bind (op_read (ReadKey (column_key KEY_HISTORY_TABLE row_id (str ''valid_from_change_id'')))) (\<lambda>valid_from_read.
    op_bind (op_read (ReadKey (column_key KEY_HISTORY_TABLE row_id (str ''valid_to_change_id'')))) (\<lambda>valid_to_read.
      (case (valid_from_read, valid_to_read) of
         ((_, valid_from_bytes) # _, (_, valid_to_bytes) # _) \<Rightarrow>
           op_lift (res_bind (decode_i64_column_value L valid_from_bytes) (\<lambda>valid_from.
             res_bind (decode_i64_column_value L valid_to_bytes) (\<lambda>valid_to. Inr (valid_from, valid_to))))
       | _ \<Rightarrow> op_lift (Inl Generic))))"

definition read_kh_ranges_indexed :: "'n op_libs \<Rightarrow> u32 \<Rightarrow> (i64 \<times> i64) list op" where
  "read_kh_ranges_indexed L uid =
    op_bind (read_indexed_row_ids KEY_HISTORY_TABLE (str ''uid'') (ucast uid)) (\<lambda>row_ids. op_map (read_kh_range L) row_ids)"

section \<open>A small instance of the libraries\<close>

text \<open>Integers are stored as their eight bytes; there are no other values, rules or actions.\<close>

definition plain_libs :: "i64 op_libs" where
  "plain_libs = \<lparr>ol_decode_stored = (\<lambda>bs. if length bs = 8 then Some (SI64 (u64_from_be_bytes bs)) else None),
    ol_encode_stored = (\<lambda>s. case s of SI64 i \<Rightarrow> Some (u64_to_be_bytes i) | _ \<Rightarrow> None),
    ol_as_i64 = Some, ol_as_u64 = Some, ol_as_f64 = (\<lambda>_. None),
    ol_from_i64 = (\<lambda>i. i), ol_from_u64 = (\<lambda>u. u), ol_from_f64 = (\<lambda>_. None),
    ol_decode_rule = (\<lambda>_. None), ol_decode_names = (\<lambda>_. None), ol_decode_action_body = (\<lambda>_. None)\<rparr>"

end
