(* ===== verification/Ops_Table.thy ===== *)
theory Ops_Table
  imports Ops_Common
begin

text \<open>
  The operations on rows of application tables: \<open>insert_op.rs\<close>, \<open>update_op.rs\<close> and \<open>delete_op.rs\<close> of
  \<open>ffproof/changelog_core/src/ops\<close>.  Each is one program in \<open>op\<close> that performs the checks of
  \<open>extract_and_validate\<close> in the order of the code and returns the writes.
\<close>

section \<open>Insert\<close>

definition inline_values_by_parsed_column :: "parsed_column_entry list \<Rightarrow> bytes list \<Rightarrow> (bytes \<times> bytes) list" where
  "inline_values_by_parsed_column es indexed_columns =
    fold (\<lambda>e m. if pe_column e \<notin> set indexed_columns then m else btree_insert (pe_column e) (kv_value (pe_kv e)) m) es []"

definition append_insert_index_puts_parsed_skip ::
  "'n op_libs \<Rightarrow> batch_op list \<Rightarrow> bytes \<times> i64 \<Rightarrow> parsed_column_entry list \<Rightarrow> bytes list \<Rightarrow> batch_op list op"
where
  "append_insert_index_puts_parsed_skip L batch_ops = (\<lambda>(table, row_id) es skip_columns.
    op_bind (read_schema_indexes table) (\<lambda>indexed_columns.
      if indexed_columns = [] then op_return batch_ops
      else op_lift (fold_res (index_put_of L table row_id (inline_values_by_parsed_column es indexed_columns) skip_columns)
        indexed_columns batch_ops)))"

definition insert_row_id :: "bytes \<Rightarrow> i64 \<Rightarrow> bool \<Rightarrow> i64 op" where
  "insert_row_id table entry_row_id auto_increment =
    op_bind (op_lift (map_err (\<lambda>_. KeyMismatch) (classify_insert_id (Some entry_row_id) auto_increment))) (\<lambda>insert_id.
      (case insert_id of AutoAssign \<Rightarrow> read_next_id table | Explicit signed_id \<Rightarrow> op_return signed_id))"

definition check_list_placeholders :: "'n op_libs \<Rightarrow> bytes list \<Rightarrow> parsed_column_entry list \<Rightarrow> changelog_error + unit" where
  "check_list_placeholders L list_cols es =
    (if list_cols = [] then Inr ()
     else res_bind (map_err (\<lambda>_. Panic) (value_to_bytes L (JNumber (ol_from_i64 L 0)))) (\<lambda>zero_stored.
       ensure Generic (\<forall>e \<in> set es. pe_column e \<in> set list_cols \<longrightarrow> kv_value (pe_kv e) = zero_stored)))"

definition read_list_number_base :: "bytes list \<Rightarrow> i64 op" where
  "read_list_number_base list_cols =
    (if list_cols \<noteq> [] then
       op_bind (op_read (ReadKey schema_next_list_number_key)) (\<lambda>results.
         (case results of
            (_, bs) # _ \<Rightarrow> if length bs \<noteq> 8 then op_lift (Inl Generic) else op_return (u64_from_be_bytes bs)
          | [] \<Rightarrow> op_return 1))
     else op_return 0)"

definition insert_column_put ::
  "'n op_libs \<Rightarrow> bytes list \<Rightarrow> i64 \<Rightarrow> parsed_column_entry \<times> bytes \<Rightarrow> batch_op list \<times> (bytes \<times> i64) list \<Rightarrow>
    changelog_error + batch_op list \<times> (bytes \<times> i64) list"
where
  "insert_column_put L list_cols list_number_base = (\<lambda>(e, col_key) (batch_ops, allocated_lists).
    if pe_column e \<in> set list_cols then
      res_bind (ok_or Generic (i64_checked_add list_number_base (of_nat (length allocated_lists)))) (\<lambda>list_number.
      res_bind (map_err (\<lambda>_. Generic) (value_to_bytes L (JNumber (ol_from_i64 L list_number)))) (\<lambda>stored_bytes.
        Inr (batch_ops @ [BPut col_key stored_bytes], allocated_lists @ [(pe_column e, list_number)])))
    else Inr (batch_ops @ [to_batch_op (pe_kv e) col_key], allocated_lists))"

definition list_metadata_puts ::
  "bytes \<Rightarrow> i64 \<Rightarrow> i64 \<Rightarrow> (bytes \<times> i64) list \<Rightarrow> batch_op list \<Rightarrow> changelog_error + batch_op list"
where
  "list_metadata_puts table row_id list_number_base allocated_lists batch_ops =
    (if allocated_lists = [] then Inr batch_ops
     else res_bind (ok_or Generic (i64_checked_add list_number_base (of_nat (length allocated_lists)))) (\<lambda>new_counter.
       Inr (batch_ops @ [BPut schema_next_list_number_key (u64_to_be_bytes new_counter)] @
         concat (map (\<lambda>(col_name, ln). [BPut (list_head_key ln) (u64_to_be_bytes 0), BPut (list_tail_key ln) (u64_to_be_bytes 0),
           BPut (list_parent_key ln) (encode_list_parent table row_id col_name)]) allocated_lists))))"

definition insert_acl :: "'n op_libs \<Rightarrow> changelog_entry \<Rightarrow> bytes \<Rightarrow> i64 \<Rightarrow> unit op" where
  "insert_acl L entry table row_id =
    op_bind (read_acl_rule L table (str ''write'')) (\<lambda>rule.
      (case map_option (acl_check_of table) rule of
         None \<Rightarrow> op_return ()
       | Some acl \<Rightarrow>
           let col_values = extract_acl_columns_from_entry L entry table None (Some row_id) (ac_needed_columns acl) in
           op_lift (res_bind (require_all_acl_columns_present col_values (ac_needed_columns acl)) (\<lambda>_.
             evaluate_acl L acl (ce_uid entry) col_values))))"

definition insert_op :: "'n op_libs \<Rightarrow> changelog_entry \<Rightarrow> op_context \<Rightarrow> op_verify_result op" where
  "insert_op L entry ctx =
    op_bind (op_lift (validate_sorted_entries entry)) (\<lambda>_.
    op_bind (op_lift (parse_column_entries entry)) (\<lambda>parsed_entries.
    op_bind (op_lift (validate_same_table_row parsed_entries)) (\<lambda>(table, entry_row_id).
    op_bind (op_lift (validate_not_internal_table table)) (\<lambda>_.
    op_bind (read_auto_increment table) (\<lambda>auto_increment.
    op_bind (insert_row_id table entry_row_id auto_increment) (\<lambda>row_id.
    let column_keys = (if auto_increment then map (\<lambda>e. column_key table row_id (pe_column e)) parsed_entries
                       else map pe_key parsed_entries) in
    op_bind (op_lift (validate_max_entries entry)) (\<lambda>_.
    op_bind (validate_user_access L entry Op_Insert) (\<lambda>_.
    op_bind (read_schema_columns table) (\<lambda>expected.
    let actual = column_name_set parsed_entries in
    op_bind (op_ensure Generic (length actual = length expected \<and> (\<forall>col \<in> set actual. col \<in> set expected))) (\<lambda>_.
    op_bind (read_schema_list_columns table) (\<lambda>list_cols.
    op_bind (op_lift (check_list_placeholders L list_cols parsed_entries)) (\<lambda>_.
    op_bind (read_list_number_base list_cols) (\<lambda>list_number_base.
    op_bind (insert_acl L entry table row_id) (\<lambda>_.
    op_bind (op_lift (fold_res (insert_column_put L list_cols list_number_base) (zip parsed_entries column_keys) ([], [])))
      (\<lambda>(batch_ops, allocated_lists).
    op_bind (append_insert_index_puts_parsed_skip L batch_ops (table, row_id) parsed_entries list_cols) (\<lambda>batch_ops.
    op_bind (if auto_increment then
        op_lift (res_bind (next_id_after row_id) (\<lambda>next_id. Inr (batch_ops @ [next_id_put table next_id])))
      else op_bind (op_lift (ok_or Generic (case column_keys of [] \<Rightarrow> None | rep_key # _ \<Rightarrow> Some rep_key))) (\<lambda>rep_key.
        op_bind (verify_column_absent rep_key) (\<lambda>_. op_return batch_ops))) (\<lambda>batch_ops.
    op_bind (op_lift (list_metadata_puts table row_id list_number_base allocated_lists batch_ops)) (\<lambda>batch_ops.
      op_return \<lparr>write_steps = [TWrite batch_ops]\<rparr>))))))))))))))))))"

section \<open>Update\<close>

text \<open>The reads of old values, as a map from row and column to the key that is read.\<close>

type_synonym old_reads = "((row_ident \<times> bytes) \<times> bytes) list"

definition plan_read :: "row_ident \<times> bytes \<Rightarrow> bytes \<Rightarrow> old_reads \<Rightarrow> old_reads" where
  "plan_read k key m = (if k \<in> set (map fst m) then m else btree_insert k key m)"

definition plan_acl_reads :: "bytes \<Rightarrow> acl_check option \<Rightarrow> i64 list \<Rightarrow> old_reads \<Rightarrow> old_reads" where
  "plan_acl_reads table acl update_row_ids m = (case acl of
      None \<Rightarrow> m
    | Some a \<Rightarrow> fold (\<lambda>row_id. fold (\<lambda>column m.
        if column = str ''id'' then m else plan_read (RowId row_id, column) (column_key table row_id column) m)
        (ac_needed_columns a)) update_row_ids m)"

definition plan_index_reads :: "bytes \<Rightarrow> bytes list \<Rightarrow> (row_ident \<times> bytes) list \<Rightarrow> old_reads \<Rightarrow> old_reads" where
  "plan_index_reads table indexed_columns updated m =
    fold (\<lambda>(row_id, column) m.
      if column \<in> set indexed_columns then plan_read (row_id, column) (column_key table (raw_id row_id) column) m else m) updated m"

definition plan_representatives :: "(row_ident \<times> bytes \<times> bytes) list \<Rightarrow> i64 list \<Rightarrow> old_reads \<Rightarrow> changelog_error + old_reads" where
  "plan_representatives row_representatives update_row_ids m =
    fold_res (\<lambda>row_id m.
      if \<exists>k \<in> set (map fst m). fst k = RowId row_id then Inr m
      else res_bind (ok_or Generic (map_of row_representatives (RowId row_id))) (\<lambda>(column, key).
        Inr (btree_insert (RowId row_id, column) key m))) update_row_ids m"

type_synonym old_vals = "((row_ident \<times> bytes) \<times> bytes option) list"

definition read_old_value :: "(row_ident \<times> bytes) \<times> bytes \<Rightarrow> old_vals \<Rightarrow> old_vals op" where
  "read_old_value = (\<lambda>(k, key) old_values.
    op_bind (op_read (ReadKey key)) (\<lambda>results.
      op_return (btree_insert k (case results of [] \<Rightarrow> None | (_, bs) # _ \<Rightarrow> Some bs) old_values)))"

definition existing_value ::
  "'n op_libs \<Rightarrow> old_vals \<Rightarrow> i64 \<Rightarrow> bytes \<Rightarrow> (bytes \<times> bytes) list \<Rightarrow> changelog_error + (bytes \<times> bytes) list"
where
  "existing_value L old_values row_id column existing_values =
    (if column = str ''id'' then
       res_bind (map_err (\<lambda>_. Generic) (value_to_bytes L (JNumber (ol_from_i64 L row_id)))) (\<lambda>bs.
         Inr (existing_values @ [(column, bs)]))
     else (case map_of old_values (RowId row_id, column) of
         Some (Some bs) \<Rightarrow> Inr (existing_values @ [(column, bs)])
       | _ \<Rightarrow> Inr existing_values))"

definition check_existing_row :: "'n op_libs \<Rightarrow> acl_check \<Rightarrow> changelog_entry \<Rightarrow> old_vals \<Rightarrow> i64 \<Rightarrow> unit \<Rightarrow> changelog_error + unit" where
  "check_existing_row L acl entry old_values row_id _ =
    res_bind (fold_res (existing_value L old_values row_id) (ac_needed_columns acl) []) (\<lambda>existing_values.
      evaluate_acl L acl (ce_uid entry) existing_values)"

definition check_new_row ::
  "'n op_libs \<Rightarrow> acl_check \<Rightarrow> changelog_entry \<Rightarrow> bytes \<Rightarrow> parsed_column_entry list \<Rightarrow> i64 \<Rightarrow> unit \<Rightarrow> changelog_error + unit"
where
  "check_new_row L acl entry table parsed_entries row_id _ =
    (if \<exists>e \<in> set parsed_entries. pe_row_id e = row_id \<and> pe_column e \<noteq> str ''id'' \<and> pe_column e \<in> set (ac_needed_columns acl) then
       evaluate_acl L acl (ce_uid entry)
         (extract_acl_columns_from_entry L entry table (Some row_id) (Some row_id) (ac_needed_columns acl))
     else Inr ())"

definition update_acl ::
  "'n op_libs \<Rightarrow> acl_check option \<Rightarrow> changelog_entry \<Rightarrow> bytes \<Rightarrow> parsed_column_entry list \<Rightarrow> old_vals \<Rightarrow> i64 list \<Rightarrow> changelog_error + unit"
where
  "update_acl L acl entry table parsed_entries old_values update_row_ids = (case acl of
      None \<Rightarrow> Inr ()
    | Some a \<Rightarrow>
        res_bind (fold_res (check_existing_row L a entry old_values) update_row_ids ()) (\<lambda>_.
          fold_res (check_new_row L a entry table parsed_entries) update_row_ids ()))"

definition update_index_ops ::
  "'n op_libs \<Rightarrow> bytes \<Rightarrow> bytes list \<Rightarrow> old_vals \<Rightarrow> (row_ident \<times> bytes) \<times> kv_data \<Rightarrow> batch_op list \<Rightarrow> changelog_error + batch_op list"
where
  "update_index_ops L table indexed_columns old_values = (\<lambda>((row_id, column), kv) batch_ops.
    if column \<notin> set indexed_columns then Inr batch_ops
    else res_bind (case map_of old_values (row_id, column) of
        Some (Some old_val) \<Rightarrow>
          res_bind (make_index_delete L table column old_val (raw_id row_id)) (\<lambda>del. Inr (batch_ops @ [del]))
      | _ \<Rightarrow> Inr batch_ops) (\<lambda>batch_ops.
      res_bind (make_index_put L table column (kv_value kv) (raw_id row_id)) (\<lambda>put. Inr (batch_ops @ [put]))))"

definition first_representative :: "parsed_column_entry \<Rightarrow> (row_ident \<times> bytes \<times> bytes) list \<Rightarrow> (row_ident \<times> bytes \<times> bytes) list" where
  "first_representative e m =
    (if RowId (pe_row_id e) \<in> set (map fst m) then m else btree_insert (RowId (pe_row_id e)) (pe_column e, pe_key e) m)"

definition update_op :: "'n op_libs \<Rightarrow> changelog_entry \<Rightarrow> op_context \<Rightarrow> op_verify_result op" where
  "update_op L entry ctx =
    op_bind (op_lift (validate_max_entries entry)) (\<lambda>_.
    op_bind (op_lift (validate_sorted_entries entry)) (\<lambda>_.
    op_bind (validate_user_access L entry Op_Update) (\<lambda>_.
    op_bind (op_lift (parse_column_entries entry)) (\<lambda>parsed_entries.
    op_bind (op_lift (validate_same_table parsed_entries)) (\<lambda>table.
    op_bind (op_lift (validate_not_internal_table table)) (\<lambda>_.
    op_bind (read_schema_columns table) (\<lambda>valid.
    let actual = column_name_set parsed_entries in
    op_bind (op_ensure Generic (\<forall>col \<in> set actual. col \<in> set valid)) (\<lambda>_.
    op_bind (read_schema_list_columns table) (\<lambda>list_cols.
    op_bind (op_ensure Generic (\<forall>col \<in> set actual. col \<notin> set list_cols)) (\<lambda>_.
    let update_row_ids = unique_row_ids parsed_entries;
        row_representatives = fold first_representative parsed_entries [];
        updated_by_row_col = fold (\<lambda>e. btree_insert (RowId (pe_row_id e), pe_column e) (pe_kv e)) parsed_entries [] in
    op_bind (read_acl_rule L table (str ''write'')) (\<lambda>rule.
    let acl = map_option (acl_check_of table) rule in
    op_bind (read_schema_indexes table) (\<lambda>indexed_columns.
    op_bind (op_lift (plan_representatives row_representatives update_row_ids
        (plan_index_reads table indexed_columns (map fst updated_by_row_col) (plan_acl_reads table acl update_row_ids [])))) (\<lambda>old_value_reads.
    op_bind (op_fold read_old_value old_value_reads []) (\<lambda>old_values.
    op_bind (op_ensure Generic (\<forall>row_id \<in> set update_row_ids. \<exists>x \<in> set old_values. fst (fst x) = RowId row_id \<and> snd x \<noteq> None)) (\<lambda>_.
    op_bind (op_lift (update_acl L acl entry table parsed_entries old_values update_row_ids)) (\<lambda>_.
    op_bind (op_lift (fold_res (update_index_ops L table indexed_columns old_values) updated_by_row_col
        (map (\<lambda>e. to_batch_op (pe_kv e) (pe_key e)) parsed_entries))) (\<lambda>batch_ops.
      op_return \<lparr>write_steps = [TWrite batch_ops]\<rparr>)))))))))))))))))"

section \<open>Delete\<close>

definition delete_index_entry :: "'n op_libs \<Rightarrow> bytes \<Rightarrow> i64 \<Rightarrow> bytes \<Rightarrow> batch_op list \<Rightarrow> batch_op list op" where
  "delete_index_entry L table row_id idx_col delete_ops =
    op_bind (op_read (ReadKey (column_key table row_id idx_col))) (\<lambda>results.
      (case results of
         [] \<Rightarrow> op_return delete_ops
       | (_, val) # _ \<Rightarrow>
           op_lift (res_bind (make_index_delete L table idx_col val row_id) (\<lambda>del. Inr (delete_ops @ [del])))))"

definition delete_acl_row :: "'n op_libs \<Rightarrow> acl_check \<Rightarrow> changelog_entry \<Rightarrow> bytes \<Rightarrow> i64 \<Rightarrow> unit \<Rightarrow> unit op" where
  "delete_acl_row L acl entry table row_id _ =
    op_bind (read_columns_from_tree L table row_id (ac_needed_columns acl)) (\<lambda>existing_values.
      op_lift (evaluate_acl L acl (ce_uid entry) existing_values))"

definition delete_op :: "'n op_libs \<Rightarrow> changelog_entry \<Rightarrow> op_context \<Rightarrow> op_verify_result op" where
  "delete_op L entry ctx =
    (let column_keys = column_keys_from_entry entry in
    op_bind (op_lift (validate_max_entries entry)) (\<lambda>_.
    op_bind (op_lift (validate_sorted_entries entry)) (\<lambda>_.
    op_bind (validate_user_access L entry Op_Delete) (\<lambda>_.
    op_bind (op_lift (table_from_column_keys column_keys)) (\<lambda>table.
    op_bind (op_lift (validate_not_internal_table table)) (\<lambda>_.
    op_bind (read_schema_columns table) (\<lambda>expected_columns.
    let columns_by_row = group_by_row (lm_entries (ce_message entry)) in
    op_bind (op_ensure Generic (\<forall>x \<in> set columns_by_row. snd x = expected_columns)) (\<lambda>_.
    op_bind (read_acl_rule L table (str ''delete'')) (\<lambda>rule.
    op_bind (case map_option (acl_check_of table) rule of
        None \<Rightarrow> op_return ()
      | Some acl \<Rightarrow> op_fold (delete_acl_row L acl entry table) (map (\<lambda>x. raw_id (fst x)) columns_by_row) ()) (\<lambda>_.
    op_bind (read_schema_indexes table) (\<lambda>indexed_columns.
    op_bind (op_fold (\<lambda>row_id. op_fold (delete_index_entry L table row_id) indexed_columns)
        (map (\<lambda>x. raw_id (fst x)) columns_by_row) (map BDelete column_keys)) (\<lambda>delete_ops.
      op_return \<lparr>write_steps = [TWrite delete_ops]\<rparr>))))))))))))"

end
