(* ===== verification/Ops_Lists.thy ===== *)
theory Ops_Lists
  imports Ops_Common
begin

text \<open>
  The operations on list columns: \<open>ffproof/changelog_core/src/ops/list_op.rs\<close>.

  A list is stored as rows of the table \<open>_lists\<close> that are linked through the columns \<open>prev_id\<close> and
  \<open>next_id\<close>; keys outside of the table hold the identifiers of the first and the last row and the row that
  owns the list.
\<close>

section \<open>Helpers\<close>

definition read_i64_key :: "bytes \<Rightarrow> i64 op" where
  "read_i64_key key =
    op_bind (op_read (ReadKey key)) (\<lambda>results.
      (case results of
         [] \<Rightarrow> op_lift (Inl Generic)
       | (_, bs) # _ \<Rightarrow> if length bs \<noteq> 8 then op_lift (Inl Generic) else op_return (u64_from_be_bytes bs)))"

definition read_i64_column :: "'n op_libs \<Rightarrow> i64 \<Rightarrow> bytes \<Rightarrow> i64 op" where
  "read_i64_column L row_id column =
    op_bind (op_read (ReadKey (column_key LISTS_TABLE row_id column))) (\<lambda>results.
      (case results of
         [] \<Rightarrow> op_lift (Inl Generic)
       | (_, bs) # _ \<Rightarrow> op_lift (decode_i64_column_value L bs)))"

definition i64_put :: "bytes \<Rightarrow> i64 \<Rightarrow> batch_op" where
  "i64_put key val = BPut key (u64_to_be_bytes val)"

definition stored_i64_put :: "'n op_libs \<Rightarrow> bytes \<Rightarrow> i64 \<Rightarrow> changelog_error + batch_op" where
  "stored_i64_put L key val =
    res_bind (map_err (\<lambda>_. Generic) (value_to_bytes L (JNumber (ol_from_i64 L val)))) (\<lambda>bs. Inr (BPut key bs))"

definition read_list_number :: "'n op_libs \<Rightarrow> i64 \<Rightarrow> i64 op" where
  "read_list_number L target_id =
    op_bind (read_i64_column L target_id (str ''list_number'')) (\<lambda>ln.
      if ln \<le>s 0 then op_lift (Inl Generic) else op_return ln)"

definition resolve_list_parent :: "i64 \<Rightarrow> (bytes \<times> i64 \<times> bytes) op" where
  "resolve_list_parent list_number =
    op_bind (op_read (ReadKey (list_parent_key list_number))) (\<lambda>results.
    op_bind (op_lift (case results of [] \<Rightarrow> Inl Generic | (_, bs) # _ \<Rightarrow> map_err (\<lambda>_. Generic) (decode_list_parent bs)))
      (\<lambda>(parent_table, parent_row_id, parent_column).
    op_bind (op_lift (validate_not_internal_table parent_table)) (\<lambda>_.
    op_bind (op_read (ReadKey (column_key parent_table parent_row_id parent_column))) (\<lambda>parent_column_read.
      if parent_column_read = [] then op_lift (Inl Generic)
      else op_return (parent_table, parent_row_id, parent_column)))))"

definition list_acl_check :: "'n op_libs \<Rightarrow> bytes \<Rightarrow> i64 \<Rightarrow> u32 \<Rightarrow> bytes \<Rightarrow> unit op" where
  "list_acl_check L parent_table parent_row_id uid access_op =
    op_bind (read_acl_rule L parent_table access_op) (\<lambda>rule.
      (case rule of
         None \<Rightarrow> op_return ()
       | Some r \<Rightarrow>
           let acl = acl_check_of parent_table r in
           op_bind (read_columns_from_tree L parent_table parent_row_id (ac_needed_columns acl)) (\<lambda>col_values.
             op_lift (evaluate_acl L acl uid col_values))))"

definition new_row_puts :: "'n op_libs \<Rightarrow> i64 \<Rightarrow> i64 \<Rightarrow> i64 \<Rightarrow> i64 \<Rightarrow> bytes \<Rightarrow> changelog_error + batch_op list" where
  "new_row_puts L new_id list_number prev_id next_id val =
    res_bind (stored_i64_put L (column_key LISTS_TABLE new_id (str ''list_number'')) list_number) (\<lambda>p1.
    res_bind (stored_i64_put L (column_key LISTS_TABLE new_id (str ''next_id'')) next_id) (\<lambda>p2.
    res_bind (stored_i64_put L (column_key LISTS_TABLE new_id (str ''prev_id'')) prev_id) (\<lambda>p3.
      Inr [p1, p2, p3, BPut (column_key LISTS_TABLE new_id (str ''value'')) val])))"

definition list_number_index_put :: "'n op_libs \<Rightarrow> i64 \<Rightarrow> i64 \<Rightarrow> batch_op list op" where
  "list_number_index_put L list_number row_id =
    op_bind (read_schema_indexes LISTS_TABLE) (\<lambda>indexed.
      if str ''list_number'' \<notin> set indexed then op_lift (Inl Generic)
      else op_lift (res_bind (map_err (\<lambda>_. Generic) (value_to_bytes L (JNumber (ol_from_i64 L list_number)))) (\<lambda>ln_bytes.
        res_bind (make_index_put L LISTS_TABLE (str ''list_number'') ln_bytes row_id) (\<lambda>put. Inr [put]))))"

definition placeholder_value :: "changelog_entry \<Rightarrow> changelog_error + bytes" where
  "placeholder_value entry =
    ok_or Generic (map_option kv_value
      (find (\<lambda>kv. kv_key kv = column_key_placeholder LISTS_TABLE (str ''value'')) (lm_entries (ce_message entry))))"

definition placeholder_column :: "bytes list \<Rightarrow> kv_data \<Rightarrow> bytes list \<Rightarrow> changelog_error + bytes list" where
  "placeholder_column expected kv seen =
    (case parse_key (kv_key kv) of
       Inr (PColumn table row_id column) \<Rightarrow>
         if row_id = 0 \<and> table = LISTS_TABLE then
           (if column \<notin> set expected then Inl Generic
            else if column \<in> set seen then Inl Generic
            else Inr (btree_set (column # seen)))
         else Inl Generic
     | _ \<Rightarrow> Inl Generic)"

definition validate_placeholder_columns :: "changelog_entry \<Rightarrow> bytes list \<Rightarrow> changelog_error + unit" where
  "validate_placeholder_columns entry expected =
    res_bind (fold_res (placeholder_column expected) (lm_entries (ce_message entry)) []) (\<lambda>seen.
      ensure Generic (\<forall>col \<in> set expected. col \<in> set seen))"

section \<open>Append\<close>

definition append_links :: "'n op_libs \<Rightarrow> i64 \<Rightarrow> i64 \<Rightarrow> i64 \<Rightarrow> bytes \<Rightarrow> changelog_error + batch_op list" where
  "append_links L new_id list_number tail val =
    (if tail = 0 then
       res_bind (new_row_puts L new_id list_number 0 0 val) (\<lambda>puts.
         Inr (puts @ [i64_put (list_head_key list_number) new_id, i64_put (list_tail_key list_number) new_id]))
     else
       res_bind (new_row_puts L new_id list_number tail 0 val) (\<lambda>puts.
       res_bind (stored_i64_put L (column_key LISTS_TABLE tail (str ''next_id'')) new_id) (\<lambda>link.
         Inr (puts @ [link, i64_put (list_tail_key list_number) new_id]))))"

definition list_append_op :: "'n op_libs \<Rightarrow> changelog_entry \<Rightarrow> op_context \<Rightarrow> op_verify_result op" where
  "list_append_op L entry ctx =
    op_bind (validate_user_access L entry Op_ListAppend) (\<lambda>_.
    op_bind (op_lift (validate_placeholder_columns entry [str ''value'', str ''list_number''])) (\<lambda>_.
    op_bind (op_lift (extract_i64_column_from_entry L entry LISTS_TABLE (str ''list_number''))) (\<lambda>list_number.
    op_bind (op_ensure Generic (\<not> list_number \<le>s 0)) (\<lambda>_.
    op_bind (resolve_list_parent list_number) (\<lambda>(parent_table, parent_row_id, _).
    op_bind (list_acl_check L parent_table parent_row_id (ce_uid entry) (str ''write'')) (\<lambda>_.
    op_bind (read_next_id LISTS_TABLE) (\<lambda>new_id.
    op_bind (read_i64_key (list_tail_key list_number)) (\<lambda>tail.
    op_bind (op_lift (placeholder_value entry)) (\<lambda>val.
    op_bind (op_lift (append_links L new_id list_number tail val)) (\<lambda>batch_ops.
    op_bind (list_number_index_put L list_number new_id) (\<lambda>index_ops.
    op_bind (op_lift (next_id_after new_id)) (\<lambda>next_id.
      op_return \<lparr>write_steps = [TWrite (batch_ops @ index_ops @ [next_id_put LISTS_TABLE next_id])]\<rparr>))))))))))))"

section \<open>Insert\<close>

definition prepend_links :: "'n op_libs \<Rightarrow> i64 \<Rightarrow> i64 \<Rightarrow> i64 \<Rightarrow> bytes \<Rightarrow> changelog_error + batch_op list" where
  "prepend_links L new_id list_number head val =
    (if head = 0 then
       res_bind (new_row_puts L new_id list_number 0 0 val) (\<lambda>puts.
         Inr (puts @ [i64_put (list_head_key list_number) new_id, i64_put (list_tail_key list_number) new_id]))
     else
       res_bind (new_row_puts L new_id list_number 0 head val) (\<lambda>puts.
       res_bind (stored_i64_put L (column_key LISTS_TABLE head (str ''prev_id'')) new_id) (\<lambda>link.
         Inr (puts @ [link, i64_put (list_head_key list_number) new_id]))))"

definition insert_after_links :: "'n op_libs \<Rightarrow> i64 \<Rightarrow> i64 \<Rightarrow> i64 \<Rightarrow> i64 \<Rightarrow> bytes \<Rightarrow> changelog_error + batch_op list" where
  "insert_after_links L new_id list_number predecessor_id successor val =
    res_bind (new_row_puts L new_id list_number predecessor_id successor val) (\<lambda>puts.
    res_bind (stored_i64_put L (column_key LISTS_TABLE predecessor_id (str ''next_id'')) new_id) (\<lambda>link.
      if successor \<noteq> 0 then
        res_bind (stored_i64_put L (column_key LISTS_TABLE successor (str ''prev_id'')) new_id) (\<lambda>back.
          Inr (puts @ [link, back]))
      else Inr (puts @ [link, i64_put (list_tail_key list_number) new_id])))"

definition insert_links :: "'n op_libs \<Rightarrow> i64 \<Rightarrow> i64 \<Rightarrow> i64 \<Rightarrow> bytes \<Rightarrow> batch_op list op" where
  "insert_links L new_id list_number predecessor_id val =
    (if predecessor_id = 0 then
       op_bind (read_i64_key (list_head_key list_number)) (\<lambda>head. op_lift (prepend_links L new_id list_number head val))
     else
       op_bind (read_i64_column L predecessor_id (str ''list_number'')) (\<lambda>pred_ln.
       op_bind (op_ensure Generic (pred_ln = list_number)) (\<lambda>_.
       op_bind (read_i64_column L predecessor_id (str ''next_id'')) (\<lambda>successor.
         op_lift (insert_after_links L new_id list_number predecessor_id successor val)))))"

definition list_insert_op :: "'n op_libs \<Rightarrow> changelog_entry \<Rightarrow> op_context \<Rightarrow> op_verify_result op" where
  "list_insert_op L entry ctx =
    op_bind (validate_user_access L entry Op_ListInsert) (\<lambda>_.
    op_bind (op_lift (validate_placeholder_columns entry [str ''value'', str ''list_number'', str ''prev_id''])) (\<lambda>_.
    op_bind (op_lift (extract_i64_column_from_entry L entry LISTS_TABLE (str ''list_number''))) (\<lambda>list_number.
    op_bind (op_ensure Generic (\<not> list_number \<le>s 0)) (\<lambda>_.
    op_bind (op_lift (extract_i64_column_from_entry L entry LISTS_TABLE (str ''prev_id''))) (\<lambda>predecessor_id.
    op_bind (op_ensure Generic (\<not> predecessor_id <s 0)) (\<lambda>_.
    op_bind (resolve_list_parent list_number) (\<lambda>(parent_table, parent_row_id, _).
    op_bind (list_acl_check L parent_table parent_row_id (ce_uid entry) (str ''write'')) (\<lambda>_.
    op_bind (op_lift (placeholder_value entry)) (\<lambda>val.
    op_bind (read_next_id LISTS_TABLE) (\<lambda>new_id.
    op_bind (insert_links L new_id list_number predecessor_id val) (\<lambda>batch_ops.
    op_bind (list_number_index_put L list_number new_id) (\<lambda>index_ops.
    op_bind (op_lift (next_id_after new_id)) (\<lambda>next_id.
      op_return \<lparr>write_steps = [TWrite (batch_ops @ index_ops @ [next_id_put LISTS_TABLE next_id])]\<rparr>)))))))))))))"

section \<open>Update\<close>

definition list_update_op :: "'n op_libs \<Rightarrow> changelog_entry \<Rightarrow> op_context \<Rightarrow> op_verify_result op" where
  "list_update_op L entry ctx =
    op_bind (validate_user_access L entry Op_ListUpdate) (\<lambda>_.
      (case lm_entries (ce_message entry) of
         [kv] \<Rightarrow>
           op_bind (op_lift (case parse_key (kv_key kv) of
               Inr (PColumn table row_id column) \<Rightarrow>
                 if table = LISTS_TABLE \<and> column = str ''value'' then Inr row_id else Inl Generic
             | _ \<Rightarrow> Inl Generic)) (\<lambda>target_id.
           op_bind (op_ensure Generic (\<not> target_id \<le>s 0)) (\<lambda>_.
           op_bind (read_list_number L target_id) (\<lambda>list_number.
           op_bind (resolve_list_parent list_number) (\<lambda>(parent_table, parent_row_id, _).
           op_bind (list_acl_check L parent_table parent_row_id (ce_uid entry) (str ''write'')) (\<lambda>_.
             op_return \<lparr>write_steps = [TWrite [BPut (column_key LISTS_TABLE target_id (str ''value'')) (kv_value kv)]]\<rparr>)))))
       | _ \<Rightarrow> op_lift (Inl Generic)))"

section \<open>Delete\<close>

definition LIST_DELETE_REQUIRED :: "bytes list" where
  "LIST_DELETE_REQUIRED = [str ''list_number'', str ''next_id'', str ''prev_id'', str ''value'']"

definition tombstone :: "kv_data \<Rightarrow> i64 option \<times> bytes list \<Rightarrow> changelog_error + i64 option \<times> bytes list" where
  "tombstone kv = (\<lambda>(target_id, seen).
    (case parse_key (kv_key kv) of
       Inr (PColumn table row_id column) \<Rightarrow>
         if table \<noteq> LISTS_TABLE then Inl Generic
         else if row_id \<le>s 0 then Inl Generic
         else if (case target_id of None \<Rightarrow> False | Some existing \<Rightarrow> existing \<noteq> row_id) then Inl Generic
         else if column \<notin> set LIST_DELETE_REQUIRED then Inl Generic
         else if column \<in> set seen then Inl Generic
         else if kv_value kv \<noteq> [] then Inl Generic
         else Inr (Some row_id, btree_set (column # seen))
     | _ \<Rightarrow> Inl Generic))"

definition list_delete_target :: "changelog_entry \<Rightarrow> changelog_error + i64" where
  "list_delete_target entry =
    res_bind (fold_res tombstone (lm_entries (ce_message entry)) (None, [])) (\<lambda>(target_id, seen).
      if \<not> (\<forall>col \<in> set LIST_DELETE_REQUIRED. col \<in> set seen) then Inl Generic else ok_or Generic target_id)"

definition unlink_ops :: "'n op_libs \<Rightarrow> i64 \<Rightarrow> i64 \<Rightarrow> i64 \<Rightarrow> i64 \<Rightarrow> changelog_error + batch_op list" where
  "unlink_ops L target_id list_number prev next_row =
    res_bind (if prev \<noteq> 0 then
        res_bind (stored_i64_put L (column_key LISTS_TABLE prev (str ''next_id'')) next_row) (\<lambda>p. Inr [p]) else Inr []) (\<lambda>forward.
    res_bind (if next_row \<noteq> 0 then
        res_bind (stored_i64_put L (column_key LISTS_TABLE next_row (str ''prev_id'')) prev) (\<lambda>p. Inr [p]) else Inr []) (\<lambda>backward.
      Inr (map (\<lambda>col. BDelete (column_key LISTS_TABLE target_id col)) LIST_DELETE_REQUIRED @ forward @ backward @
        (if prev = 0 then [i64_put (list_head_key list_number) next_row] else []) @
        (if next_row = 0 then [i64_put (list_tail_key list_number) prev] else []))))"

definition list_delete_op :: "'n op_libs \<Rightarrow> changelog_entry \<Rightarrow> op_context \<Rightarrow> op_verify_result op" where
  "list_delete_op L entry ctx =
    op_bind (validate_user_access L entry Op_ListDelete) (\<lambda>_.
    op_bind (op_lift (list_delete_target entry)) (\<lambda>target_id.
    op_bind (read_list_number L target_id) (\<lambda>list_number.
    op_bind (resolve_list_parent list_number) (\<lambda>(parent_table, parent_row_id, _).
    op_bind (list_acl_check L parent_table parent_row_id (ce_uid entry) (str ''delete'')) (\<lambda>_.
    op_bind (read_i64_column L target_id (str ''prev_id'')) (\<lambda>prev.
    op_bind (read_i64_column L target_id (str ''next_id'')) (\<lambda>next_row.
    op_bind (op_lift (unlink_ops L target_id list_number prev next_row)) (\<lambda>batch_ops.
    op_bind (read_schema_indexes LISTS_TABLE) (\<lambda>indexed.
    op_bind (op_ensure Generic (str ''list_number'' \<in> set indexed)) (\<lambda>_.
    op_bind (op_lift (map_err (\<lambda>_. Generic) (value_to_bytes L (JNumber (ol_from_i64 L list_number))))) (\<lambda>ln_bytes.
    op_bind (op_lift (make_index_delete L LISTS_TABLE (str ''list_number'') ln_bytes target_id)) (\<lambda>del.
      op_return \<lparr>write_steps = [TWrite (batch_ops @ [del])]\<rparr>))))))))))))"

end
