(* ===== verification/Ops_Members.thy ===== *)
theory Ops_Members
  imports Ops_Common
begin

text \<open>
  The operations on members, their keys and the retention chain: \<open>create_space_op.rs\<close>, \<open>extend_op.rs\<close>,
  \<open>reduce_op.rs\<close>, \<open>rekey_op.rs\<close>, \<open>invite_user_op.rs\<close>, \<open>remove_user_op.rs\<close> and \<open>refresh_keys_op.rs\<close> of
  \<open>ffproof/changelog_core/src/ops\<close>.  They write the internal tables \<open>_users\<close>, \<open>_key_history\<close> and
  \<open>_retention\<close>, which the operations on rows refuse.
\<close>

text \<open>\<open>batch_ops.sort_by(|a, b| a.key().cmp(b.key()))\<close>, a stable sort.\<close>

definition sort_batch :: "batch_op list \<Rightarrow> batch_op list" where
  "sort_batch batch_ops = sort_key batch_op_key batch_ops"

definition column_puts :: "bytes list \<Rightarrow> kv_data list \<Rightarrow> batch_op list" where
  "column_puts column_keys kvs = map (\<lambda>(col_key, kv). to_batch_op kv col_key) (zip column_keys kvs)"

section \<open>The retention chain\<close>

text \<open>The part that the composite operations share: the rows of the entry are appended to \<open>_retention\<close>
  with consecutive identifiers.\<close>

definition append_retention :: "'n op_libs \<Rightarrow> kv_data list \<Rightarrow> batch_op list \<Rightarrow> batch_op list op" where
  "append_retention L retention_entries batch_ops =
    op_bind (read_schema_columns RETENTION_TABLE) (\<lambda>expected_retention_cols.
    let actual_retention_cols = column_names_from_keys (map kv_key retention_entries);
        retention_col_count = length expected_retention_cols in
    op_bind (op_ensure Generic (actual_retention_cols = expected_retention_cols)) (\<lambda>_.
    op_bind (op_ensure Generic (retention_col_count \<noteq> 0)) (\<lambda>_.
    op_bind (op_ensure Generic (length retention_entries mod retention_col_count = 0)) (\<lambda>_.
    op_bind (read_next_id RETENTION_TABLE) (\<lambda>retention_counter.
    op_bind (op_lift (derive_column_keys_for_chain retention_entries retention_counter retention_col_count)) (\<lambda>retention_column_keys.
    op_bind (append_multi_row_insert_index_puts L (batch_ops @ column_puts retention_column_keys retention_entries)
        RETENTION_TABLE retention_column_keys retention_entries) (\<lambda>batch_ops.
      op_lift (bump_next_id_after_chain batch_ops RETENTION_TABLE retention_counter
        (of_nat (length retention_entries div retention_col_count))))))))))"

definition retention_op :: "'n op_libs \<Rightarrow> op_type \<Rightarrow> changelog_entry \<Rightarrow> op_verify_result op" where
  "retention_op L op entry =
    (let kvs = lm_entries (ce_message entry) in
    op_bind (op_ensure Generic (kvs \<noteq> [])) (\<lambda>_.
    op_bind (op_lift (table_from_column_keys (map kv_key kvs))) (\<lambda>retention_table.
    op_bind (op_ensure Generic (retention_table = RETENTION_TABLE)) (\<lambda>_.
    op_bind (validate_user_access L entry op) (\<lambda>_.
    op_bind (append_retention L kvs []) (\<lambda>batch_ops.
      op_return \<lparr>write_steps = [TWrite (sort_batch batch_ops)]\<rparr>))))))"

definition extend_op :: "'n op_libs \<Rightarrow> changelog_entry \<Rightarrow> op_context \<Rightarrow> op_verify_result op" where
  "extend_op L entry ctx = retention_op L Op_Extend entry"

definition reduce_op :: "'n op_libs \<Rightarrow> changelog_entry \<Rightarrow> op_context \<Rightarrow> op_verify_result op" where
  "reduce_op L entry ctx = retention_op L Op_Reduce entry"

definition rekey_op :: "'n op_libs \<Rightarrow> changelog_entry \<Rightarrow> op_context \<Rightarrow> op_verify_result op" where
  "rekey_op L entry ctx = retention_op L Op_Rekey entry"

section \<open>Creating a space and inviting users\<close>

definition insert_user :: "kv_data list \<Rightarrow> batch_op list op" where
  "insert_user user_entries =
    op_bind (read_next_id USERS_TABLE) (\<lambda>user_row_id.
    op_bind (op_lift (derive_column_keys_with_row_id user_entries user_row_id)) (\<lambda>user_column_keys.
    op_bind (op_lift (next_id_after user_row_id)) (\<lambda>next_user_id.
      op_return (column_puts user_column_keys user_entries @ [next_id_put USERS_TABLE next_user_id]))))"

definition check_user_columns :: "kv_data list \<Rightarrow> unit op" where
  "check_user_columns user_entries =
    op_bind (read_schema_columns USERS_TABLE) (\<lambda>expected_user_cols.
      op_ensure Generic (column_names_from_keys (map kv_key user_entries) = expected_user_cols))"

definition create_space_op :: "'n op_libs \<Rightarrow> changelog_entry \<Rightarrow> op_context \<Rightarrow> op_verify_result op" where
  "create_space_op L entry ctx =
    op_bind (op_lift (partition_composite_entry entry)) (\<lambda>parts.
    op_bind (op_ensure Generic (pce_key_history parts = [])) (\<lambda>_.
    op_bind (op_ensure Generic (pce_users parts \<noteq> [])) (\<lambda>_.
    op_bind (op_read (ReadPrefix (row_prefix USERS_TABLE))) (\<lambda>users_read.
    op_bind (op_ensure Generic (users_read = [])) (\<lambda>_.
    op_bind (check_user_columns (pce_users parts)) (\<lambda>_.
    op_bind (insert_user (pce_users parts)) (\<lambda>batch_ops.
    op_bind (if pce_retention parts \<noteq> [] then append_retention L (pce_retention parts) batch_ops else op_return batch_ops) (\<lambda>batch_ops.
      op_return \<lparr>write_steps = [TWrite (sort_batch batch_ops)]\<rparr>))))))))"

definition invite_user_op :: "'n op_libs \<Rightarrow> changelog_entry \<Rightarrow> op_context \<Rightarrow> op_verify_result op" where
  "invite_user_op L entry ctx =
    op_bind (op_lift (partition_composite_entry entry)) (\<lambda>parts.
    op_bind (op_ensure Generic (pce_key_history parts = [])) (\<lambda>_.
    op_bind (op_ensure Generic (pce_users parts \<noteq> [])) (\<lambda>_.
    op_bind (validate_user_access L entry Op_InviteUser) (\<lambda>_.
    op_bind (check_user_columns (pce_users parts)) (\<lambda>_.
    op_bind (op_lift (extract_i64_column_from_entry L entry USERS_TABLE (str ''status''))) (\<lambda>inserted_status.
    op_bind (op_ensure Generic (is_provisional_status inserted_status)) (\<lambda>_.
    op_bind (insert_user (pce_users parts)) (\<lambda>batch_ops.
    op_bind (if pce_retention parts \<noteq> [] then append_retention L (pce_retention parts) batch_ops else op_return batch_ops) (\<lambda>batch_ops.
      op_return \<lparr>write_steps = [TWrite (sort_batch batch_ops)]\<rparr>)))))))))"

section \<open>Key history\<close>

text \<open>The new range must not overlap an earlier one of the user and must continue the last one; the
  addition to the largest end wraps, as it does in the release profile, where overflow is not checked.\<close>

definition max_i64 :: "i64 list \<Rightarrow> i64" where
  "max_i64 xs = fold (\<lambda>a b. if a \<le>s b then b else a) (tl xs) (hd xs)"

definition check_kh_range :: "i64 \<Rightarrow> i64 \<Rightarrow> (i64 \<times> i64) list \<Rightarrow> changelog_error + unit" where
  "check_kh_range valid_from valid_to existing_ranges =
    (if \<exists>(prev_from, prev_to) \<in> set existing_ranges. valid_from \<le>s prev_to \<and> prev_from \<le>s valid_to then Inl Generic
     else if existing_ranges \<noteq> [] then
       (let expected_from = max_i64 (map snd existing_ranges) + 1 in
         if valid_from \<noteq> expected_from then Inl Generic else Inr ())
     else if valid_from \<noteq> 0 then Inl Generic else Inr ())"

definition check_old_auth_key :: "kv_data list \<Rightarrow> u32 \<Rightarrow> unit op" where
  "check_old_auth_key kh_entries uid =
    op_bind (op_lift (extract_value_from_kh_entries kh_entries (str ''old_auth_key''))) (\<lambda>old_auth_key.
    op_bind (op_read (ReadKey (column_key USERS_TABLE (ucast uid) (str ''auth_key'')))) (\<lambda>auth_read.
      (case auth_read of
         [] \<Rightarrow> op_lift (Inl Generic)
       | (_, current_auth_key_bytes) # _ \<Rightarrow> op_ensure Generic (old_auth_key = current_auth_key_bytes))))"

definition REFRESH_KEYS_ALLOWED_COLUMNS :: "bytes list" where
  "REFRESH_KEYS_ALLOWED_COLUMNS = [str ''update_key'', str ''auth_key'', str ''status'']"

definition refresh_keys_op :: "'n op_libs \<Rightarrow> changelog_entry \<Rightarrow> op_context \<Rightarrow> op_verify_result op" where
  "refresh_keys_op L entry ctx =
    op_bind (op_lift (validate_sorted_entries entry)) (\<lambda>_.
    op_bind (op_lift (partition_composite_entry entry)) (\<lambda>parts.
    op_bind (op_ensure Generic (pce_retention parts = [])) (\<lambda>_.
    let kh_entries = pce_key_history parts; users_entries = pce_users parts in
    op_bind (op_ensure Generic (kh_entries \<noteq> [])) (\<lambda>_.
    op_bind (op_ensure Generic (users_entries \<noteq> [])) (\<lambda>_.
    op_bind (validate_user_access L entry Op_RefreshKeys) (\<lambda>_.
    op_bind (read_next_id KEY_HISTORY_TABLE) (\<lambda>kh_row_id.
    op_bind (op_lift (derive_column_keys_with_row_id kh_entries kh_row_id)) (\<lambda>kh_column_keys.
    op_bind (op_lift (validate_key_history_entries L kh_column_keys kh_entries (ce_uid entry))) (\<lambda>_.
    let users_column_keys = map kv_key users_entries in
    op_bind (op_lift (table_from_column_keys users_column_keys)) (\<lambda>table.
    op_bind (op_ensure Generic (table = str ''_users'')) (\<lambda>_.
    op_bind (op_ensure Generic (\<forall>column \<in> set (column_names_from_keys users_column_keys). column \<in> set REFRESH_KEYS_ALLOWED_COLUMNS)) (\<lambda>_.
    op_bind (op_lift (extract_i64_from_kh_entries L kh_entries (str ''valid_to_change_id''))) (\<lambda>valid_to.
    op_bind (op_ensure Generic (valid_to = ucast (ce_sig_ref entry))) (\<lambda>_.
    op_bind (op_lift (extract_i64_from_kh_entries L kh_entries (str ''valid_from_change_id''))) (\<lambda>valid_from.
    op_bind (op_ensure Generic (valid_from \<le>s valid_to)) (\<lambda>_.
    op_bind (check_old_auth_key kh_entries (ce_uid entry)) (\<lambda>_.
    op_bind (read_kh_ranges_indexed L (ce_uid entry)) (\<lambda>existing_ranges.
    op_bind (op_lift (check_kh_range valid_from valid_to existing_ranges)) (\<lambda>_.
    op_bind (append_insert_index_puts L (column_puts kh_column_keys kh_entries @ column_puts users_column_keys users_entries)
        KEY_HISTORY_TABLE kh_row_id kh_entries) (\<lambda>batch_ops.
    op_bind (op_lift (bump_next_id_after_chain batch_ops KEY_HISTORY_TABLE kh_row_id 1)) (\<lambda>batch_ops.
      op_return \<lparr>write_steps = [TWrite (sort_batch batch_ops)]\<rparr>)))))))))))))))))))))"

section \<open>Removing a user\<close>

definition kh_put :: "bytes \<Rightarrow> bytes \<times> kv_data \<Rightarrow> batch_op" where
  "kh_put authoritative_valid_to_bytes = (\<lambda>(col_key, kv).
    if (case parse_key col_key of Inr (PColumn _ _ column) \<Rightarrow> column = str ''valid_to_change_id'' | _ \<Rightarrow> False)
    then BPut col_key authoritative_valid_to_bytes else to_batch_op kv col_key)"

definition remove_user_op :: "'n op_libs \<Rightarrow> changelog_entry \<Rightarrow> op_context \<Rightarrow> op_verify_result op" where
  "remove_user_op L entry ctx =
    op_bind (op_lift (partition_composite_entry entry)) (\<lambda>parts.
    let kh_entries = pce_key_history parts; user_entries = pce_users parts in
    op_bind (op_ensure Generic (kh_entries \<noteq> [])) (\<lambda>_.
    op_bind (op_ensure Generic (user_entries \<noteq> [])) (\<lambda>_.
    op_bind (op_ensure Generic (0 < cx_current_change_id ctx)) (\<lambda>_.
    let valid_to = of_nat (cx_current_change_id ctx - 1) in
    op_bind (op_lift (validate_consistent_column_key_row_id (map kv_key user_entries))) (\<lambda>(user_table, deleted_uid_i64).
    op_bind (op_ensure Generic (user_table = USERS_TABLE)) (\<lambda>_.
    let deleted_uid = ucast deleted_uid_i64 in
    op_bind (validate_user_access L entry Op_RemoveUser) (\<lambda>_.
    op_bind (read_schema_columns user_table) (\<lambda>expected_user_cols.
    let columns_by_row = group_by_row user_entries in
    op_bind (op_ensure Generic (length columns_by_row = 1)) (\<lambda>_.
    op_bind (op_ensure Generic (\<forall>x \<in> set columns_by_row. snd x = expected_user_cols)) (\<lambda>_.
    op_bind (read_next_id KEY_HISTORY_TABLE) (\<lambda>kh_row_id.
    op_bind (op_lift (derive_column_keys_with_row_id kh_entries kh_row_id)) (\<lambda>kh_column_keys.
    op_bind (op_lift (validate_key_history_entries L kh_column_keys kh_entries deleted_uid)) (\<lambda>_.
    op_bind (op_lift (extract_i64_from_kh_entries L kh_entries (str ''valid_from_change_id''))) (\<lambda>valid_from.
    op_bind (op_ensure Generic (valid_from \<le>s valid_to)) (\<lambda>_.
    op_bind (check_old_auth_key kh_entries deleted_uid) (\<lambda>_.
    op_bind (read_kh_ranges_indexed L deleted_uid) (\<lambda>existing_ranges.
    op_bind (op_lift (check_kh_range valid_from valid_to existing_ranges)) (\<lambda>_.
    op_bind (op_lift (map_err (\<lambda>_. Panic) (value_to_bytes L (JNumber (ol_from_i64 L valid_to))))) (\<lambda>authoritative_valid_to_bytes.
    op_bind (append_insert_index_puts L
        (map (\<lambda>kv. BDelete (kv_key kv)) user_entries @ map (kh_put authoritative_valid_to_bytes) (zip kh_column_keys kh_entries))
        KEY_HISTORY_TABLE kh_row_id kh_entries) (\<lambda>batch_ops.
    op_bind (op_lift (bump_next_id_after_chain batch_ops KEY_HISTORY_TABLE kh_row_id 1)) (\<lambda>batch_ops.
    op_bind (if pce_retention parts \<noteq> [] then append_retention L (pce_retention parts) batch_ops else op_return batch_ops) (\<lambda>batch_ops.
      op_return \<lparr>write_steps = [TWrite (sort_batch batch_ops)]\<rparr>))))))))))))))))))))))"

end
