(* ===== verification/Ops_Action.thy ===== *)
theory Ops_Action
  imports Ops_Table Ops_Lists Ops_Members
begin

text \<open>
  Actions that an application schema declares, \<open>ffproof/changelog_core/src/ops/action_op.rs\<close>, and the
  dispatch of an entry to its operation at the end of \<open>ops/mod.rs\<close>.

  An action entry starts with a marker that names the action; the remaining entries are distributed
  over the legs of the action, and each leg runs the operation on rows that it names.
\<close>

section \<open>The marker and the legs\<close>

definition subset_entry :: "changelog_entry \<Rightarrow> kv_data list \<Rightarrow> changelog_entry" where
  "subset_entry entry leg_kvs = entry\<lparr>ce_message := (ce_message entry)\<lparr>lm_entries := leg_kvs\<rparr>\<rparr>"

definition extract_action_marker :: "changelog_entry \<Rightarrow> changelog_error + bytes \<times> bytes" where
  "extract_action_marker entry = (case lm_entries (ce_message entry) of
      [] \<Rightarrow> Inl Generic
    | marker_kv # _ \<Rightarrow>
        (case parse_key (kv_key marker_kv) of
           Inr (PActionMarker primary_table) \<Rightarrow>
             res_bind (ok_or Generic (from_utf8 (kv_value marker_kv))) (\<lambda>name. Inr (primary_table, name))
         | _ \<Rightarrow> Inl Generic))"

definition reject_stray_markers :: "changelog_entry \<Rightarrow> changelog_error + unit" where
  "reject_stray_markers entry =
    ensure Generic (\<not> (\<exists>kv \<in> set (drop 1 (lm_entries (ce_message entry))).
      (case parse_key (kv_key kv) of Inr (PActionMarker _) \<Rightarrow> True | _ \<Rightarrow> False)))"

fun is_cascade :: "action_leg \<Rightarrow> bool" where
  "is_cascade (LCascadeDelete _ _ _) \<longleftrightarrow> True"
| "is_cascade _ \<longleftrightarrow> False"

definition group_legs :: "action_leg list \<Rightarrow> (bytes \<times> nat list) list" where
  "group_legs legs = fold (\<lambda>(idx, leg) m.
    btree_insert (leg_table leg) ((case map_of m (leg_table leg) of Some is \<Rightarrow> is | None \<Rightarrow> []) @ [idx]) m)
    (zip [0..<length legs] legs) []"

definition check_leg_group :: "action_leg list \<Rightarrow> bytes \<times> nat list \<Rightarrow> unit \<Rightarrow> changelog_error + unit" where
  "check_leg_group legs = (\<lambda>(_, indices) _.
    if length indices = 1 then Inr ()
    else if is_cascade (legs ! (indices ! 0)) then Inl Generic
    else ensure Generic (\<forall>i \<in> set (drop 1 indices). is_cascade (legs ! i)))"

definition bucket_kv ::
  "(bytes \<times> nat list) list \<Rightarrow> kv_data \<Rightarrow> (bytes \<times> kv_data list) list \<Rightarrow> changelog_error + (bytes \<times> kv_data list) list"
where
  "bucket_kv legs_per_table kv per_table =
    (case parse_key (kv_key kv) of
       Inr (PColumn table _ _) \<Rightarrow>
         if table \<notin> set (map fst legs_per_table) then Inl Generic
         else Inr (btree_insert table ((case map_of per_table table of Some kvs \<Rightarrow> kvs | None \<Rightarrow> []) @ [kv]) per_table)
     | _ \<Rightarrow> Inl Generic)"

text \<open>The caller has checked that all but the first leg are cascading deletes; otherwise the code panics.\<close>

fun cascade_on_id :: "action_leg \<Rightarrow> unit \<Rightarrow> changelog_error + unit" where
  "cascade_on_id (LCascadeDelete _ _ where_self_column) _ = ensure Generic (where_self_column = str ''id'')"
| "cascade_on_id _ _ = Inl Panic"

definition bucket_row :: "kv_data \<Rightarrow> (row_ident \<times> kv_data list) list \<Rightarrow> changelog_error + (row_ident \<times> kv_data list) list" where
  "bucket_row kv rows =
    (case parse_key (kv_key kv) of
       Inr (PColumn _ row_id _) \<Rightarrow>
         Inr (btree_insert (RowId row_id) ((case map_of rows (RowId row_id) of Some kvs \<Rightarrow> kvs | None \<Rightarrow> []) @ [kv]) rows)
     | _ \<Rightarrow> Inl Generic)"

definition partition_same_table_kvs ::
  "nat list \<Rightarrow> action_leg list \<Rightarrow> kv_data list \<Rightarrow> kv_data list list \<Rightarrow> changelog_error + kv_data list list"
where
  "partition_same_table_kvs leg_indices legs table_kvs per_leg_kvs =
    res_bind (fold_res cascade_on_id (map (\<lambda>i. legs ! i) (drop 1 leg_indices)) ()) (\<lambda>_.
    res_bind (fold_res bucket_row table_kvs []) (\<lambda>rows.
      (case rows of
         [] \<Rightarrow> Inr per_leg_kvs
       | [(_, primary_row_kvs)] \<Rightarrow> Inr (per_leg_kvs[leg_indices ! 0 := primary_row_kvs])
       | _ \<Rightarrow> Inl Generic)))"

definition assign_table_kvs ::
  "action_leg list \<Rightarrow> (bytes \<times> kv_data list) list \<Rightarrow> bytes \<times> nat list \<Rightarrow> kv_data list list \<Rightarrow> changelog_error + kv_data list list"
where
  "assign_table_kvs legs per_table = (\<lambda>(table, indices) per_leg_kvs.
    let table_kvs = (case map_of per_table table of Some kvs \<Rightarrow> kvs | None \<Rightarrow> []) in
    if length indices = 1 then Inr (per_leg_kvs[indices ! 0 := table_kvs])
    else partition_same_table_kvs indices legs table_kvs per_leg_kvs)"

definition distribute_kvs :: "action_leg list \<Rightarrow> kv_data list \<Rightarrow> changelog_error + kv_data list list" where
  "distribute_kvs legs kvs =
    (let legs_per_table = group_legs legs in
     res_bind (fold_res (check_leg_group legs) legs_per_table ()) (\<lambda>_.
     res_bind (fold_res (bucket_kv legs_per_table) kvs []) (\<lambda>per_table.
       fold_res (assign_table_kvs legs per_table) legs_per_table (replicate (length legs) []))))"

section \<open>Assertions\<close>

definition self_row_step ::
  "'n op_libs \<Rightarrow> kv_data \<Rightarrow> (bytes \<times> i64) list \<times> i64 option \<times> bool \<Rightarrow> (bytes \<times> i64) list \<times> i64 option \<times> bool"
where
  "self_row_step L kv = (\<lambda>(out, common_row_id, row_id_inconsistent).
    (case parse_key (kv_key kv) of
       Inr (PColumn _ row_id column) \<Rightarrow>
         (case parse_i64_column_value L (kv_value kv) of Some i \<Rightarrow> btree_insert column i out | None \<Rightarrow> out,
          (case common_row_id of None \<Rightarrow> Some row_id | Some prev \<Rightarrow> Some prev),
          (case common_row_id of None \<Rightarrow> row_id_inconsistent | Some prev \<Rightarrow> if prev \<noteq> row_id then True else row_id_inconsistent))
     | _ \<Rightarrow> (out, common_row_id, row_id_inconsistent)))"

definition self_row_from_leg_kvs :: "'n op_libs \<Rightarrow> kv_data list \<Rightarrow> (bytes \<times> i64) list" where
  "self_row_from_leg_kvs L leg_kvs =
    (case fold (self_row_step L) leg_kvs ([], None, False) of
       (out, Some i, False) \<Rightarrow> btree_insert (str ''id'') i out
     | (out, _, _) \<Rightarrow> out)"

fun resolve_self_value :: "rule_value \<Rightarrow> u32 \<Rightarrow> (bytes \<times> i64) list \<Rightarrow> changelog_error + i64" where
  "resolve_self_value (RInt n) self_uid self_row = Inr n"
| "resolve_self_value AuthUserId self_uid self_row = Inr (ucast self_uid)"
| "resolve_self_value (RColumn SelfRow name) self_uid self_row = ok_or Generic (map_of self_row name)"
| "resolve_self_value (RColumn Resource _) self_uid self_row = Inl Generic"

fun evaluate_access_rule :: "access_rule \<Rightarrow> u32 \<Rightarrow> (bytes \<times> i64) list \<Rightarrow> changelog_error + bool" where
  "evaluate_access_rule (Comparison left op right) self_uid self_row =
    res_bind (resolve_self_value left self_uid self_row) (\<lambda>l.
    res_bind (resolve_self_value right self_uid self_row) (\<lambda>r. Inr (compare_i64 op l r)))"
| "evaluate_access_rule (RAnd a b) self_uid self_row =
    res_bind (evaluate_access_rule a self_uid self_row) (\<lambda>x. if x then evaluate_access_rule b self_uid self_row else Inr False)"
| "evaluate_access_rule (ROr a b) self_uid self_row =
    res_bind (evaluate_access_rule a self_uid self_row) (\<lambda>x. if x then Inr True else evaluate_access_rule b self_uid self_row)"
| "evaluate_access_rule (RNot inner) self_uid self_row =
    res_bind (evaluate_access_rule inner self_uid self_row) (\<lambda>x. Inr (\<not> x))"

fun evaluate_assertion :: "'n op_libs \<Rightarrow> assertion \<Rightarrow> u32 \<Rightarrow> (bytes \<times> i64) list \<Rightarrow> bool op" where
  "evaluate_assertion L (ARule rule) self_uid self_row = op_lift (evaluate_access_rule rule self_uid self_row)"
| "evaluate_assertion L (AExists table predicate) self_uid self_row = resolve_exists_in_op L table predicate self_uid self_row"
| "evaluate_assertion L (AAnd a b) self_uid self_row =
    op_bind (evaluate_assertion L a self_uid self_row) (\<lambda>x.
      if x then evaluate_assertion L b self_uid self_row else op_return False)"
| "evaluate_assertion L (AOr a b) self_uid self_row =
    op_bind (evaluate_assertion L a self_uid self_row) (\<lambda>x.
      if x then op_return True else evaluate_assertion L b self_uid self_row)"
| "evaluate_assertion L (ANot inner) self_uid self_row =
    op_bind (evaluate_assertion L inner self_uid self_row) (\<lambda>x. op_return (\<not> x))"

definition evaluate_action_asserts :: "'n op_libs \<Rightarrow> assertion list \<Rightarrow> (bytes \<times> i64) list \<Rightarrow> u32 \<Rightarrow> unit op" where
  "evaluate_action_asserts L asserts self_row self_uid =
    op_fold (\<lambda>assertion _. op_bind (evaluate_assertion L assertion self_uid self_row) (op_ensure Generic)) asserts ()"

section \<open>Running the legs\<close>

definition enforce_update_cols_allowlist :: "bytes list \<Rightarrow> kv_data list \<Rightarrow> changelog_error + unit" where
  "enforce_update_cols_allowlist allow leg_kvs =
    ensure Generic (\<forall>kv \<in> set leg_kvs.
      (case parse_key (kv_key kv) of Inr (PColumn _ _ column) \<Rightarrow> column \<in> set allow | _ \<Rightarrow> True))"

definition cascade_row ::
  "'n op_libs \<Rightarrow> bytes \<Rightarrow> bytes list \<Rightarrow> bytes list \<Rightarrow> i64 \<Rightarrow> batch_op list \<Rightarrow> batch_op list op"
where
  "cascade_row L table schema_columns indexed_columns row_id delete_ops =
    op_fold (delete_index_entry L table row_id) indexed_columns
      (delete_ops @ map (\<lambda>col. BDelete (column_key table row_id col)) schema_columns)"

definition dispatch_cascade_delete ::
  "'n op_libs \<Rightarrow> bytes \<Rightarrow> bytes \<Rightarrow> bytes \<Rightarrow> (bytes \<times> i64) list \<Rightarrow> op_verify_result op"
where
  "dispatch_cascade_delete L table where_column where_self_column self_row =
    op_bind (op_lift (ok_or Generic (map_of self_row where_self_column))) (\<lambda>fk_value.
    op_bind (read_indexed_row_ids table where_column fk_value) (\<lambda>row_ids.
      if row_ids = [] then op_return \<lparr>write_steps = []\<rparr>
      else
        op_bind (read_schema_columns table) (\<lambda>schema_columns.
        op_bind (read_schema_indexes table) (\<lambda>indexed_columns.
        op_bind (op_fold (cascade_row L table schema_columns indexed_columns) row_ids []) (\<lambda>delete_ops.
          op_return \<lparr>write_steps = [TWrite delete_ops]\<rparr>)))))"

definition run_leg ::
  "'n op_libs \<Rightarrow> changelog_entry \<Rightarrow> op_context \<Rightarrow> (bytes \<times> i64) list \<Rightarrow> action_leg \<Rightarrow> kv_data list \<Rightarrow> op_verify_result op"
where
  "run_leg L entry leg_ctx self_row leg leg_kvs = (case leg of
      LInsert table \<Rightarrow>
        op_bind (enforce_only_via_actions L table (str ''write'') leg_ctx) (\<lambda>_. insert_op L (subset_entry entry leg_kvs) leg_ctx)
    | LUpdate table cols \<Rightarrow>
        op_bind (enforce_only_via_actions L table (str ''write'') leg_ctx) (\<lambda>_.
        op_bind (op_lift (case cols of Some allow \<Rightarrow> enforce_update_cols_allowlist allow leg_kvs | None \<Rightarrow> Inr ())) (\<lambda>_.
          update_op L (subset_entry entry leg_kvs) leg_ctx))
    | LDelete table \<Rightarrow>
        op_bind (enforce_only_via_actions L table (str ''delete'') leg_ctx) (\<lambda>_. delete_op L (subset_entry entry leg_kvs) leg_ctx)
    | LCascadeDelete table where_column where_self_column \<Rightarrow>
        op_bind (op_ensure Generic (leg_kvs = [])) (\<lambda>_.
          dispatch_cascade_delete L table where_column where_self_column self_row))"

definition action_op :: "'n op_libs \<Rightarrow> changelog_entry \<Rightarrow> op_context \<Rightarrow> op_verify_result op" where
  "action_op L entry ctx =
    op_bind (op_lift (extract_action_marker entry)) (\<lambda>(primary_table, action_name).
    op_bind (op_lift (reject_stray_markers entry)) (\<lambda>_.
    op_bind (read_action L primary_table action_name) (\<lambda>found.
    op_bind (op_lift (ok_or Generic found)) (\<lambda>action.
    op_bind (op_ensure Generic (act_legs action \<noteq> [])) (\<lambda>_.
    op_bind (op_lift (distribute_kvs (act_legs action) (drop 1 (lm_entries (ce_message entry))))) (\<lambda>per_leg_kvs.
    let self_row = self_row_from_leg_kvs L (per_leg_kvs ! 0) in
    op_bind (evaluate_action_asserts L (act_asserts action) self_row (ce_uid entry)) (\<lambda>_.
    let leg_ctx = for_action_leg ctx action_name in
    op_bind (op_fold (\<lambda>(leg, leg_kvs) combined.
        op_bind (run_leg L entry leg_ctx self_row leg leg_kvs) (\<lambda>leg_result.
          op_return (combined @ write_steps leg_result))) (zip (act_legs action) per_leg_kvs) []) (\<lambda>steps.
      op_return \<lparr>write_steps = steps\<rparr>))))))))"

section \<open>Dispatch\<close>

definition dispatch_extract_and_validate :: "'n op_libs \<Rightarrow> changelog_entry \<Rightarrow> op_context \<Rightarrow> op_verify_result op" where
  "dispatch_extract_and_validate L entry ctx =
    op_bind (enforce_dispatch_gating L entry ctx) (\<lambda>_.
      (case lm_op_type (ce_message entry) of
         Op_Insert \<Rightarrow> insert_op L entry ctx
       | Op_Update \<Rightarrow> update_op L entry ctx
       | Op_Delete \<Rightarrow> delete_op L entry ctx
       | Op_ListInsert \<Rightarrow> list_insert_op L entry ctx
       | Op_ListUpdate \<Rightarrow> list_update_op L entry ctx
       | Op_ListDelete \<Rightarrow> list_delete_op L entry ctx
       | Op_ListAppend \<Rightarrow> list_append_op L entry ctx
       | Op_CreateSpace \<Rightarrow> create_space_op L entry ctx
       | Op_RefreshKeys \<Rightarrow> refresh_keys_op L entry ctx
       | Op_InviteUser \<Rightarrow> invite_user_op L entry ctx
       | Op_RemoveUser \<Rightarrow> remove_user_op L entry ctx
       | Op_Extend \<Rightarrow> extend_op L entry ctx
       | Op_Reduce \<Rightarrow> reduce_op L entry ctx
       | Op_Rekey \<Rightarrow> rekey_op L entry ctx
       | Op_Action \<Rightarrow> action_op L entry ctx
       | Op_Noop \<Rightarrow> op_return \<lparr>write_steps = []\<rparr>))"

end
