(* ===== verification/Ops_Frame.thy ===== *)
theory Ops_Frame
  imports Ops_Action
begin

text \<open>
  What the operations leave alone.  An operation writes columns, index entries, identifier counters and
  list pointers, and never the static metadata of a table: its columns, indexes, list columns, identifier
  mode, access rules, gates and actions.  This holds whatever the reader answers, because it is proved
  over all answers of the program.
\<close>

section \<open>Results of all runs\<close>

primrec rp_all :: "('a \<Rightarrow> bool) \<Rightarrow> 'a read_prog \<Rightarrow> bool" where
  "rp_all Q (Done a) \<longleftrightarrow> Q a"
| "rp_all Q (Fail e) \<longleftrightarrow> True"
| "rp_all Q (Ask q k) \<longleftrightarrow> (\<forall>r. rp_all Q (k r))"

definition op_all :: "('a \<Rightarrow> bool) \<Rightarrow> 'a op \<Rightarrow> bool" where
  "op_all Q m \<longleftrightarrow> (\<forall>c. rp_all (\<lambda>(a, _). Q a) (m c))"

lemma rp_all_bind: "rp_all R p \<Longrightarrow> (\<And>a. R a \<Longrightarrow> rp_all Q (f a)) \<Longrightarrow> rp_all Q (rp_bind p f)"
  by (induction p) auto

lemma rp_all_mono: "rp_all R p \<Longrightarrow> (\<And>a. R a \<Longrightarrow> Q a) \<Longrightarrow> rp_all Q p"
  by (induction p) auto

lemma rp_all_run: "rp_all Q p \<Longrightarrow> run_reader read p = Inr a \<Longrightarrow> Q a"
  by (induction p) (auto split: sum.splits)

lemma op_all_run: "op_all Q m \<Longrightarrow> run_reader read (m c) = Inr (a, c') \<Longrightarrow> Q a"
  using rp_all_run [of "\<lambda>(a, _). Q a" "m c" read "(a, c')"] by (simp add: op_all_def)

named_theorems op_all_intros \<open>results of the combinators\<close>

lemma rp_all_True: "rp_all (\<lambda>_. True) p"
  by (induction p) auto

lemma op_all_True [op_all_intros, simp]: "op_all (\<lambda>_. True) m"
  by (simp add: op_all_def case_prod_unfold rp_all_True)

lemma op_all_mono: "op_all R m \<Longrightarrow> (\<And>a. R a \<Longrightarrow> Q a) \<Longrightarrow> op_all Q m"
  unfolding op_all_def by (fastforce intro: rp_all_mono [where R = "\<lambda>(a, _). R a"])

lemma op_all_return [op_all_intros]: "Q a \<Longrightarrow> op_all Q (op_return a)"
  by (simp add: op_all_def op_return_def)

lemma op_all_lift [op_all_intros]: "(\<And>a. r = Inr a \<Longrightarrow> Q a) \<Longrightarrow> op_all Q (op_lift r)"
  by (auto simp: op_all_def op_lift_def split: sum.splits)

lemma op_all_bind: "op_all R m \<Longrightarrow> (\<And>a. R a \<Longrightarrow> op_all Q (f a)) \<Longrightarrow> op_all Q (op_bind m f)"
  unfolding op_all_def op_bind_def
  by (intro allI, rule rp_all_bind [where R = "\<lambda>(a, _). R a"]) auto

lemma op_all_bind_any: "(\<And>a. op_all Q (f a)) \<Longrightarrow> op_all Q (op_bind m f)"
  by (rule op_all_bind [OF op_all_True])

lemma op_all_bind_lift: "(\<And>a. r = Inr a \<Longrightarrow> op_all Q (f a)) \<Longrightarrow> op_all Q (op_bind (op_lift r) f)"
  by (rule op_all_bind [where R = "\<lambda>a. r = Inr a"]) (auto intro: op_all_lift)

lemma op_all_bind_ensure: "(b \<Longrightarrow> op_all Q (f ())) \<Longrightarrow> op_all Q (op_bind (op_ensure e b) f)"
  unfolding op_ensure_def by (rule op_all_bind_lift) simp

lemma op_all_fold:
  assumes "\<And>x s. x \<in> set xs \<Longrightarrow> P s \<Longrightarrow> op_all P (f x s)" and "P s"
  shows "op_all P (op_fold f xs s)"
  using assms by (induction xs arbitrary: s) (auto intro: op_all_return op_all_bind)

section \<open>Static metadata keys\<close>

definition static_key :: "bytes \<Rightarrow> bool" where
  "static_key k \<longleftrightarrow> (\<exists>t u. k \<in> {schema_columns_key t, schema_indexes_key t, schema_list_columns_key t, schema_id_mode_key t,
    acl_rule_key t u, acl_only_via_actions_key t u, action_storage_key t u})"

abbreviation dynamic_ops :: "batch_op list \<Rightarrow> bool" where
  "dynamic_ops ops \<equiv> \<forall>b \<in> set ops. \<not> static_key (batch_op_key b)"

definition dynamic_result :: "op_verify_result \<Rightarrow> bool" where
  "dynamic_result res \<longleftrightarrow> (\<forall>s \<in> set (write_steps res). \<forall>ops. s = TWrite ops \<longrightarrow> dynamic_ops ops)"

lemma encode_tuple_inject: "encode_tuple xs = encode_tuple ys \<Longrightarrow> map bytes_form xs = map bytes_form ys"
  using tuple_decode_encode by (metis sum.inject(2))

lemma static_key_elements:
  assumes "static_key k"
  obtains t es where "decode_tuple k = Inr (TBytes TAG_SCHEMA # TBytes t # es)"
    and "es \<noteq> []" and "es ! 0 \<in> TBytes ` str ` {''columns'', ''indexes'', ''list_columns'', ''id_mode'', ''acl'', ''only_via_actions'', ''action''}"
  using assms unfolding static_key_def builder_defs by (auto simp: tuple_decode_encode)

lemma parse_key_static: "static_key k \<Longrightarrow> parse_key k = Inr (PColumn t r c) \<Longrightarrow> False"
  by (erule static_key_elements)
    (auto simp: parse_key_def parse_schema_elements_def res_bind_Inr_iff split: if_splits sum.splits)

lemma column_entry_not_static: "parse_key k = Inr (PColumn t r c) \<Longrightarrow> \<not> static_key k"
  using parse_key_static by blast

lemma written_keys_not_static [simp]:
  "\<not> static_key (column_key t r c)" "\<not> static_key (schema_next_id_key t)" "\<not> static_key schema_next_list_number_key"
  "\<not> static_key (list_head_key n)" "\<not> static_key (list_tail_key n)" "\<not> static_key (list_parent_key n)"
  by (auto elim!: static_key_elements simp: builder_defs tuple_decode_encode str_inject)

lemma index_key_not_static: "index_key t c v r = Inr k \<Longrightarrow> \<not> static_key k"
  by (auto elim!: static_key_elements simp: index_key_def res_bind_Inr_iff tuple_decode_encode)

lemma make_index_not_static:
  "make_index_put L t c v r = Inr b \<Longrightarrow> \<not> static_key (batch_op_key b)"
  "make_index_delete L t c v r = Inr b \<Longrightarrow> \<not> static_key (batch_op_key b)"
  by (auto simp: make_index_put_def make_index_delete_def build_index_key_def res_bind_Inr_iff dest: index_key_not_static)

section \<open>Writes of the helpers\<close>

lemma map_res_set: "map_res f xs = Inr ys \<Longrightarrow> y \<in> set ys \<Longrightarrow> \<exists>x \<in> set xs. f x = Inr y"
  by (induction xs arbitrary: ys) (auto simp: res_bind_Inr_iff)

lemma to_batch_op_key [simp]: "batch_op_key (to_batch_op kv k) = k"
  by (simp add: to_batch_op_def)

lemma next_id_put_key [simp]: "batch_op_key (next_id_put t n) = schema_next_id_key t"
  by (simp add: next_id_put_def)

lemma index_put_of_dynamic:
  "index_put_of L t r vals skip col ops = Inr ops' \<Longrightarrow> dynamic_ops ops \<Longrightarrow> dynamic_ops ops'"
  by (auto simp: index_put_of_def res_bind_Inr_iff dest: make_index_not_static split: if_splits)

lemma index_puts_dynamic:
  "fold_res (index_put_of L t r vals skip) cols ops = Inr ops' \<Longrightarrow> dynamic_ops ops \<Longrightarrow> dynamic_ops ops'"
  by (erule fold_res_invariant [where P = dynamic_ops]) (auto dest: index_put_of_dynamic)

lemma append_insert_index_puts_dynamic:
  "dynamic_ops ops \<Longrightarrow> op_all dynamic_ops (append_insert_index_puts_skip L ops t r kvs skip)"
  "dynamic_ops ops \<Longrightarrow> op_all dynamic_ops (append_insert_index_puts L ops t r kvs)"
  "dynamic_ops ops \<Longrightarrow> op_all dynamic_ops (append_insert_index_puts_parsed_skip L ops x es skip)"
  unfolding append_insert_index_puts_def append_insert_index_puts_skip_def append_insert_index_puts_parsed_skip_def
  by (cases x; auto intro!: op_all_bind_any op_all_return op_all_lift dest: index_puts_dynamic)+

lemma append_chunk_dynamic:
  "dynamic_ops ops \<Longrightarrow> op_all dynamic_ops (append_chunk_index_puts L t keys kvs n i ops)"
  unfolding append_chunk_index_puts_def Let_def
  by (auto intro!: op_all_bind_lift op_all_lift append_insert_index_puts_dynamic)

lemma append_multi_row_dynamic:
  "dynamic_ops ops \<Longrightarrow> op_all dynamic_ops (append_multi_row_insert_index_puts L ops t keys kvs)"
  unfolding append_multi_row_insert_index_puts_def Let_def
  by (auto intro!: op_all_bind_any op_all_return op_all_fold append_chunk_dynamic)

lemma bump_next_id_dynamic:
  "bump_next_id_after_chain ops t n m = Inr ops' \<Longrightarrow> dynamic_ops ops \<Longrightarrow> dynamic_ops ops'"
  by (auto simp: bump_next_id_after_chain_def res_bind_Inr_iff split: if_splits)

lemma rebuild_not_static: "rebuild_column_key_with_row_id k r = Inr k' \<Longrightarrow> \<not> static_key k'"
  by (auto simp: rebuild_column_key_with_row_id_def split: sum.splits parsed_key.splits if_splits)

lemma derive_keys_not_static:
  "derive_column_keys_with_row_id kvs r = Inr keys \<Longrightarrow> \<forall>k \<in> set keys. \<not> static_key k"
  unfolding derive_column_keys_with_row_id_def by (auto dest!: map_res_set dest: rebuild_not_static)

lemma derive_chain_loop_not_static:
  "derive_chain_loop n c kvs counts keys = Inr (counts', keys') \<Longrightarrow> \<forall>k \<in> set keys. \<not> static_key k \<Longrightarrow>
    \<forall>k \<in> set keys'. \<not> static_key k"
proof (induction kvs arbitrary: counts keys)
  case (Cons kv kvs)
  from Cons.prems(1) obtain counts1 k where
      rest: "derive_chain_loop n c kvs counts1 (keys @ [k]) = Inr (counts', keys')" and k: "\<not> static_key k"
    by (auto simp: Let_def res_bind_Inr_iff dest: rebuild_not_static split: sum.splits parsed_key.splits if_splits)
  show ?case
    by (rule Cons.IH [OF rest]) (use Cons.prems(2) k in auto)
qed simp

lemma derive_chain_not_static:
  "derive_column_keys_for_chain kvs c n = Inr keys \<Longrightarrow> \<forall>k \<in> set keys. \<not> static_key k"
  by (auto simp: derive_column_keys_for_chain_def Let_def res_bind_Inr_iff dest: derive_chain_loop_not_static split: if_splits)

lemma column_puts_dynamic: "\<forall>k \<in> set keys. \<not> static_key k \<Longrightarrow> dynamic_ops (column_puts keys kvs)"
  by (auto simp: column_puts_def dest: set_zip_leftD)

lemma append_retention_dynamic: "dynamic_ops ops \<Longrightarrow> op_all dynamic_ops (append_retention L kvs ops)"
  unfolding append_retention_def Let_def
  by (rule op_all_bind_any, (rule op_all_bind_ensure)+, rule op_all_bind_any, rule op_all_bind_lift,
      rule op_all_bind [OF append_multi_row_dynamic])
    (auto intro!: op_all_lift dest: bump_next_id_dynamic derive_chain_not_static column_puts_dynamic)

section \<open>Writes of the operations\<close>

lemma op_all_after: "(\<And>a. R a \<Longrightarrow> op_all Q (f a)) \<Longrightarrow> op_all R m \<Longrightarrow> op_all Q (op_bind m f)"
  by (rule op_all_bind)

lemma dynamic_result_simps [simp]:
  "dynamic_result \<lparr>write_steps = []\<rparr>"
  "dynamic_result \<lparr>write_steps = [TWrite ops]\<rparr> \<longleftrightarrow> dynamic_ops ops"
  by (auto simp: dynamic_result_def)

lemma column_key_ref_elements:
  assumes "parse_column_key_ref key = Inr (t, r, c)"
  shows "decode_tuple key = Inr [TBytes TAG_ROW, TBytes t, TInt r, TBytes c]" and "valid_utf8 t" and "valid_utf8 c"
  using assms unfolding parse_column_key_ref_chain decode_tuple_consumed4 by blast+

lemma column_key_ref_parse: "parse_column_key_ref key = Inr (t, r, c) \<Longrightarrow> parse_key key = Inr (PColumn t r c)"
  using column_key_ref_elements [of key t r c] by (simp add: parse_key_column_iff)

lemma parsed_entry_not_static:
  assumes "parse_column_entries e = Inr es" and "p \<in> set es"
  shows "\<not> static_key (pe_key p)"
proof -
  obtain kv where "parse_column_entry kv = Inr p"
    using map_res_set [OF assms [unfolded parse_column_entries_def]] by blast
  then obtain t r c where "parse_column_key_ref (pe_key p) = Inr (t, r, c)"
    by (auto simp: parse_column_entry_def res_bind_Inr_iff)
  then have "parse_key (pe_key p) = Inr (PColumn t r c)"
    by (simp add: column_key_ref_parse)
  then show ?thesis
    by (rule column_entry_not_static)
qed

lemma insert_column_puts_dynamic:
  assumes "fold_res (insert_column_put L cols base) (zip es keys) ([], []) = Inr (ops, allocated)"
    and "\<forall>k \<in> set keys. \<not> static_key k"
  shows "dynamic_ops ops"
proof -
  have "dynamic_ops (fst (ops, allocated))"
    using assms(1)
    by (rule fold_res_invariant [where P = "\<lambda>s. dynamic_ops (fst s)"])
      (use assms(2) in \<open>auto simp: insert_column_put_def res_bind_Inr_iff dest!: set_zip_rightD split: if_splits\<close>)
  then show ?thesis
    by simp
qed

lemma insert_puts_dynamic:
  assumes "fold_res (insert_column_put L cols base)
      (zip es (if auto then map (\<lambda>p. column_key t r (pe_column p)) es else map pe_key es)) ([], []) = Inr (ops, allocated)"
    and "parse_column_entries e = Inr es"
  shows "dynamic_ops ops"
  by (rule insert_column_puts_dynamic [OF assms(1)]) (auto dest: parsed_entry_not_static [OF assms(2)])

lemma list_metadata_puts_dynamic:
  "list_metadata_puts t r base allocated ops = Inr ops' \<Longrightarrow> dynamic_ops ops \<Longrightarrow> dynamic_ops ops'"
  by (auto simp: list_metadata_puts_def res_bind_Inr_iff split: if_splits)

lemma insert_op_dynamic: "op_all dynamic_result (insert_op L e ctx)"
proof -
  have step: "op_all dynamic_ops (if auto then
        op_lift (res_bind (next_id_after row_id) (\<lambda>next_id. Inr (ops @ [next_id_put table next_id])))
      else op_bind (op_lift (ok_or Generic rep)) (\<lambda>rep_key. op_bind (verify_column_absent rep_key) (\<lambda>_. op_return ops)))"
    if "dynamic_ops ops" for auto row_id ops table rep
    using that by (auto simp: res_bind_Inr_iff intro!: op_all_lift op_all_bind_lift op_all_bind_any op_all_return)
  show ?thesis
    unfolding insert_op_def Let_def split_def
    by (rule op_all_bind_lift | rule op_all_bind_ensure | rule op_all_after [OF _ append_insert_index_puts_dynamic(3)]
        | rule op_all_after [OF _ step] | rule op_all_bind_any)+
      (auto intro!: op_all_return dest: insert_puts_dynamic list_metadata_puts_dynamic)
qed

lemma update_index_ops_dynamic:
  "fold_res (update_index_ops L t cols vals) xs ops = Inr ops' \<Longrightarrow> dynamic_ops ops \<Longrightarrow> dynamic_ops ops'"
  by (erule fold_res_invariant [where P = dynamic_ops])
    (auto simp: update_index_ops_def res_bind_Inr_iff dest!: make_index_not_static split: if_splits option.splits prod.splits)

lemma update_puts_dynamic:
  assumes "fold_res (update_index_ops L t cols vals) xs (map (\<lambda>p. to_batch_op (pe_kv p) (pe_key p)) es) = Inr ops"
    and "parse_column_entries e = Inr es"
  shows "dynamic_ops ops"
  by (rule update_index_ops_dynamic [OF assms(1)]) (auto dest: parsed_entry_not_static [OF assms(2)])

lemma update_op_dynamic: "op_all dynamic_result (update_op L e ctx)"
  unfolding update_op_def Let_def
  by (rule op_all_bind_lift | rule op_all_bind_ensure | rule op_all_bind_any)+
    (auto intro!: op_all_return dest: update_puts_dynamic)

lemma table_from_keys_columns:
  "table_from_keys keys t = Inr t' \<Longrightarrow> k \<in> set keys \<Longrightarrow> \<exists>t r c. parse_key k = Inr (PColumn t r c)"
  by (induction keys t rule: table_from_keys.induct) (auto split: sum.splits parsed_key.splits option.splits if_splits)

lemma table_from_column_keys_not_static:
  "table_from_column_keys keys = Inr t \<Longrightarrow> k \<in> set keys \<Longrightarrow> \<not> static_key k"
  by (auto simp: table_from_column_keys_def res_bind_Inr_iff dest!: table_from_keys_columns dest: parse_key_static)

lemma delete_index_entry_dynamic:
  "dynamic_ops ops \<Longrightarrow> op_all dynamic_ops (delete_index_entry L t r col ops)"
  unfolding delete_index_entry_def
  by (auto simp: res_bind_Inr_iff intro!: op_all_bind_any op_all_return op_all_lift dest!: make_index_not_static split: list.splits)

lemma delete_op_dynamic: "op_all dynamic_result (delete_op L e ctx)"
proof -
  have index: "op_all dynamic_ops (op_fold (\<lambda>row_id. op_fold (delete_index_entry L t row_id) cols) rows ops)"
    if "dynamic_ops ops" for t cols rows ops
    using that by (intro op_all_fold delete_index_entry_dynamic)
  show ?thesis
    unfolding delete_op_def Let_def
    by (rule op_all_bind_lift | rule op_all_bind_ensure | rule op_all_after [OF _ index] | rule op_all_bind_any)+
      (auto intro!: op_all_return dest: table_from_column_keys_not_static)
qed

lemma stored_i64_put_key: "stored_i64_put L k v = Inr b \<Longrightarrow> batch_op_key b = k"
  by (auto simp: stored_i64_put_def res_bind_Inr_iff)

lemma i64_put_key [simp]: "batch_op_key (i64_put k v) = k"
  by (simp add: i64_put_def)

lemma list_links_dynamic:
  "new_row_puts L i n p s v = Inr ops \<Longrightarrow> dynamic_ops ops"
  "append_links L i n t v = Inr ops \<Longrightarrow> dynamic_ops ops"
  "prepend_links L i n h v = Inr ops \<Longrightarrow> dynamic_ops ops"
  "insert_after_links L i n p s v = Inr ops \<Longrightarrow> dynamic_ops ops"
  "unlink_ops L i n p s = Inr ops \<Longrightarrow> dynamic_ops ops"
  by (auto simp: append_links_def prepend_links_def insert_after_links_def unlink_ops_def new_row_puts_def
      res_bind_Inr_iff dest!: stored_i64_put_key split: if_splits)

lemma list_number_index_put_dynamic: "op_all dynamic_ops (list_number_index_put L n r)"
  unfolding list_number_index_put_def
  by (auto simp: res_bind_Inr_iff intro!: op_all_bind_any op_all_lift dest!: make_index_not_static)

lemma insert_links_dynamic: "op_all dynamic_ops (insert_links L i n p v)"
  unfolding insert_links_def
  by (auto intro!: op_all_bind_any op_all_lift dest!: list_links_dynamic)

lemma list_append_op_dynamic: "op_all dynamic_result (list_append_op L e ctx)"
  unfolding list_append_op_def split_def
  by (rule op_all_bind_lift | rule op_all_bind_ensure | rule op_all_bind [OF list_number_index_put_dynamic] | rule op_all_bind_any)+
    (auto intro!: op_all_return dest!: list_links_dynamic)

lemma list_insert_op_dynamic: "op_all dynamic_result (list_insert_op L e ctx)"
  unfolding list_insert_op_def split_def
  by (rule op_all_bind_lift | rule op_all_bind_ensure | rule op_all_bind [OF list_number_index_put_dynamic]
      | rule op_all_bind [OF insert_links_dynamic] | rule op_all_bind_any)+
    (auto intro!: op_all_return)

lemma list_update_op_dynamic: "op_all dynamic_result (list_update_op L e ctx)"
proof -
  have "op_all dynamic_result (list_update_op L e ctx)" if "lm_entries (ce_message e) = kvs" for kvs
  proof (cases kvs rule: remdups_adj.cases)
    case (2 kv)
    show ?thesis
      unfolding list_update_op_def that 2 split_def list.case
      by (rule op_all_bind_any op_all_return)+ simp
  qed (auto simp: list_update_op_def that intro!: op_all_bind_any op_all_lift)
  then show ?thesis
    by simp
qed

lemma list_delete_op_dynamic: "op_all dynamic_result (list_delete_op L e ctx)"
  unfolding list_delete_op_def split_def
  by (rule op_all_bind_lift | rule op_all_bind_ensure | rule op_all_bind_any)+
    (auto intro!: op_all_return dest!: list_links_dynamic dest!: make_index_not_static)

lemma set_sort_batch [simp]: "set (sort_batch ops) = set ops"
  by (simp add: sort_batch_def)

lemma insert_user_dynamic: "op_all dynamic_ops (insert_user kvs)"
  unfolding insert_user_def
  by (rule op_all_bind_lift | rule op_all_bind_any)+
    (auto intro!: op_all_return dest!: derive_keys_not_static column_puts_dynamic)

lemma retention_op_dynamic: "op_all dynamic_result (retention_op L t e)"
  unfolding retention_op_def Let_def
  by (rule op_all_bind_lift | rule op_all_bind_ensure | rule op_all_after [OF _ append_retention_dynamic] | rule op_all_bind_any)+
    (auto intro!: op_all_return)

lemma optional_retention_dynamic:
  "dynamic_ops ops \<Longrightarrow> op_all dynamic_ops (if kvs \<noteq> [] then append_retention L kvs ops else op_return ops)"
  by (auto intro: append_retention_dynamic op_all_return)

lemma create_space_op_dynamic: "op_all dynamic_result (create_space_op L e ctx)"
  unfolding create_space_op_def
  by (rule op_all_bind_lift | rule op_all_bind_ensure | rule op_all_bind [OF insert_user_dynamic]
      | rule op_all_after [OF _ optional_retention_dynamic] | rule op_all_bind_any)+
    (auto intro!: op_all_return)

lemma invite_user_op_dynamic: "op_all dynamic_result (invite_user_op L e ctx)"
  unfolding invite_user_op_def
  by (rule op_all_bind_lift | rule op_all_bind_ensure | rule op_all_bind [OF insert_user_dynamic]
      | rule op_all_after [OF _ optional_retention_dynamic] | rule op_all_bind_any)+
    (auto intro!: op_all_return)

lemma refresh_puts_dynamic:
  assumes "derive_column_keys_with_row_id kh r = Inr keys" and "table_from_column_keys (map kv_key us) = Inr t"
  shows "dynamic_ops (column_puts keys kh @ column_puts (map kv_key us) us)"
  using column_puts_dynamic [OF derive_keys_not_static [OF assms(1)], of kh]
    column_puts_dynamic [of "map kv_key us" us] table_from_column_keys_not_static [OF assms(2)] by auto

lemma refresh_keys_op_dynamic: "op_all dynamic_result (refresh_keys_op L e ctx)"
  unfolding refresh_keys_op_def Let_def
  by (rule op_all_bind_lift | rule op_all_bind_ensure | rule op_all_after [OF _ append_insert_index_puts_dynamic(2)]
      | rule op_all_bind_any)+
    (auto intro!: op_all_return dest!: bump_next_id_dynamic simp: refresh_puts_dynamic)

lemma keys_target_columns:
  "keys_target keys t r = Inr u \<Longrightarrow> k \<in> set keys \<Longrightarrow> \<exists>c. parse_key k = Inr (PColumn t r c)"
  by (induction keys t r rule: keys_target.induct) (auto split: sum.splits parsed_key.splits if_splits)

lemma consistent_keys_columns:
  assumes "validate_consistent_column_key_row_id keys = Inr (t, r)" and "k \<in> set keys"
  shows "\<exists>c. parse_key k = Inr (PColumn t r c)"
  using assms
  by (auto simp: validate_consistent_column_key_row_id_def res_bind_Inr_iff dest: keys_target_columns
      split: list.splits sum.splits parsed_key.splits)

lemma remove_puts_dynamic:
  assumes "derive_column_keys_with_row_id kh r = Inr keys" and "validate_consistent_column_key_row_id (map kv_key us) = Inr (t, u)"
  shows "dynamic_ops (map (\<lambda>kv. BDelete (kv_key kv)) us @ map (kh_put bs) (zip keys kh))"
proof -
  have "\<not> static_key (kv_key kv)" if "kv \<in> set us" for kv
    using consistent_keys_columns [OF assms(2), of "kv_key kv"] that column_entry_not_static by auto
  moreover have "batch_op_key (kh_put bs x) \<in> set keys" if "x \<in> set (zip keys kh)" for x
    using that by (auto simp: kh_put_def dest: set_zip_leftD split: prod.splits)
  ultimately show ?thesis
    using derive_keys_not_static [OF assms(1)] by auto
qed

lemma remove_user_op_dynamic: "op_all dynamic_result (remove_user_op L e ctx)"
  unfolding remove_user_op_def Let_def
  by (rule op_all_bind_lift | rule op_all_bind_ensure | rule op_all_after [OF _ append_insert_index_puts_dynamic(2)]
      | rule op_all_after [OF _ optional_retention_dynamic] | rule op_all_bind_any | split prod.split, intro allI impI)+
    (auto intro!: op_all_return dest!: bump_next_id_dynamic remove_puts_dynamic simp del: set_append)

lemma cascade_delete_dynamic: "op_all dynamic_result (dispatch_cascade_delete L t w s row)"
proof -
  have rows: "op_all dynamic_ops (op_fold (cascade_row L t cols idx) rows [])" for cols idx rows
    unfolding cascade_row_def by (auto intro!: op_all_fold delete_index_entry_dynamic)
  show ?thesis
    unfolding dispatch_cascade_delete_def
    by (auto intro!: op_all_bind_any op_all_return op_all_bind [OF rows])
qed

lemma run_leg_dynamic: "op_all dynamic_result (run_leg L e ctx row leg kvs)"
  unfolding run_leg_def
  by (cases leg) (auto intro!: op_all_bind_any insert_op_dynamic update_op_dynamic delete_op_dynamic cascade_delete_dynamic)

lemma action_op_dynamic: "op_all dynamic_result (action_op L e ctx)"
proof -
  let ?P = "\<lambda>steps. dynamic_result \<lparr>write_steps = steps\<rparr>"
  have legs: "op_all ?P (op_fold (\<lambda>(leg, leg_kvs) combined.
      op_bind (run_leg L e ctx' row leg leg_kvs) (\<lambda>leg_result. op_return (combined @ write_steps leg_result))) xs [])" for ctx' row xs
    by (rule op_all_fold) (auto simp: dynamic_result_def intro!: op_all_bind [OF run_leg_dynamic] op_all_return)
  show ?thesis
    unfolding action_op_def Let_def split_def
    by (rule op_all_bind [OF legs [unfolded split_def]] op_all_return | assumption | rule op_all_bind_any)+
qed

theorem dispatch_dynamic: "op_all dynamic_result (dispatch_extract_and_validate L e ctx)"
  unfolding dispatch_extract_and_validate_def extend_op_def reduce_op_def rekey_op_def
  by (rule op_all_bind_any)
    (auto intro: op_all_return insert_op_dynamic update_op_dynamic delete_op_dynamic list_append_op_dynamic
      list_insert_op_dynamic list_update_op_dynamic list_delete_op_dynamic create_space_op_dynamic refresh_keys_op_dynamic
      invite_user_op_dynamic remove_user_op_dynamic retention_op_dynamic action_op_dynamic split: op_type.splits)

end
