(* ===== verification/Ops_Cache.thy ===== *)
theory Ops_Cache
  imports Ops_Frame Fast_Forward
begin

text \<open>
  The metadata cache of \<open>ops/mod.rs\<close> is transparent.  Operations that verify a sequence of changes share a
  cache of schema metadata, access rules, gates and actions, which is cleared only after some kinds of
  operations.  The lemmas show that a cache filled from a store answers as the store does, that every
  operation computes the same result with every such cache, and that the writes of every operation keep
  the cache correct; so replaying a sequence with the shared cache is replaying it without one.

  The contract of one map of the cache is the locale \<open>cached_map\<close>; the seven maps are its
  interpretations.
\<close>

section \<open>One map of the cache\<close>

definition key_results :: "(bytes \<times> bytes) list \<Rightarrow> bytes \<Rightarrow> (bytes \<times> bytes) list" where
  "key_results kvs k = filter (\<lambda>(k', _). k' = k) kvs"

lemma run_op_simps [simp]:
  "run_store kvs (op_return a c) = Inr (a, c)"
  "run_store kvs (op_lift r c) = res_bind r (\<lambda>a. Inr (a, c))"
  "run_store kvs (op_bind m f c) = res_bind (run_store kvs (m c)) (\<lambda>(a, c'). run_store kvs (f a c'))"
  "run_store kvs (op_read q c) = Inr (filter (\<lambda>(k, _). read_selects q k) kvs, c)"
  by (simp_all add: op_return_def op_lift_def op_bind_def op_read_def answer_def split_def split: sum.splits)

lemma run_op_read_key: "run_store kvs (op_read (ReadKey k) c) = Inr (key_results kvs k, c)"
  by (simp add: key_results_def)

lemma run_op_ensure [simp]: "run_store kvs (op_ensure e b c) = (if b then Inr ((), c) else Inl e)"
  by (simp add: op_ensure_def)

text \<open>Every value that a map of the cache holds is the one that the store gives for its key.\<close>

definition cache_holds ::
  "(meta_cache \<Rightarrow> 'k \<Rightarrow> 'v option) \<Rightarrow> ('k \<Rightarrow> bytes) \<Rightarrow> ('k \<Rightarrow> (bytes \<times> bytes) list \<Rightarrow> changelog_error + 'v) \<Rightarrow>
    (bytes \<times> bytes) list \<Rightarrow> meta_cache \<Rightarrow> bool"
where
  "cache_holds get storage_key interpret_results kvs c \<longleftrightarrow>
    (\<forall>k v. get c k = Some v \<longrightarrow> interpret_results k (key_results kvs (storage_key k)) = Inr v)"

locale cached_map =
  fixes get :: "meta_cache \<Rightarrow> 'k \<Rightarrow> 'v option"
    and put :: "'k \<Rightarrow> 'v \<Rightarrow> meta_cache \<Rightarrow> meta_cache"
    and fetch :: "'k \<Rightarrow> 'v op"
    and storage_key :: "'k \<Rightarrow> bytes"
    and interpret_results :: "'k \<Rightarrow> (bytes \<times> bytes) list \<Rightarrow> changelog_error + 'v"
  assumes get_put: "get (put k v c) = (get c)(k \<mapsto> v)"
    and get_default: "get cache_default = Map.empty"
    and static: "static_key (storage_key k)"
    and run_fetch: "run_store kvs (fetch k c) = res_bind (interpret_results k (key_results kvs (storage_key k))) (\<lambda>v. Inr (v, c))"
begin

abbreviation holds :: "(bytes \<times> bytes) list \<Rightarrow> meta_cache \<Rightarrow> bool" where
  "holds \<equiv> cache_holds get storage_key interpret_results"

lemma holds_default: "holds kvs cache_default"
  by (simp add: cache_holds_def get_default)

lemma holds_put: "holds kvs c \<Longrightarrow> interpret_results k (key_results kvs (storage_key k)) = Inr v \<Longrightarrow> holds kvs (put k v c)"
  by (simp add: cache_holds_def get_put)

lemma holds_store: "holds kvs c \<Longrightarrow> (\<And>k. static_key k \<Longrightarrow> key_results kvs' k = key_results kvs k) \<Longrightarrow> holds kvs' c"
  by (simp add: cache_holds_def static)

lemma run_cached:
  assumes "holds kvs c"
  shows "run_store kvs (op_cached get put k (fetch k) c) =
    res_bind (interpret_results k (key_results kvs (storage_key k))) (\<lambda>v. Inr (v, if get c k = None then put k v c else c))"
proof (cases "get c k")
  case None
  then show ?thesis
    by (simp add: op_cached_def run_fetch res_bind_def split: sum.splits)
next
  case (Some v)
  then show ?thesis
    using assms by (simp add: op_cached_def cache_holds_def)
qed

end

section \<open>The maps of the cache\<close>

definition optional_result :: "(bytes \<Rightarrow> changelog_error + 'v) \<Rightarrow> changelog_error + 'v \<Rightarrow> (bytes \<times> bytes) list \<Rightarrow> changelog_error + 'v" where
  "optional_result found absent results = (case results of [] \<Rightarrow> absent | (_, bs) # _ \<Rightarrow> found bs)"

definition parse_auto_increment :: "bytes \<Rightarrow> changelog_error + bool" where
  "parse_auto_increment bs = (if bs = [0] then Inr True else if bs = [1] then Inr False else Inl Generic)"

definition parse_action :: "'n op_libs \<Rightarrow> bytes \<Rightarrow> bytes \<Rightarrow> changelog_error + action option" where
  "parse_action L name bs = res_bind (map_err (\<lambda>_. Generic) (decode_action_value bs)) (\<lambda>body_bytes.
    res_bind (ok_or Generic (ol_decode_action_body L body_bytes)) (\<lambda>body. Inr (Some (into_action body name))))"

definition results_columns :: "bytes \<Rightarrow> (bytes \<times> bytes) list \<Rightarrow> changelog_error + bytes list" where
  "results_columns table = optional_result (\<lambda>bs. ok_or Generic (decode_column_names bs)) (Inl Generic)"

definition results_names :: "bytes \<Rightarrow> (bytes \<times> bytes) list \<Rightarrow> changelog_error + bytes list" where
  "results_names table = optional_result (\<lambda>bs. ok_or Generic (decode_column_names bs)) (Inr [])"

definition results_auto_increment :: "bytes \<Rightarrow> (bytes \<times> bytes) list \<Rightarrow> changelog_error + bool" where
  "results_auto_increment table = optional_result parse_auto_increment (Inl Generic)"

definition results_rule :: "'n op_libs \<Rightarrow> bytes \<times> bytes \<Rightarrow> (bytes \<times> bytes) list \<Rightarrow> changelog_error + access_rule option" where
  "results_rule L k = optional_result (\<lambda>bs. res_bind (ok_or Generic (ol_decode_rule L bs)) (\<lambda>rule. Inr (Some rule))) (Inr None)"

definition results_gate :: "'n op_libs \<Rightarrow> bytes \<times> bytes \<Rightarrow> (bytes \<times> bytes) list \<Rightarrow> changelog_error + bytes list option" where
  "results_gate L k = optional_result (\<lambda>bs. res_bind (ok_or Generic (ol_decode_names L bs)) (\<lambda>names. Inr (Some names))) (Inr None)"

definition results_action :: "'n op_libs \<Rightarrow> bytes \<times> bytes \<Rightarrow> (bytes \<times> bytes) list \<Rightarrow> changelog_error + action option" where
  "results_action L k = optional_result (parse_action L (snd k)) (Inr None)"

definition rule_storage_key :: "bytes \<times> bytes \<Rightarrow> bytes" where
  "rule_storage_key = (\<lambda>(table, op). acl_rule_key table op)"

definition gate_storage_key :: "bytes \<times> bytes \<Rightarrow> bytes" where
  "gate_storage_key = (\<lambda>(table, op). acl_only_via_actions_key table op)"

definition act_storage_key :: "bytes \<times> bytes \<Rightarrow> bytes" where
  "act_storage_key = (\<lambda>(table, name). action_storage_key table name)"

lemmas cached_map_defs = cache_default_def static_key_def key_results_def optional_result_def res_bind_def
  results_columns_def results_names_def results_auto_increment_def results_rule_def results_gate_def results_action_def
  rule_storage_key_def gate_storage_key_def act_storage_key_def parse_auto_increment_def parse_action_def
  fetch_schema_columns_def fetch_schema_indexes_def fetch_schema_list_columns_def fetch_auto_increment_def
  fetch_acl_rule_def fetch_only_via_actions_def fetch_action_def

interpretation columns: cached_map mc_schema_columns "\<lambda>k v c. c\<lparr>mc_schema_columns := (mc_schema_columns c)(k \<mapsto> v)\<rparr>"
    fetch_schema_columns schema_columns_key results_columns
  by unfold_locales (auto simp: cached_map_defs split: list.splits sum.splits)

interpretation indexes: cached_map mc_schema_indexes "\<lambda>k v c. c\<lparr>mc_schema_indexes := (mc_schema_indexes c)(k \<mapsto> v)\<rparr>"
    fetch_schema_indexes schema_indexes_key results_names
  by unfold_locales (auto simp: cached_map_defs split: list.splits sum.splits)

interpretation list_columns: cached_map mc_schema_list_columns "\<lambda>k v c. c\<lparr>mc_schema_list_columns := (mc_schema_list_columns c)(k \<mapsto> v)\<rparr>"
    fetch_schema_list_columns schema_list_columns_key results_names
  by unfold_locales (auto simp: cached_map_defs split: list.splits sum.splits)

interpretation id_mode: cached_map mc_auto_increment "\<lambda>k v c. c\<lparr>mc_auto_increment := (mc_auto_increment c)(k \<mapsto> v)\<rparr>"
    fetch_auto_increment schema_id_mode_key results_auto_increment
  by unfold_locales (auto simp: cached_map_defs split: list.splits sum.splits)

interpretation rules: cached_map mc_acl_rules "\<lambda>k v c. c\<lparr>mc_acl_rules := (mc_acl_rules c)(k \<mapsto> v)\<rparr>"
    "fetch_acl_rule L" rule_storage_key "results_rule L" for L :: "'n op_libs"
  by unfold_locales (auto simp: cached_map_defs split: list.splits sum.splits)

interpretation gates: cached_map mc_only_via_actions "\<lambda>k v c. c\<lparr>mc_only_via_actions := (mc_only_via_actions c)(k \<mapsto> v)\<rparr>"
    "fetch_only_via_actions L" gate_storage_key "results_gate L" for L :: "'n op_libs"
  by unfold_locales (auto simp: cached_map_defs split: list.splits sum.splits)

interpretation acts: cached_map mc_actions "\<lambda>k v c. c\<lparr>mc_actions := (mc_actions c)(k \<mapsto> v)\<rparr>"
    "fetch_action L" act_storage_key "results_action L" for L :: "'n op_libs"
  by unfold_locales (auto simp: cached_map_defs split: list.splits sum.splits)

section \<open>Coherent caches\<close>

text \<open>A cache is coherent with a store when every value it holds is the one the store gives.\<close>

definition coherent :: "'n op_libs \<Rightarrow> (bytes \<times> bytes) list \<Rightarrow> meta_cache \<Rightarrow> bool" where
  "coherent L kvs c \<longleftrightarrow>
    cache_holds mc_schema_columns schema_columns_key results_columns kvs c \<and>
    cache_holds mc_schema_indexes schema_indexes_key results_names kvs c \<and>
    cache_holds mc_schema_list_columns schema_list_columns_key results_names kvs c \<and>
    cache_holds mc_auto_increment schema_id_mode_key results_auto_increment kvs c \<and>
    cache_holds mc_acl_rules rule_storage_key (results_rule L) kvs c \<and>
    cache_holds mc_only_via_actions gate_storage_key (results_gate L) kvs c \<and>
    cache_holds mc_actions act_storage_key (results_action L) kvs c"

lemma coherent_default [simp]: "coherent L kvs cache_default"
  by (simp add: coherent_def columns.holds_default indexes.holds_default list_columns.holds_default id_mode.holds_default
      rules.holds_default gates.holds_default acts.holds_default)

lemma coherent_store:
  assumes "coherent L kvs c" and "\<And>k. static_key k \<Longrightarrow> key_results kvs' k = key_results kvs k"
  shows "coherent L kvs' c"
  using assms unfolding coherent_def
  by (auto elim: columns.holds_store indexes.holds_store list_columns.holds_store id_mode.holds_store
      rules.holds_store gates.holds_store acts.holds_store)

text \<open>An operation is independent of the cache when every coherent cache gives the same result and is
  left coherent.\<close>

definition gives :: "'n op_libs \<Rightarrow> (bytes \<times> bytes) list \<Rightarrow> 'a op \<Rightarrow> meta_cache \<Rightarrow> changelog_error + 'a \<Rightarrow> bool" where
  "gives L kvs m c r \<longleftrightarrow> (case run_store kvs (m c) of
      Inl e \<Rightarrow> r = Inl e
    | Inr (a, c') \<Rightarrow> r = Inr a \<and> coherent L kvs c')"

definition cache_free :: "'n op_libs \<Rightarrow> (bytes \<times> bytes) list \<Rightarrow> 'a op \<Rightarrow> bool" where
  "cache_free L kvs m \<longleftrightarrow> (\<exists>r. \<forall>c. coherent L kvs c \<longrightarrow> gives L kvs m c r)"

lemma cache_freeI: "(\<And>c. coherent L kvs c \<Longrightarrow> gives L kvs m c r) \<Longrightarrow> cache_free L kvs m"
  unfolding cache_free_def by blast

lemma cache_free_return: "cache_free L kvs (op_return a)"
  by (rule cache_freeI [where r = "Inr a"]) (simp add: gives_def)

lemma cache_free_lift: "cache_free L kvs (op_lift r)"
  by (rule cache_freeI [where r = r]) (cases r; simp add: gives_def)

lemma cache_free_read: "cache_free L kvs (op_read q)"
  by (rule cache_freeI) (simp add: gives_def)

lemma cache_free_bind:
  assumes "cache_free L kvs m" and "\<And>a. cache_free L kvs (f a)"
  shows "cache_free L kvs (op_bind m f)"
proof -
  obtain r where r: "\<And>c. coherent L kvs c \<Longrightarrow> gives L kvs m c r"
    using assms(1) unfolding cache_free_def by blast
  obtain g where g: "\<And>a c. coherent L kvs c \<Longrightarrow> gives L kvs (f a) c (g a)"
    using assms(2) unfolding cache_free_def by metis
  show ?thesis
  proof (rule cache_freeI [where r = "res_bind r g"])
    fix c
    assume "coherent L kvs c"
    then show "gives L kvs (op_bind m f) c (res_bind r g)"
      using r [of c] g unfolding gives_def by (cases "run_store kvs (m c)"; cases r) (auto cong: sum.case_cong)
  qed
qed

lemma cache_free_ensure: "cache_free L kvs (op_ensure e b)"
  unfolding op_ensure_def by (rule cache_free_lift)

lemma cache_free_if: "cache_free L kvs m \<Longrightarrow> cache_free L kvs m' \<Longrightarrow> cache_free L kvs (if b then m else m')"
  by simp

lemma cache_free_option: "cache_free L kvs m \<Longrightarrow> (\<And>y. cache_free L kvs (f y)) \<Longrightarrow> cache_free L kvs (case x of None \<Rightarrow> m | Some y \<Rightarrow> f y)"
  by (cases x) simp_all

lemma cache_free_list: "cache_free L kvs m \<Longrightarrow> (\<And>y ys. cache_free L kvs (f y ys)) \<Longrightarrow> cache_free L kvs (case xs of [] \<Rightarrow> m | y # ys \<Rightarrow> f y ys)"
  by (cases xs) simp_all

lemma cache_free_prod: "(\<And>x y. cache_free L kvs (f x y)) \<Longrightarrow> cache_free L kvs (case p of (x, y) \<Rightarrow> f x y)"
  by (cases p) simp

lemma cache_free_fold: "(\<And>x s. cache_free L kvs (f x s)) \<Longrightarrow> cache_free L kvs (op_fold f xs s)"
  by (induction xs arbitrary: s) (simp_all add: cache_free_return cache_free_bind)

lemma cache_free_map: "(\<And>x. cache_free L kvs (f x)) \<Longrightarrow> cache_free L kvs (op_map f xs)"
  by (induction xs) (simp_all add: cache_free_return cache_free_bind)

lemmas cache_free_intros = cache_free_return cache_free_lift cache_free_read cache_free_ensure
  cache_free_bind cache_free_if cache_free_option cache_free_list cache_free_prod cache_free_fold cache_free_map

lemma gives_result:
  assumes "run_store kvs (m c) = res_bind r (\<lambda>v. Inr (v, f v))" and "\<And>v. r = Inr v \<Longrightarrow> coherent L kvs (f v)"
  shows "gives L kvs m c r"
  using assms by (cases r) (simp_all add: gives_def)

section \<open>Operations are independent of the cache\<close>

lemma cache_free_cached:
  assumes "\<And>c. coherent L kvs c \<Longrightarrow> run_store kvs (m c) = res_bind r (\<lambda>v. Inr (v, if b c then put v c else c))"
    and "\<And>c v. coherent L kvs c \<Longrightarrow> r = Inr v \<Longrightarrow> coherent L kvs (put v c)"
  shows "cache_free L kvs m"
  by (rule cache_freeI, rule gives_result, erule assms(1)) (simp add: assms(2))

lemma cache_free_read_schema_columns: "cache_free L kvs (read_schema_columns table)"
  unfolding read_schema_columns_def
  by (rule cache_free_cached, rule columns.run_cached) (simp_all add: coherent_def cache_holds_def)

lemma cache_free_read_schema_indexes: "cache_free L kvs (read_schema_indexes table)"
  unfolding read_schema_indexes_def
  by (rule cache_free_cached, rule indexes.run_cached) (simp_all add: coherent_def cache_holds_def)

lemma cache_free_read_schema_list_columns: "cache_free L kvs (read_schema_list_columns table)"
  unfolding read_schema_list_columns_def
  by (rule cache_free_cached, rule list_columns.run_cached) (simp_all add: coherent_def cache_holds_def)

lemma cache_free_read_auto_increment: "cache_free L kvs (read_auto_increment table)"
  unfolding read_auto_increment_def
  by (rule cache_free_cached, rule id_mode.run_cached) (simp_all add: coherent_def cache_holds_def)

lemma cache_free_read_acl_rule: "cache_free L kvs (read_acl_rule L table op)"
  unfolding read_acl_rule_def
  by (rule cache_free_cached, rule rules.run_cached) (simp_all add: coherent_def cache_holds_def)

lemma cache_free_read_only_via_actions: "cache_free L kvs (read_only_via_actions L table op)"
  unfolding read_only_via_actions_def
  by (rule cache_free_cached, rule gates.run_cached) (simp_all add: coherent_def cache_holds_def)

lemma cache_free_read_action: "cache_free L kvs (read_action L table name)"
  unfolding read_action_def
  by (rule cache_free_cached, rule acts.run_cached) (simp_all add: coherent_def cache_holds_def)

lemmas cache_free_metadata = cache_free_read_schema_columns cache_free_read_schema_indexes cache_free_read_schema_list_columns
  cache_free_read_auto_increment cache_free_read_acl_rule cache_free_read_only_via_actions cache_free_read_action

named_theorems cache_free_helpers \<open>helpers of the operations that do not depend on the cache\<close>

lemma cache_free_user_access [cache_free_helpers]:
  "cache_free L kvs (read_user_status L uid)"
  "cache_free L kvs (validate_user_access L entry op)"
  unfolding validate_user_access_def read_user_status_def Let_def
  by (rule cache_free_intros)+

lemma cache_free_row_reads [cache_free_helpers]:
  "cache_free L kvs (read_next_id table)"
  "cache_free L kvs (verify_row_absent table row_id)"
  "cache_free L kvs (verify_row_present table row_id)"
  "cache_free L kvs (verify_column_present key)"
  "cache_free L kvs (verify_column_absent key)"
  "cache_free L kvs (read_indexed_row_ids table column i)"
  "cache_free L kvs (read_columns_from_tree L table row_id needed)"
  unfolding read_next_id_def verify_row_absent_def verify_row_present_def verify_column_present_def verify_column_absent_def
    read_indexed_row_ids_def read_columns_from_tree_def read_column_from_tree_def
  by (rule cache_free_intros)+

lemma cache_free_gates [cache_free_helpers]:
  "cache_free L kvs (enforce_only_via_actions L table op_str ctx)"
  "cache_free L kvs (enforce_dispatch_gating L entry ctx)"
  unfolding enforce_dispatch_gating_def enforce_only_via_actions_def Let_def
  by (rule cache_free_intros cache_free_metadata)+

lemma cache_free_index_puts [cache_free_helpers]:
  "cache_free L kvs (append_insert_index_puts L batch_ops table row_id kvds)"
  "cache_free L kvs (append_insert_index_puts_parsed_skip L batch_ops x es skip)"
  "cache_free L kvs (append_multi_row_insert_index_puts L batch_ops table keys kvds)"
  unfolding append_insert_index_puts_def append_insert_index_puts_parsed_skip_def append_multi_row_insert_index_puts_def
    append_insert_index_puts_skip_def append_chunk_index_puts_def split_def Let_def
  by (rule cache_free_intros cache_free_metadata)+

lemma cache_free_check_row_columns [cache_free_helpers]: "cache_free L kvs (check_row_columns L table row_id cs)"
  by (induction cs) (auto intro!: cache_free_intros)

lemma cache_free_assertions [cache_free_helpers]:
  "cache_free L kvs (resolve_exists_in_op L table inner uid self_row)"
  unfolding resolve_exists_in_op_def intersect_indexed_def split_def
  by (rule cache_free_intros cache_free_helpers)+

lemma cache_free_evaluate_assertion [cache_free_helpers]: "cache_free L kvs (evaluate_assertion L a uid self_row)"
  by (induction a) (auto intro!: cache_free_intros cache_free_helpers)

lemma cache_free_action_asserts [cache_free_helpers]: "cache_free L kvs (evaluate_action_asserts L asserts self_row uid)"
  unfolding evaluate_action_asserts_def by (rule cache_free_intros cache_free_helpers)+

lemma cache_free_insert_helpers [cache_free_helpers]:
  "cache_free L kvs (insert_row_id table row auto)"
  "cache_free L kvs (read_list_number_base list_cols)"
  "cache_free L kvs (insert_acl L entry table row)"
  unfolding insert_row_id_def read_list_number_base_def insert_acl_def Let_def
  by (rule cache_free_intros cache_free_metadata cache_free_helpers | (split insert_id.split, intro allI conjI impI))+

lemma cache_free_insert_op: "cache_free L kvs (insert_op L entry ctx)"
  unfolding insert_op_def Let_def
  by (rule cache_free_intros cache_free_metadata cache_free_helpers)+

lemma cache_free_update_op: "cache_free L kvs (update_op L entry ctx)"
  unfolding update_op_def read_old_value_def split_def Let_def
  by (rule cache_free_intros cache_free_metadata cache_free_helpers)+

lemma cache_free_delete_op: "cache_free L kvs (delete_op L entry ctx)"
  unfolding delete_op_def delete_acl_row_def delete_index_entry_def Let_def
  by (rule cache_free_intros cache_free_metadata cache_free_helpers)+

lemma cache_free_list_helpers [cache_free_helpers]:
  "cache_free L kvs (read_i64_key key)"
  "cache_free L kvs (read_i64_column L row_id column)"
  "cache_free L kvs (read_list_number L row_id)"
  "cache_free L kvs (resolve_list_parent list_number)"
  "cache_free L kvs (list_acl_check L table row_id uid access)"
  "cache_free L kvs (list_number_index_put L list_number row_id)"
  "cache_free L kvs (insert_links L new_id list_number predecessor_id v)"
  unfolding insert_links_def read_list_number_def read_i64_key_def read_i64_column_def resolve_list_parent_def list_acl_check_def
    list_number_index_put_def Let_def
  by (rule cache_free_intros cache_free_metadata cache_free_helpers)+

lemma cache_free_list_ops:
  "cache_free L kvs (list_append_op L entry ctx)"
  "cache_free L kvs (list_insert_op L entry ctx)"
  "cache_free L kvs (list_update_op L entry ctx)"
  "cache_free L kvs (list_delete_op L entry ctx)"
  unfolding list_append_op_def list_insert_op_def list_update_op_def list_delete_op_def Let_def
  by (rule cache_free_intros cache_free_metadata cache_free_helpers)+

lemma cache_free_member_helpers [cache_free_helpers]:
  "cache_free L kvs (append_retention L kvds batch_ops)"
  "cache_free L kvs (insert_user kvds)"
  "cache_free L kvs (check_user_columns kvds)"
  "cache_free L kvs (check_old_auth_key kvds uid)"
  "cache_free L kvs (read_kh_ranges_indexed L uid)"
  unfolding append_retention_def insert_user_def check_user_columns_def check_old_auth_key_def read_kh_ranges_indexed_def
    read_kh_range_def split_def prod.case Let_def
  by (rule cache_free_intros cache_free_metadata cache_free_helpers)+

lemma cache_free_member_ops:
  "cache_free L kvs (retention_op L op entry)"
  "cache_free L kvs (create_space_op L entry ctx)"
  "cache_free L kvs (invite_user_op L entry ctx)"
  "cache_free L kvs (refresh_keys_op L entry ctx)"
  "cache_free L kvs (remove_user_op L entry ctx)"
  unfolding retention_op_def create_space_op_def invite_user_op_def refresh_keys_op_def remove_user_op_def Let_def
  by (rule cache_free_intros cache_free_metadata cache_free_helpers)+

lemma cache_free_cascade: "cache_free L kvs (dispatch_cascade_delete L table wc sc self_row)"
  unfolding dispatch_cascade_delete_def cascade_row_def delete_index_entry_def
  by (rule cache_free_intros cache_free_metadata cache_free_helpers)+

lemma cache_free_run_leg [cache_free_helpers]: "cache_free L kvs (run_leg L entry ctx self_row leg kvds)"
  unfolding run_leg_def
  by (cases leg) (auto intro!: cache_free_intros cache_free_helpers cache_free_insert_op cache_free_update_op cache_free_delete_op
      cache_free_cascade)

lemma cache_free_action_op: "cache_free L kvs (action_op L entry ctx)"
  unfolding action_op_def split_def Let_def
  by (rule cache_free_intros cache_free_metadata cache_free_helpers)+

lemma cache_free_dispatch: "cache_free L kvs (dispatch_extract_and_validate L entry ctx)"
  unfolding dispatch_extract_and_validate_def extend_op_def reduce_op_def rekey_op_def
  by (rule cache_free_bind, rule cache_free_gates, cases "lm_op_type (ce_message entry)")
    (simp_all add: cache_free_return cache_free_insert_op cache_free_update_op cache_free_delete_op cache_free_list_ops
      cache_free_member_ops cache_free_action_op)

section \<open>Writes keep a cache coherent\<close>

lemma fold_store_op_other: "\<forall>b \<in> set ops. batch_op_key b \<noteq> k \<Longrightarrow> fold store_op ops m k = m k"
proof (induction ops arbitrary: m)
  case (Cons b ops)
  then show ?case
    by (cases b) auto
qed simp

lemma key_results_write_ops:
  assumes "sorted_map kvs" and "dynamic_ops ops" and "static_key k"
  shows "key_results (fold write_op ops kvs) k = key_results kvs k"
proof -
  have "fold store_op ops (map_of kvs) k = map_of kvs k"
    using assms(2,3) by (intro fold_store_op_other) auto
  then show ?thesis
    using write_ops [OF assms(1), of ops] assms(1)
    by (simp add: key_results_def filter_key_map_of strict_sorted_iff)
qed

lemma dynamic_result_flatten: "dynamic_result res \<Longrightarrow> flatten_write_steps res = Inr writes \<Longrightarrow> dynamic_ops writes"
  by (fastforce simp: dynamic_result_def flatten_write_steps_iff)

lemma coherent_finish_change: "coherent L kvs c \<Longrightarrow> coherent L kvs (finish_change op c)"
proof -
  have "cache_clear c = cache_default"
    by (simp add: cache_clear_def cache_default_def)
  then show "coherent L kvs c \<Longrightarrow> coherent L kvs (finish_change op c)"
    by (simp add: finish_change_def)
qed

section \<open>Replaying a sequence of changes\<close>

definition forget_cache :: "chain \<Rightarrow> chain" where
  "forget_cache c = c\<lparr>cn_cache := cache_default\<rparr>"

text \<open>Two states that differ in coherent caches only.\<close>

definition cache_variant :: "'n op_libs \<Rightarrow> chain \<Rightarrow> chain \<Rightarrow> bool" where
  "cache_variant OL c d \<longleftrightarrow> forget_cache c = forget_cache d \<and> sorted_map (cn_store c) \<and>
    coherent OL (cn_store c) (cn_cache c) \<and> coherent OL (cn_store d) (cn_cache d)"

lemma cache_variant_fields:
  "cache_variant OL c d \<Longrightarrow> cn_leaves d = cn_leaves c \<and> cn_store d = cn_store c \<and> cn_sigrefs d = cn_sigrefs c \<and> cn_hwm d = cn_hwm c"
  by (cases c; cases d) (simp add: cache_variant_def forget_cache_def)

lemma cache_variant_runs:
  assumes v: "cache_variant OL c d"
  shows "rel_sum (=) (\<lambda>(r, c') (r', d'). r = r' \<and> coherent OL (cn_store c) c' \<and> coherent OL (cn_store c) d')
    (run_store (cn_store c) (dispatch_extract_and_validate OL e ctx (cn_cache c)))
    (run_store (cn_store d) (dispatch_extract_and_validate OL e ctx (cn_cache d)))"
proof -
  obtain r where "\<And>x. coherent OL (cn_store c) x \<Longrightarrow> gives OL (cn_store c) (dispatch_extract_and_validate OL e ctx) x r"
    using cache_free_dispatch [of OL "cn_store c" e ctx] unfolding cache_free_def by blast
  from this [of "cn_cache c"] this [of "cn_cache d"] show ?thesis
    using v cache_variant_fields [OF v] unfolding gives_def cache_variant_def
    by (auto split: sum.splits)
qed

lemma cache_variant_replay_entry:
  assumes v: "cache_variant OL c d"
  shows "rel_option (cache_variant OL) (replay_entry L (dispatch_extract_and_validate OL) bs c)
    (replay_entry L (dispatch_extract_and_validate OL) bs d)"
proof -
  note fields = cache_variant_fields [OF v]
  have bound: "entry_bound L d e \<longleftrightarrow> entry_bound L c e" for e
    using fields by (simp add: entry_bound_def)
  have sorted: "sorted_map (cn_store c)"
    using v by (simp add: cache_variant_def)
  have "cache_variant OL
      \<lparr>cn_leaves = xs, cn_store = fold write_op writes (cn_store c), cn_cache = finish_change op c', cn_sigrefs = sr, cn_hwm = hwm\<rparr>
      \<lparr>cn_leaves = xs, cn_store = fold write_op writes (cn_store c), cn_cache = finish_change op d', cn_sigrefs = sr, cn_hwm = hwm\<rparr>"
    if "run_store (cn_store c) (dispatch_extract_and_validate OL e ctx (cn_cache c)) = Inr (res, c')"
      "flatten_write_steps res = Inr writes" "coherent OL (cn_store c) c'" "coherent OL (cn_store c) d'"
    for e ctx res c' d' writes op xs sr hwm
  proof -
    have "dynamic_ops writes"
      using that(1,2) op_all_run [OF dispatch_dynamic] dynamic_result_flatten unfolding run_store_def by blast
    then have "coherent OL (fold write_op writes (cn_store c)) (finish_change op x)" if "coherent OL (cn_store c) x" for x
      using coherent_store [OF coherent_finish_change [OF that]] key_results_write_ops [OF sorted] by blast
    then show ?thesis
      using that(3,4) write_ops [OF sorted, of writes] by (simp add: cache_variant_def forget_cache_def)
  qed
  note step = this
  show ?thesis
  proof (cases "from_bytes_for_verification (usize_max L) bs")
    case (Inr e)
    let ?run = "\<lambda>c. run_store (cn_store c) (dispatch_extract_and_validate OL e (for_change_id (length (cn_leaves c))) (cn_cache c))"
    have "rel_sum (=) (\<lambda>(r, c') (r', d'). r = r' \<and> coherent OL (cn_store c) c' \<and> coherent OL (cn_store c) d') (?run c) (?run d)"
      using cache_variant_runs [OF v] fields by simp
    then show ?thesis
    proof cases
      case (2 x y)
      obtain res c' d' where "?run c = Inr (res, c')" "?run d = Inr (res, d')" "coherent OL (cn_store c) c'" "coherent OL (cn_store c) d'"
        using 2 by (cases x; cases y) auto
      then show ?thesis
        using Inr fields bound step [of e "for_change_id (length (cn_leaves c))" res c' _ d']
        by (cases "flatten_write_steps res") (simp_all add: replay_entry_def Let_def split_def)
    qed (use Inr fields bound in \<open>simp add: replay_entry_def Let_def split_def\<close>)
  qed (simp add: replay_entry_def)
qed

lemma cache_variant_replay:
  "cache_variant OL c d \<Longrightarrow> rel_option (cache_variant OL) (replay L (dispatch_extract_and_validate OL) es c)
    (replay L (dispatch_extract_and_validate OL) es d)"
proof (induction es arbitrary: c d)
  case (Cons bs es)
  then show ?case
    using cache_variant_replay_entry [OF Cons.prems, of L bs] by (auto elim!: option.rel_cases)
qed simp

lemma cache_variant_reset: "cache_variant OL c d \<Longrightarrow> cache_variant OL (c\<lparr>cn_cache := cache_default\<rparr>) d"
  by (cases c; cases d) (simp add: cache_variant_def forget_cache_def)

lemma cache_variant_chunks:
  "cache_variant OL c d \<Longrightarrow> rel_option (cache_variant OL) (replay_chunks L (dispatch_extract_and_validate OL) chunks c)
    (replay L (dispatch_extract_and_validate OL) (concat chunks) d)"
proof (induction chunks arbitrary: c d)
  case (Cons es chunks)
  then show ?case
    using cache_variant_replay [OF cache_variant_reset [OF Cons.prems], of L es]
    by (auto simp: replay_append elim!: option.rel_cases)
qed simp

section \<open>The metadata cache is transparent\<close>

text \<open>C12: The metadata cache does not influence verification. The fast-forward guest keeps one cache over
  the changes of a chunk and starts every chunk with an empty one. However the changes are divided into
  chunks -- in particular into chunks of one change, where the cache is never reused across changes -- the
  same sequence is accepted or rejected, and it leads to the same leaves, entries, signature references
  and high-water mark.\<close>

theorem chunking_irrelevant:
  assumes "sorted_map (cn_store c)" and "concat chunks = concat chunks'"
  shows "map_option forget_cache (replay_chunks L (dispatch_extract_and_validate OL) chunks c) =
    map_option forget_cache (replay_chunks L (dispatch_extract_and_validate OL) chunks' c)"
proof -
  let ?d = "c\<lparr>cn_cache := cache_default\<rparr>"
  have "map_option forget_cache (replay_chunks L (dispatch_extract_and_validate OL) cs c) =
      map_option forget_cache (replay L (dispatch_extract_and_validate OL) (concat cs) ?d)" for cs
  proof (cases cs)
    case (Cons es rest)
    have "cache_variant OL ?d ?d"
      using assms(1) by (simp add: cache_variant_def)
    then have "rel_option (cache_variant OL) (replay_chunks L (dispatch_extract_and_validate OL) cs ?d)
        (replay L (dispatch_extract_and_validate OL) (concat cs) ?d)"
      by (rule cache_variant_chunks)
    then show ?thesis
      using Cons by (auto simp: cache_variant_def elim!: option.rel_cases)
  qed (simp add: forget_cache_def)
  then show ?thesis
    using assms(2) by simp
qed

definition noop_entry :: changelog_entry where
  "noop_entry = default_entry\<lparr>ce_message := \<lparr>lm_op_type = Op_Noop, lm_tree_path = [], lm_entries = []\<rparr>\<rparr>"

lemma noop_fields:
  "ce_timestamp noop_entry = 0" "ce_uid noop_entry = 0" "ce_sig_ref noop_entry = 0" "ce_parent_change noop_entry = 0"
  "ce_parent_clc noop_entry = 0" "lm_op_type (ce_message noop_entry) = Op_Noop"
  by (simp_all add: noop_entry_def default_entry_def)

lemma noop_wire: "from_bytes_for_verification 4294967295 (entry_wire noop_entry) = Inr noop_entry"
proof -
  have "entry_sized noop_entry"
    by (simp add: entry_sized_def noop_entry_def default_entry_def)
  moreover have "length (entry_wire noop_entry) = 40"
    by (simp add: noop_entry_def default_entry_def entry_wire_def vec_wire_def varint_bytes.simps digest_bytes_def)
  ultimately show ?thesis
    using decode_entry_wire [of noop_entry 4294967295 False]
    by (simp add: from_bytes_for_verification_def noop_entry_def default_entry_def)
qed

theorem chunking_irrelevant_witness:
  "\<exists>c. replay_chunks flat_libs (dispatch_extract_and_validate plain_libs) [[entry_wire noop_entry]] (genesis flat_libs 12 [([2], [9])]) = Some c \<and>
    length (cn_leaves c) = 2 \<and>
    map_option forget_cache (replay_chunks flat_libs (dispatch_extract_and_validate plain_libs) [[], [entry_wire noop_entry], []]
      (genesis flat_libs 12 [([2], [9])])) = Some (forget_cache c)"
proof -
  let ?g = "genesis flat_libs 12 [([2], [9])]"
  have "\<exists>c. replay_chunks flat_libs (dispatch_extract_and_validate plain_libs) [[entry_wire noop_entry]] ?g = Some c \<and> length (cn_leaves c) = 2"
    by (simp add: replay_entry_def genesis_def chain_start_def noop_wire flat_libs_def small_libs_def Let_def entry_bound_def
      validate_timestamp_hwm_def dispatch_extract_and_validate_def enforce_dispatch_gating_def gated_operation_def
      flatten_write_steps_def noop_fields tree_root_def subtree_root.simps h_init_def)
  moreover have "sorted_map (cn_store ?g)"
    by (simp add: genesis_def chain_start_def)
  ultimately show ?thesis
    using chunking_irrelevant [of ?g "[[entry_wire noop_entry]]" "[[], [entry_wire noop_entry], []]" flat_libs plain_libs]
    by auto
qed

end
