(* ===== verification/Ops_Logic.thy ===== *)
theory Ops_Logic
  imports Ops_Cache
begin

text \<open>
  A logic of accepted operations.  \<open>op_value\<close> is what an operation computes on a store, without a cache;
  \<open>op_post\<close> states what holds when an operation succeeds.  The rule for sequential composition keeps the
  value of the first part as a fact, so that the checks of an operation become the assumptions under which
  it returns.
\<close>

section \<open>Values\<close>

definition op_value :: "(bytes \<times> bytes) list \<Rightarrow> 'a op \<Rightarrow> changelog_error + 'a" where
  "op_value kvs m = res_bind (run_store kvs (m cache_default)) (\<lambda>(a, _). Inr a)"

definition op_post :: "'n op_libs \<Rightarrow> (bytes \<times> bytes) list \<Rightarrow> 'a op \<Rightarrow> ('a \<Rightarrow> bool) \<Rightarrow> bool" where
  "op_post L kvs m Q \<longleftrightarrow> (\<forall>c a c'. coherent L kvs c \<longrightarrow> run_store kvs (m c) = Inr (a, c') \<longrightarrow> Q a)"

lemma op_value_simps [simp]:
  "op_value kvs (op_return a) = Inr a"
  "op_value kvs (op_lift r) = r"
  "op_value kvs (op_ensure e b) = (if b then Inr () else Inl e)"
  "op_value kvs (op_read q) = Inr (filter (\<lambda>(k, _). read_selects q k) kvs)"
  by (simp_all add: op_value_def) (cases r; simp)

lemma cache_free_run:
  assumes "cache_free L kvs m" and "coherent L kvs c"
  shows "res_bind (run_store kvs (m c)) (\<lambda>(a, _). Inr a) = op_value kvs m"
    and "run_store kvs (m c) = Inr (a, c') \<Longrightarrow> coherent L kvs c'"
proof -
  obtain r where r: "\<And>c. coherent L kvs c \<Longrightarrow> gives L kvs m c r"
    using assms(1) unfolding cache_free_def by blast
  show "res_bind (run_store kvs (m c)) (\<lambda>(a, _). Inr a) = op_value kvs m"
    using r [OF assms(2)] r [OF coherent_default] unfolding gives_def op_value_def
    by (auto split: sum.splits)
  show "run_store kvs (m c) = Inr (a, c') \<Longrightarrow> coherent L kvs c'"
    using r [OF assms(2)] by (simp add: gives_def)
qed

lemma op_value_bind:
  assumes "cache_free L kvs m" and "\<And>a. cache_free L kvs (f a)"
  shows "op_value kvs (op_bind m f) = res_bind (op_value kvs m) (\<lambda>a. op_value kvs (f a))"
proof (cases "run_store kvs (m cache_default)")
  case (Inr x)
  obtain a c' where x: "x = (a, c')"
    by (cases x)
  then have "coherent L kvs c'"
    using cache_free_run(2) [OF assms(1) coherent_default] Inr by blast
  from cache_free_run(1) [OF assms(2) this, of a] show ?thesis
    using Inr x by (simp add: op_value_def)
qed (simp add: op_value_def)

lemma op_value_fold:
  assumes "\<And>x s. cache_free L kvs (f x s)"
  shows "op_value kvs (op_fold f xs s) = fold_res (\<lambda>x s. op_value kvs (f x s)) xs s"
  by (induction xs arbitrary: s) (simp_all add: op_value_bind [of L] cache_free_fold assms)

lemma op_value_map:
  assumes "\<And>x. cache_free L kvs (f x)"
  shows "op_value kvs (op_map f xs) = map_res (\<lambda>x. op_value kvs (f x)) xs"
  by (induction xs) (simp_all add: op_value_bind [of L] cache_free_bind cache_free_return cache_free_map assms)

section \<open>Postconditions\<close>

lemma op_post_run: "op_post L kvs m Q \<Longrightarrow> coherent L kvs c \<Longrightarrow> run_store kvs (m c) = Inr (a, c') \<Longrightarrow> Q a"
  unfolding op_post_def by blast

lemma op_post_value: "op_post L kvs m Q \<Longrightarrow> op_value kvs m = Inr a \<Longrightarrow> Q a"
  by (auto simp: op_value_def res_bind_Inr_iff elim: op_post_run [OF _ coherent_default])

lemma op_post_bind:
  assumes "cache_free L kvs m" and "\<And>a. op_value kvs m = Inr a \<Longrightarrow> op_post L kvs (f a) Q"
  shows "op_post L kvs (op_bind m f) Q"
  unfolding op_post_def
proof (intro allI impI)
  fix c b c'
  assume c: "coherent L kvs c" and "run_store kvs (op_bind m f c) = Inr (b, c')"
  then obtain a c1 where m: "run_store kvs (m c) = Inr (a, c1)" and f: "run_store kvs (f a c1) = Inr (b, c')"
    by (auto simp: res_bind_Inr_iff)
  moreover have "coherent L kvs c1" "op_value kvs m = Inr a"
    using cache_free_run [OF assms(1) c] m by auto
  ultimately show "Q b"
    using assms(2) [of a] unfolding op_post_def by blast
qed

lemma op_post_ensure: "(b \<Longrightarrow> op_post L kvs (f ()) Q) \<Longrightarrow> op_post L kvs (op_bind (op_ensure e b) f) Q"
  by (rule op_post_bind [OF cache_free_ensure]) (auto split: if_splits)

lemma op_post_lift: "(\<And>a. r = Inr a \<Longrightarrow> op_post L kvs (f a) Q) \<Longrightarrow> op_post L kvs (op_bind (op_lift r) f) Q"
  by (rule op_post_bind [OF cache_free_lift]) auto

lemma op_post_return: "Q a \<Longrightarrow> op_post L kvs (op_return a) Q"
  by (simp add: op_post_def)

lemma op_post_fail: "op_post L kvs (op_lift (Inl e)) Q"
  by (simp add: op_post_def)

lemma op_post_lifted: "(\<And>a. r = Inr a \<Longrightarrow> Q a) \<Longrightarrow> op_post L kvs (op_lift r) Q"
  by (cases r) (simp_all add: op_post_def)

lemma op_post_any:
  assumes "cache_free L kvs m" and "\<And>a. op_value kvs m = Inr a \<Longrightarrow> Q a"
  shows "op_post L kvs m Q"
  unfolding op_post_def using cache_free_run(1) [OF assms(1)] assms(2) by fastforce

section \<open>Values of the metadata readers\<close>

lemma op_value_cached:
  "op_value kvs (read_schema_columns table) = results_columns table (key_results kvs (schema_columns_key table))"
  "op_value kvs (read_schema_indexes table) = results_names table (key_results kvs (schema_indexes_key table))"
  "op_value kvs (read_schema_list_columns table) = results_names table (key_results kvs (schema_list_columns_key table))"
  "op_value kvs (read_auto_increment table) = results_auto_increment table (key_results kvs (schema_id_mode_key table))"
  "op_value kvs (read_acl_rule L table op) = results_rule L (table, op) (key_results kvs (acl_rule_key table op))"
  "op_value kvs (read_only_via_actions L table op) = results_gate L (table, op) (key_results kvs (acl_only_via_actions_key table op))"
  "op_value kvs (read_action L table name) = results_action L (table, name) (key_results kvs (action_storage_key table name))"
  unfolding op_value_def read_schema_columns_def read_schema_indexes_def read_schema_list_columns_def read_auto_increment_def
    read_acl_rule_def read_only_via_actions_def read_action_def
    columns.run_cached [OF columns.holds_default] indexes.run_cached [OF indexes.holds_default]
    list_columns.run_cached [OF list_columns.holds_default] id_mode.run_cached [OF id_mode.holds_default]
    rules.run_cached [OF rules.holds_default] gates.run_cached [OF gates.holds_default] acts.run_cached [OF acts.holds_default]
  by (simp_all add: res_bind_def rule_storage_key_def gate_storage_key_def act_storage_key_def split: sum.splits)

lemma key_results_sorted:
  "sorted_map kvs \<Longrightarrow> key_results kvs k = (case map_of kvs k of Some v \<Rightarrow> [(k, v)] | None \<Rightarrow> [])"
  by (simp add: key_results_def filter_key_map_of strict_sorted_iff)

lemma op_value_read_key:
  "sorted_map kvs \<Longrightarrow> op_value kvs (op_read (ReadKey k)) = Inr (case map_of kvs k of Some v \<Rightarrow> [(k, v)] | None \<Rightarrow> [])"
  using key_results_sorted [of kvs k] by (simp add: key_results_def)

end
