(* ===== verification/Ops_Example.thy ===== *)
theory Ops_Example
  imports Ops_Logic
begin

text \<open>
  A small space, on which the theorems about operations are applied: stores given by a list of entries,
  the reads of their keys, and an accepted insertion.
\<close>

section \<open>An example store\<close>

definition store_of_list :: "(bytes \<times> bytes) list \<Rightarrow> (bytes \<times> bytes) list" where
  "store_of_list xs = fold write_op (map (\<lambda>(k, v). BPut k v) xs) []"

lemma store_of_list:
  shows "sorted_map (store_of_list xs)"
    and "map_of (store_of_list xs) = fold store_op (map (\<lambda>(k, v). BPut k v) xs) Map.empty"
  using write_ops [of "[]" "map (\<lambda>(k, v). BPut k v) xs"] by (simp_all add: store_of_list_def)

text \<open>A space with an active user and an application table with one column.\<close>

definition user_status_key :: "u32 \<Rightarrow> bytes" where
  "user_status_key uid = column_key USERS_TABLE (ucast uid) (str ''status'')"

definition demo_store :: "(bytes \<times> bytes) list" where
  "demo_store = store_of_list
    [(user_status_key 1, u64_to_be_bytes 1),
     (schema_columns_key (str ''t''), str ''v''),
     (schema_id_mode_key (str ''t''), [0])]"

definition demo_insert :: changelog_entry where
  "demo_insert = default_entry\<lparr>ce_uid := 1, ce_message := \<lparr>lm_op_type = Op_Insert, lm_tree_path = [],
    lm_entries = [\<lparr>kv_key = column_key (str ''t'') 0 (str ''v''), kv_value = [7]\<rparr>]\<rparr>\<rparr>"

lemma demo_reads:
  "key_results demo_store (user_status_key 1) = [(user_status_key 1, u64_to_be_bytes 1)]"
  "key_results demo_store (schema_columns_key (str ''t'')) = [(schema_columns_key (str ''t''), str ''v'')]"
  "key_results demo_store (schema_id_mode_key (str ''t'')) = [(schema_id_mode_key (str ''t''), [0])]"
  "key_results demo_store (schema_next_id_key (str ''t'')) = []"
  "key_results demo_store (schema_indexes_key (str ''t'')) = []"
  "key_results demo_store (schema_list_columns_key (str ''t'')) = []"
  "key_results demo_store (acl_rule_key (str ''t'') op) = []"
  "key_results demo_store (acl_only_via_actions_key (str ''t'') op) = []"
  unfolding demo_store_def key_results_sorted [OF store_of_list(1)] store_of_list(2) user_status_key_def
  by (simp_all add: builder_defs tuple_codec.encode_eq_iff str_inject USERS_TABLE_def TAG_ROW_def TAG_SCHEMA_def)

lemma parse_column_key_ref_column_key:
  assumes "valid_utf8 t" "valid_utf8 c"
  shows "parse_column_key_ref (column_key t r c) = Inr (t, r, c)"
proof -
  have "decode_tuple (column_key t r c) = Inr [TBytes TAG_ROW, TBytes t, TInt r, TBytes c]"
    by (simp add: column_key_def tuple_decode_encode)
  then show ?thesis
    using assms unfolding parse_column_key_ref_chain decode_tuple_consumed4 by blast
qed

lemma demo_entry_keys:
  "parse_key (column_key (str ''t'') 0 (str ''v'')) = Inr (PColumn (str ''t'') 0 (str ''v''))"
  "parse_column_key_ref (column_key (str ''t'') 0 (str ''v'')) = Inr (str ''t'', 0, str ''v'')"
  by (simp_all add: parse_key_row(3) parse_column_key_ref_column_key str_def)

lemma demo_insert_fields:
  "ce_uid demo_insert = 1" "lm_op_type (ce_message demo_insert) = Op_Insert"
  "lm_entries (ce_message demo_insert) = [\<lparr>kv_key = column_key (str ''t'') 0 (str ''v''), kv_value = [7]\<rparr>]"
  by (simp_all add: demo_insert_def)

lemma demo_insert_checks:
  "validate_sorted_entries demo_insert = Inr ()"
  "parse_column_entries demo_insert = Inr [\<lparr>pe_kv = \<lparr>kv_key = column_key (str ''t'') 0 (str ''v''), kv_value = [7]\<rparr>,
      pe_key = column_key (str ''t'') 0 (str ''v''), pe_table = str ''t'', pe_row_id = 0, pe_column = str ''v''\<rparr>]"
  "validate_max_entries demo_insert = Inr ()"
  by (simp_all add: validate_sorted_entries_def parse_column_entries_def parse_column_entry_def demo_insert_fields demo_entry_keys
      validate_max_entries_def MAX_LOGMSG_ENTRIES_def ensure_def)

lemma demo_table:
  "validate_not_internal_table (str ''t'') = Inr ()"
  "is_internal_table (str ''t'') = False"
  by (simp_all add: validate_not_internal_table_def is_internal_table_def str_def USERS_TABLE_def RETENTION_TABLE_def
      KEY_HISTORY_TABLE_def ensure_def)

lemma demo_insert_gate: "op_value demo_store (enforce_dispatch_gating plain_libs demo_insert ctx) = Inr ()"
  by (simp add: enforce_dispatch_gating_def gated_operation_def demo_insert_fields column_keys_from_entry_def
      table_from_column_keys_def demo_entry_keys demo_table enforce_only_via_actions_def op_value_bind [of plain_libs] cache_free_intros
      cache_free_metadata op_value_cached demo_reads results_gate_def optional_result_def)

lemma demo_user: "op_value demo_store (validate_user_access plain_libs demo_insert op) = Inr ()"
  using demo_reads(1)
  by (simp add: validate_user_access_def read_user_status_def op_value_bind [of plain_libs] cache_free_intros user_status_key_def
    demo_insert_fields key_results_def parse_i64_column_value_def plain_libs_def bytes_to_value_def is_provisional_status_def)

lemma demo_columns: "decode_column_names (str ''v'') = Some [str ''v'']"
  by (simp add: decode_column_names_def str_def btree_set_def)

lemma insert_row_id_value:
  "op_value kvs (insert_row_id table row auto) =
    res_bind (map_err (\<lambda>_. KeyMismatch) (classify_insert_id (Some row) auto)) (\<lambda>insert_id.
      case insert_id of AutoAssign \<Rightarrow> op_value kvs (read_next_id table) | Explicit signed_id \<Rightarrow> Inr signed_id)"
  unfolding insert_row_id_def
  by (subst op_value_bind [of undefined]) (auto intro!: cache_free_intros cache_free_helpers res_bind_cong split: insert_id.split)

lemma demo_insert_row: "op_value demo_store (insert_row_id (str ''t'') 0 True) = Inr 1"
  using demo_reads(4)
  by (simp add: insert_row_id_value classify_insert_id_def validate_insert_id_def op_value_bind [of plain_libs] cache_free_intros
      read_next_id_def key_results_def)

lemma demo_insert_acl: "op_value demo_store (insert_acl plain_libs demo_insert (str ''t'') 1) = Inr ()"
  by (simp add: insert_acl_def o_def Let_def op_value_bind [of plain_libs] cache_free_intros cache_free_metadata op_value_cached demo_reads
      results_rule_def optional_result_def)

lemma demo_insert_accepted:
  "op_value demo_store (dispatch_extract_and_validate plain_libs demo_insert ctx) =
    Inr \<lparr>write_steps = [TWrite [BPut (column_key (str ''t'') 1 (str ''v'')) [7], next_id_put (str ''t'') 2]]\<rparr>"
  by (simp add: dispatch_extract_and_validate_def demo_insert_fields insert_op_def Let_def demo_insert_checks demo_table
      op_value_bind [of plain_libs] cache_free_intros cache_free_metadata cache_free_helpers cache_free_insert_op demo_insert_gate
      validate_same_table_row_def op_value_cached demo_reads results_columns_def results_names_def results_auto_increment_def
      optional_result_def parse_auto_increment_def demo_insert_row demo_user demo_columns column_name_set_def btree_set_def
      check_list_placeholders_def read_list_number_base_def demo_insert_acl insert_column_put_def to_batch_op_def
      append_insert_index_puts_parsed_skip_def next_id_after_def i64_checked_add_def list_metadata_puts_def)

end
