(* ===== verification/Ops_Auth.thy ===== *)
theory Ops_Auth
  imports Ops_Example
begin

text \<open>
  Authorization.  What the store says about the user and the table when an operation is accepted: the
  acting user exists and is not provisional, a direct write touches one application table that is not
  reserved for actions, and the rule of the table allows the inserted values, or the rows that are
  updated or deleted as they are stored.
\<close>

section \<open>The acting user\<close>

definition known_user :: "(bytes \<times> bytes) list \<Rightarrow> u32 \<Rightarrow> bool" where
  "known_user kvs uid \<longleftrightarrow> map_of kvs (user_status_key uid) \<noteq> None"

definition active_user :: "'n op_libs \<Rightarrow> (bytes \<times> bytes) list \<Rightarrow> u32 \<Rightarrow> bool" where
  "active_user L kvs uid \<longleftrightarrow> (\<exists>v. map_of kvs (user_status_key uid) = Some v \<and> parse_i64_column_value L v \<noteq> Some 0)"

lemma validate_user_access_value:
  assumes "sorted_map kvs"
  shows "op_value kvs (validate_user_access L entry op) = Inr () \<longleftrightarrow>
    (if op = Op_RefreshKeys then known_user kvs (ce_uid entry) else active_user L kvs (ce_uid entry))"
proof -
  have "op_value kvs (read_user_status L uid) = (case map_of kvs (user_status_key uid) of
      Some v \<Rightarrow> Inr (parse_i64_column_value L v) | None \<Rightarrow> Inl Generic)" for uid
    unfolding read_user_status_def user_status_key_def [symmetric]
    by (subst op_value_bind [of L])
      (auto simp: op_value_read_key [OF assms] simp del: op_value_simps(4) intro: cache_free_intros split: option.splits)
  then show ?thesis
    unfolding validate_user_access_def Let_def
    by (subst op_value_bind [of L])
      (auto simp: known_user_def active_user_def is_provisional_status_def res_bind_Inr_iff
        intro: cache_free_intros cache_free_helpers split: option.splits if_splits)
qed

section \<open>Tables and rules\<close>

definition gate_open :: "(bytes \<times> bytes) list \<Rightarrow> bytes \<Rightarrow> bytes \<Rightarrow> bool" where
  "gate_open kvs table op \<longleftrightarrow> map_of kvs (acl_only_via_actions_key table op) = None"

text \<open>The rule of a table, if there is one, allows the user the values that the rule mentions.\<close>

definition rule_permits ::
  "'n op_libs \<Rightarrow> (bytes \<times> bytes) list \<Rightarrow> bytes \<Rightarrow> bytes \<Rightarrow> u32 \<Rightarrow> (bytes list \<Rightarrow> (bytes \<times> bytes) list) \<Rightarrow> bool"
where
  "rule_permits L kvs table op uid vals \<longleftrightarrow> (case map_of kvs (acl_rule_key table op) of
      None \<Rightarrow> True
    | Some bs \<Rightarrow> (\<exists>rule. ol_decode_rule L bs = Some rule \<and>
        evaluate_acl L (acl_check_of table rule) uid (vals (collect_resource_columns rule [])) = Inr ()))"

text \<open>The values of columns of a stored row; the identifier is not stored but is a column of the row.\<close>

definition stored_columns :: "'n op_libs \<Rightarrow> (bytes \<times> bytes) list \<Rightarrow> bytes \<Rightarrow> i64 \<Rightarrow> bytes list \<Rightarrow> (bytes \<times> bytes) list" where
  "stored_columns L kvs table row_id cols = concat (map (\<lambda>col.
    if col = str ''id'' then
      (case value_to_bytes L (JNumber (ol_from_i64 L row_id)) of Inr bs \<Rightarrow> [(col, bs)] | Inl _ \<Rightarrow> [])
    else (case map_of kvs (column_key table row_id col) of Some v \<Rightarrow> [(col, v)] | None \<Rightarrow> [])) cols)"

lemma read_column_from_tree_value:
  assumes "sorted_map kvs" and "op_value kvs (read_column_from_tree L table row_id col vals) = Inr vals'"
  shows "vals' = vals @ stored_columns L kvs table row_id [col]"
proof (cases "col = str ''id''")
  case True
  then show ?thesis
    using assms(2) by (auto simp: read_column_from_tree_def stored_columns_def map_err_def res_bind_Inr_iff split: sum.splits)
next
  case False
  then have "op_value kvs (read_column_from_tree L table row_id col vals) =
      Inr (vals @ stored_columns L kvs table row_id [col])"
    unfolding read_column_from_tree_def
    by (simp, subst op_value_bind [of L])
      (auto simp: op_value_read_key [OF assms(1)] stored_columns_def simp del: op_value_simps(4) intro: cache_free_intros split: option.splits)
  then show ?thesis
    using assms(2) by simp
qed

lemma read_columns_from_tree_value:
  assumes "sorted_map kvs" and "op_value kvs (read_columns_from_tree L table row_id cols) = Inr vals"
  shows "vals = stored_columns L kvs table row_id cols"
proof -
  have free: "cache_free L kvs (read_column_from_tree L table row_id col vals)" for col vals
    unfolding read_column_from_tree_def by (rule cache_free_intros)+
  have "fold_res (\<lambda>col vals. op_value kvs (read_column_from_tree L table row_id col vals)) cols init = Inr vals \<Longrightarrow>
      vals = init @ stored_columns L kvs table row_id cols" for init
  proof (induction cols arbitrary: init)
    case (Cons col cols)
    then obtain mid where "op_value kvs (read_column_from_tree L table row_id col init) = Inr mid"
      and "vals = mid @ stored_columns L kvs table row_id cols"
      by (auto simp: res_bind_Inr_iff)
    moreover from this(1) have "mid = init @ stored_columns L kvs table row_id [col]"
      by (rule read_column_from_tree_value [OF assms(1)])
    ultimately show ?case
      by (simp add: stored_columns_def)
  qed (simp add: stored_columns_def)
  from this [of "[]"] show ?thesis
    using assms(2) op_value_fold [of L kvs "read_column_from_tree L table row_id"] free
    by (simp add: read_columns_from_tree_def)
qed

lemma read_acl_rule_permits:
  assumes "sorted_map kvs" and "op_value kvs (read_acl_rule L table op) = Inr rule"
    and "\<And>r. rule = Some r \<Longrightarrow> evaluate_acl L (acl_check_of table r) uid (vals (collect_resource_columns r [])) = Inr ()"
  shows "rule_permits L kvs table op uid vals"
proof (cases "map_of kvs (acl_rule_key table op)")
  case (Some bs)
  then show ?thesis
    using assms by (cases "ol_decode_rule L bs")
      (auto simp: rule_permits_def op_value_cached results_rule_def optional_result_def key_results_sorted ok_or_def)
qed (simp add: rule_permits_def)

section \<open>Every operation needs an active user\<close>

lemma op_post_user_access:
  assumes "sorted_map kvs" and "op \<noteq> Op_RefreshKeys"
  shows "op_post L kvs (op_bind (validate_user_access L entry op) f) (\<lambda>_. active_user L kvs (ce_uid entry))"
proof (rule op_post_bind)
  fix a
  assume "op_value kvs (validate_user_access L entry op) = Inr a"
  then have "active_user L kvs (ce_uid entry)"
    using validate_user_access_value [OF assms(1), of L entry op] assms(2) by simp
  then show "op_post L kvs (f a) (\<lambda>_. active_user L kvs (ce_uid entry))"
    by (simp add: op_post_def)
qed (rule cache_free_user_access)

lemma op_post_prod: "(\<And>x y. p = (x, y) \<Longrightarrow> op_post L kvs (f x y) Q) \<Longrightarrow> op_post L kvs (case p of (x, y) \<Rightarrow> f x y) Q"
  by (cases p) simp

lemma op_post_list:
  "(xs = [] \<Longrightarrow> op_post L kvs m Q) \<Longrightarrow> (\<And>y ys. xs = y # ys \<Longrightarrow> op_post L kvs (f y ys) Q) \<Longrightarrow>
    op_post L kvs (case xs of [] \<Rightarrow> m | y # ys \<Rightarrow> f y ys) Q"
  by (cases xs) simp_all

lemma op_post_option:
  "(x = None \<Longrightarrow> op_post L kvs m Q) \<Longrightarrow> (\<And>y. x = Some y \<Longrightarrow> op_post L kvs (f y) Q) \<Longrightarrow>
    op_post L kvs (case x of None \<Rightarrow> m | Some y \<Rightarrow> f y) Q"
  by (cases x) simp_all

lemma op_post_if: "(b \<Longrightarrow> op_post L kvs m Q) \<Longrightarrow> (\<not> b \<Longrightarrow> op_post L kvs m' Q) \<Longrightarrow> op_post L kvs (if b then m else m') Q"
  by simp

lemma row_ops_active:
  assumes "sorted_map kvs"
  shows "op_post L kvs (insert_op L entry ctx) (\<lambda>_. active_user L kvs (ce_uid entry))"
    and "op_post L kvs (update_op L entry ctx) (\<lambda>_. active_user L kvs (ce_uid entry))"
    and "op_post L kvs (delete_op L entry ctx) (\<lambda>_. active_user L kvs (ce_uid entry))"
  unfolding insert_op_def update_op_def delete_op_def Let_def
  by (rule op_post_user_access [OF assms] op_post_lift op_post_prod op_post_bind cache_free_metadata cache_free_helpers | simp)+

lemma list_ops_active:
  assumes "sorted_map kvs"
  shows "op_post L kvs (list_append_op L entry ctx) (\<lambda>_. active_user L kvs (ce_uid entry))"
    and "op_post L kvs (list_insert_op L entry ctx) (\<lambda>_. active_user L kvs (ce_uid entry))"
    and "op_post L kvs (list_update_op L entry ctx) (\<lambda>_. active_user L kvs (ce_uid entry))"
    and "op_post L kvs (list_delete_op L entry ctx) (\<lambda>_. active_user L kvs (ce_uid entry))"
  unfolding list_append_op_def list_insert_op_def list_update_op_def list_delete_op_def
  by (rule op_post_user_access [OF assms], simp)+

lemma member_ops_active:
  assumes "sorted_map kvs"
  shows "op \<noteq> Op_RefreshKeys \<Longrightarrow> op_post L kvs (retention_op L op entry) (\<lambda>_. active_user L kvs (ce_uid entry))"
    and "op_post L kvs (invite_user_op L entry ctx) (\<lambda>_. active_user L kvs (ce_uid entry))"
    and "op_post L kvs (remove_user_op L entry ctx) (\<lambda>_. active_user L kvs (ce_uid entry))"
  unfolding retention_op_def invite_user_op_def remove_user_op_def Let_def
  by (rule op_post_user_access [OF assms] op_post_lift op_post_ensure op_post_prod op_post_bind cache_free_metadata cache_free_helpers | simp)+

lemma refresh_keys_known:
  assumes "sorted_map kvs"
  shows "op_post L kvs (refresh_keys_op L entry ctx) (\<lambda>_. known_user kvs (ce_uid entry))"
proof -
  have user: "op_post L kvs (op_bind (validate_user_access L entry Op_RefreshKeys) f) (\<lambda>_. known_user kvs (ce_uid entry))" for f :: "unit \<Rightarrow> op_verify_result op"
    by (rule op_post_bind, rule cache_free_user_access)
      (use validate_user_access_value [OF assms, of L entry Op_RefreshKeys] in \<open>auto simp: op_post_def\<close>)
  show ?thesis
    unfolding refresh_keys_op_def Let_def by (rule user op_post_lift op_post_ensure)+
qed

text \<open>The first leg of an accepted action is not a cascading delete, because such a leg has no entries
  and therefore no row to cascade from; so it checks the user.\<close>

lemma partition_same_table_kvs_length:
  assumes "partition_same_table_kvs indices legs table_kvs per_leg = Inr per_leg'"
  shows "length per_leg' = length per_leg"
proof -
  obtain rows :: "(row_ident \<times> kv_data list) list" where "(case rows of [] \<Rightarrow> Inr per_leg | [(_, kvs)] \<Rightarrow> Inr (per_leg[indices ! 0 := kvs]) | _ \<Rightarrow> Inl Generic) = Inr per_leg'"
    using assms by (auto simp: partition_same_table_kvs_def res_bind_Inr_iff)
  then show ?thesis
    by (auto split: list.split_asm prod.split_asm)
qed

lemma assign_table_kvs_length:
  "assign_table_kvs legs per_table x per_leg = Inr per_leg' \<Longrightarrow> length per_leg' = length per_leg"
  by (auto simp: assign_table_kvs_def Let_def dest: partition_same_table_kvs_length split: prod.split_asm if_split_asm)

lemma distribute_kvs_length: "distribute_kvs legs kvs = Inr per_leg \<Longrightarrow> length per_leg = length legs"
proof -
  have "fold_res (assign_table_kvs legs per_table) xs acc = Inr per_leg \<Longrightarrow> length acc = length legs \<Longrightarrow>
      length per_leg = length legs" for per_table xs acc
    by (induction xs arbitrary: acc) (auto simp: res_bind_Inr_iff dest: assign_table_kvs_length)
  then show "distribute_kvs legs kvs = Inr per_leg \<Longrightarrow> length per_leg = length legs"
    by (auto simp: distribute_kvs_def Let_def res_bind_Inr_iff)
qed

lemma op_value_bindD: "op_value kvs (op_bind m f) = Inr b \<Longrightarrow> \<exists>a. op_value kvs m = Inr a"
  by (auto simp: op_value_def res_bind_Inr_iff)

lemma run_leg_active:
  assumes "sorted_map kvs" and "leg_kvs = [] \<longrightarrow> self_row = []"
  shows "op_post L kvs (run_leg L entry ctx self_row leg leg_kvs) (\<lambda>_. active_user L kvs (ce_uid entry))"
proof -
  have "ce_uid (subset_entry entry leg_kvs) = ce_uid entry"
    by (simp add: subset_entry_def)
  then have "op_post L kvs (insert_op L (subset_entry entry leg_kvs) ctx) (\<lambda>_. active_user L kvs (ce_uid entry))"
      "op_post L kvs (update_op L (subset_entry entry leg_kvs) ctx) (\<lambda>_. active_user L kvs (ce_uid entry))"
      "op_post L kvs (delete_op L (subset_entry entry leg_kvs) ctx) (\<lambda>_. active_user L kvs (ce_uid entry))"
    using row_ops_active [OF assms(1), of L "subset_entry entry leg_kvs" ctx] by simp_all
  moreover have "op_post L kvs (dispatch_cascade_delete L t w s []) (\<lambda>_. active_user L kvs (ce_uid entry))" for t w s
    unfolding dispatch_cascade_delete_def by (rule op_post_lift) simp
  ultimately show ?thesis
    using assms(2) unfolding run_leg_def
    by (cases leg) (auto intro!: op_post_bind op_post_ensure cache_free_gates cache_free_lift)
qed

lemma action_op_active:
  assumes "sorted_map kvs"
  shows "op_post L kvs (action_op L entry ctx) (\<lambda>_. active_user L kvs (ce_uid entry))"
proof -
  let ?step = "\<lambda>c self_row (leg, leg_kvs) combined. op_bind (run_leg L entry c self_row leg leg_kvs)
    (\<lambda>leg_result. op_return (combined @ write_steps leg_result))"
  have free: "cache_free L kvs (?step c self_row x s)" for c self_row x s
    by (simp add: split_def cache_free_bind cache_free_run_leg cache_free_return)
  have "active_user L kvs (ce_uid entry)"
    if "legs \<noteq> []" "distribute_kvs legs kvds = Inr per_leg"
      "op_value kvs (op_fold (?step c (self_row_from_leg_kvs L (per_leg ! 0))) (zip legs per_leg) []) = Inr steps"
    for legs kvds per_leg c steps
  proof -
    have "length per_leg = length legs" "legs \<noteq> []"
      using that(1) distribute_kvs_length [OF that(2)] by simp_all
    then obtain leg ls k ks where eq: "legs = leg # ls" "per_leg = k # ks"
      by (cases legs; cases per_leg) auto
    have "\<exists>r. op_value kvs (run_leg L entry c (self_row_from_leg_kvs L k) leg k) = Inr r"
      using that(3) by (auto simp: eq dest!: op_value_bindD)
    moreover have "k = [] \<longrightarrow> self_row_from_leg_kvs L k = []"
      by (simp add: self_row_from_leg_kvs_def)
    ultimately show ?thesis
      using op_post_value [OF run_leg_active [OF assms]] by blast
  qed
  note first_leg = this
  have fold_free: "cache_free L kvs (op_fold (?step c self_row) xs s)" for c self_row xs s
    using free by (rule cache_free_fold)
  show ?thesis
    unfolding action_op_def Let_def
    by (rule op_post_lift op_post_prod op_post_ensure op_post_bind fold_free cache_free_metadata cache_free_helpers)+
      (simp add: op_post_return first_leg)
qed

definition no_users :: "(bytes \<times> bytes) list \<Rightarrow> bool" where
  "no_users kvs \<longleftrightarrow> (\<forall>(k, _) \<in> set kvs. \<not> prefix (row_prefix USERS_TABLE) k)"

lemma create_space_first:
  "op_post L kvs (create_space_op L entry ctx) (\<lambda>_. no_users kvs)"
proof -
  have users: "op_post L kvs (op_bind (op_read (ReadPrefix (row_prefix USERS_TABLE))) (\<lambda>r. op_bind (op_ensure Generic (r = [])) f))
      (\<lambda>_. no_users kvs)" for f :: "unit \<Rightarrow> op_verify_result op"
    by (rule op_post_bind, rule cache_free_read, rule op_post_ensure)
      (auto simp: op_post_def no_users_def filter_empty_conv)
  show ?thesis
    unfolding create_space_op_def by (rule users op_post_lift op_post_ensure)+
qed

lemma dispatch_active:
  assumes "sorted_map kvs"
  shows "op_post L kvs (dispatch_extract_and_validate L e ctx) (\<lambda>res. case lm_op_type (ce_message e) of
      Op_Noop \<Rightarrow> write_steps res = []
    | Op_CreateSpace \<Rightarrow> no_users kvs
    | Op_RefreshKeys \<Rightarrow> known_user kvs (ce_uid e)
    | _ \<Rightarrow> active_user L kvs (ce_uid e))"
  unfolding dispatch_extract_and_validate_def extend_op_def reduce_op_def rekey_op_def
  by (rule op_post_bind, rule cache_free_gates, cases "lm_op_type (ce_message e)")
    (simp_all add: op_post_return row_ops_active list_ops_active member_ops_active refresh_keys_known create_space_first
      action_op_active assms)

text \<open>C6: No operation is accepted on behalf of an unknown or provisional user, with three exceptions
  that are characterised: a no-op writes nothing, a space is created only while there are no users, and
  the keys of a user can be refreshed while the user is provisional, but only if the user exists. For
  actions this rests on the first leg: a cascading delete in that place has no row to start from.\<close>

theorem accepted_by_active_user:
  assumes "sorted_map kvs" and "coherent L kvs c"
    and "run_store kvs (dispatch_extract_and_validate L e ctx c) = Inr (res, c')"
  shows "case lm_op_type (ce_message e) of
      Op_Noop \<Rightarrow> write_steps res = []
    | Op_CreateSpace \<Rightarrow> no_users kvs
    | Op_RefreshKeys \<Rightarrow> known_user kvs (ce_uid e)
    | _ \<Rightarrow> active_user L kvs (ce_uid e)"
  using op_post_run [OF dispatch_active [OF assms(1)] assms(2,3)] .

lemma op_value_run: "op_value kvs m = Inr a \<Longrightarrow> \<exists>c. run_store kvs (m cache_default) = Inr (a, c)"
  by (auto simp: op_value_def res_bind_Inr_iff)

theorem accepted_by_active_user_witness:
  "\<exists>c. run_store demo_store (dispatch_extract_and_validate plain_libs demo_insert (for_change_id 1) cache_default) =
      Inr (\<lparr>write_steps = [TWrite [BPut (column_key (str ''t'') 1 (str ''v'')) [7], next_id_put (str ''t'') 2]]\<rparr>, c) \<and>
    active_user plain_libs demo_store 1"
proof -
  obtain c where c: "run_store demo_store (dispatch_extract_and_validate plain_libs demo_insert (for_change_id 1) cache_default) =
      Inr (\<lparr>write_steps = [TWrite [BPut (column_key (str ''t'') 1 (str ''v'')) [7], next_id_put (str ''t'') 2]]\<rparr>, c)"
    using op_value_run [OF demo_insert_accepted] by blast
  moreover have "sorted_map demo_store"
    unfolding demo_store_def by (rule store_of_list)
  ultimately show ?thesis
    using accepted_by_active_user [OF _ coherent_default c] by (simp add: demo_insert_fields)
qed

section \<open>Direct writes\<close>

text \<open>All entries of the change are columns of one table; the rows that they name.\<close>

definition entry_table :: "changelog_entry \<Rightarrow> bytes \<Rightarrow> bool" where
  "entry_table e table \<longleftrightarrow> lm_entries (ce_message e) \<noteq> [] \<and>
    (\<forall>kv \<in> set (lm_entries (ce_message e)). \<exists>row_id column. parse_key (kv_key kv) = Inr (PColumn table row_id column))"

definition entry_rows :: "changelog_entry \<Rightarrow> i64 set" where
  "entry_rows e = {row_id. \<exists>kv \<in> set (lm_entries (ce_message e)). \<exists>table column. parse_key (kv_key kv) = Inr (PColumn table row_id column)}"

lemma parse_column_entries_spec:
  assumes "parse_column_entries e = Inr es"
  shows "map pe_kv es = lm_entries (ce_message e)"
    and "p \<in> set es \<Longrightarrow> pe_key p = kv_key (pe_kv p) \<and> parse_key (pe_key p) = Inr (PColumn (pe_table p) (pe_row_id p) (pe_column p))"
proof -
  have "map_res parse_column_entry kvs = Inr es \<Longrightarrow> map pe_kv es = kvs \<and> (\<forall>p \<in> set es. pe_key p = kv_key (pe_kv p) \<and>
      parse_key (pe_key p) = Inr (PColumn (pe_table p) (pe_row_id p) (pe_column p)))" for kvs es
    by (induction kvs arbitrary: es)
      (auto simp: parse_column_entry_def res_bind_Inr_iff map_err_def column_key_ref_parse split: sum.splits)
  from this [of "lm_entries (ce_message e)" es] assms show "map pe_kv es = lm_entries (ce_message e)"
      "p \<in> set es \<Longrightarrow> pe_key p = kv_key (pe_kv p) \<and> parse_key (pe_key p) = Inr (PColumn (pe_table p) (pe_row_id p) (pe_column p))"
    by (auto simp: parse_column_entries_def)
qed

lemma parsed_entry_table:
  assumes es: "parse_column_entries e = Inr es" and "es \<noteq> []" and "\<forall>p \<in> set es. pe_table p = table"
  shows "entry_table e table" and "entry_rows e = pe_row_id ` set es"
proof -
  have kvs: "lm_entries (ce_message e) = map pe_kv es"
    using parse_column_entries_spec(1) [OF es] by simp
  show "entry_table e table" "entry_rows e = pe_row_id ` set es"
    using assms(2,3) parse_column_entries_spec(2) [OF es] unfolding entry_table_def entry_rows_def kvs by fastforce+
qed

lemma table_from_keys_Some:
  "table_from_keys keys (Some t) = Inr r \<longleftrightarrow> r = Some t \<and> (\<forall>k \<in> set keys. \<exists>row_id column. parse_key k = Inr (PColumn t row_id column))"
  by (induction keys) (auto split: sum.splits parsed_key.splits)

lemma table_from_column_keys_iff:
  "table_from_column_keys keys = Inr t \<longleftrightarrow> keys \<noteq> [] \<and> (\<forall>k \<in> set keys. \<exists>row_id column. parse_key k = Inr (PColumn t row_id column))"
  by (cases keys) (auto simp: table_from_column_keys_def res_bind_Inr_iff table_from_keys_Some ok_or_def split: sum.splits parsed_key.splits option.splits)

lemma entry_table_from_keys: "table_from_column_keys (column_keys_from_entry e) = Inr t \<longleftrightarrow> entry_table e t"
  by (auto simp: table_from_column_keys_iff column_keys_from_entry_def entry_table_def)

lemma not_internal: "validate_not_internal_table t = Inr () \<Longrightarrow> \<not> prefix (str ''_'') t \<and> \<not> is_internal_table t"
  by (auto simp: validate_not_internal_table_def ensure_def is_internal_table_def USERS_TABLE_def RETENTION_TABLE_def KEY_HISTORY_TABLE_def
      str_def split: if_splits)

lemma dispatch_gate_open:
  assumes "sorted_map kvs" and "op_value kvs (enforce_dispatch_gating L e ctx) = Inr ()" and "entry_table e t"
    and "\<not> is_internal_table t" and "gated_operation (lm_op_type (ce_message e)) = Some op_str" and "cx_action_name ctx = None"
  shows "gate_open kvs t op_str"
proof -
  have "column_keys_from_entry e \<noteq> []"
    using assms(3) by (simp add: column_keys_from_entry_def entry_table_def)
  then have "op_value kvs (enforce_only_via_actions L t op_str ctx) = Inr ()"
    using assms(2-5) entry_table_from_keys [of e t]
    by (simp add: enforce_dispatch_gating_def op_value_bind [of L] cache_free_intros cache_free_gates)
  then have "op_value kvs (read_only_via_actions L t op_str) = Inr None"
    using assms(6) by (auto simp: enforce_only_via_actions_def op_value_bind [of L] cache_free_intros cache_free_metadata
        res_bind_Inr_iff split: option.split_asm)
  then show ?thesis
    by (auto simp: gate_open_def op_value_cached results_gate_def optional_result_def key_results_sorted [OF assms(1)] res_bind_Inr_iff
        split: option.splits)
qed

definition next_row_id :: "(bytes \<times> bytes) list \<Rightarrow> bytes \<Rightarrow> i64 option" where
  "next_row_id kvs table = (case map_of kvs (schema_next_id_key table) of
      None \<Rightarrow> Some 1
    | Some bs \<Rightarrow> if length bs = 8 then Some (u64_from_be_bytes bs) else None)"

text \<open>The row that an insertion creates: the next identifier of the table, or the one that the entries name.\<close>

definition inserted_row :: "(bytes \<times> bytes) list \<Rightarrow> changelog_entry \<Rightarrow> bytes \<Rightarrow> i64 \<Rightarrow> bool" where
  "inserted_row kvs e table row_id \<longleftrightarrow>
    (map_of kvs (schema_id_mode_key table) = Some [0] \<and> next_row_id kvs table = Some row_id) \<or>
    (map_of kvs (schema_id_mode_key table) = Some [1] \<and> entry_rows e = {row_id} \<and> row_id \<noteq> 0)"

lemma read_next_id_value:
  assumes "sorted_map kvs"
  shows "op_value kvs (read_next_id table) = ok_or Generic (next_row_id kvs table)"
  unfolding read_next_id_def
  by (subst op_value_bind [of undefined], (rule cache_free_intros)+)
    (auto simp: op_value_read_key [OF assms] next_row_id_def simp del: op_value_simps(4) split: option.splits)

lemma insert_target:
  assumes "sorted_map kvs" and es: "parse_column_entries e = Inr es" and row: "validate_same_table_row es = Inr (table, entry_row)"
    and mode: "op_value kvs (read_auto_increment table) = Inr auto" and new: "op_value kvs (insert_row_id table entry_row auto) = Inr row_id"
  shows "entry_table e table" and "inserted_row kvs e table row_id"
proof -
  have ne: "es \<noteq> []" and all: "\<forall>p \<in> set es. pe_table p = table \<and> pe_row_id p = entry_row"
    using row by (auto simp: validate_same_table_row_def split: list.splits if_splits)
  then show "entry_table e table"
    using parsed_entry_table(1) [OF es] by blast
  have rows: "entry_rows e = {entry_row}"
    using parsed_entry_table(2) [OF es ne] all ne by (cases es) auto
  have "map_of kvs (schema_id_mode_key table) = Some (if auto then [0] else [1])"
    using mode by (auto simp: op_value_cached results_auto_increment_def optional_result_def parse_auto_increment_def
        key_results_sorted [OF assms(1)] split: option.splits if_splits)
  then show "inserted_row kvs e table row_id"
    using new rows read_next_id_value [OF assms(1), of table]
    by (cases auto) (auto simp: inserted_row_def insert_row_id_value classify_insert_id_def validate_insert_id_def res_bind_Inr_iff
        map_err_def split: if_splits sum.splits)
qed

lemma insert_acl_permits:
  assumes "sorted_map kvs" and "op_value kvs (insert_acl L e table row_id) = Inr u"
  shows "rule_permits L kvs table (str ''write'') (ce_uid e) (extract_acl_columns_from_entry L e table None (Some row_id))"
proof -
  obtain rule where "op_value kvs (read_acl_rule L table (str ''write'')) = Inr rule"
    using assms(2) unfolding insert_acl_def by (auto dest: op_value_bindD)
  then show ?thesis
    using assms(2) unfolding insert_acl_def
    by (intro read_acl_rule_permits [OF assms(1)])
      (auto simp: op_value_bind [of L] cache_free_metadata cache_free_intros o_def Let_def acl_check_of_def res_bind_Inr_iff split: option.split_asm)
qed

definition insert_permitted :: "'n op_libs \<Rightarrow> (bytes \<times> bytes) list \<Rightarrow> changelog_entry \<Rightarrow> bytes \<Rightarrow> bool" where
  "insert_permitted L kvs e table \<longleftrightarrow> (\<exists>row_id. inserted_row kvs e table row_id \<and>
    rule_permits L kvs table (str ''write'') (ce_uid e) (extract_acl_columns_from_entry L e table None (Some row_id)))"

lemma insert_op_permitted:
  assumes "sorted_map kvs"
  shows "op_post L kvs (insert_op L e ctx) (\<lambda>_. \<exists>table. entry_table e table \<and> \<not> prefix (str ''_'') table \<and> \<not> is_internal_table table \<and> insert_permitted L kvs e table)"
  unfolding insert_op_def Let_def
  apply (rule op_post_lift op_post_prod op_post_ensure op_post_bind cache_free_metadata cache_free_helpers)+
  apply (rule cache_free_intros cache_free_helpers)+
  apply (rule op_post_lift op_post_return)+
  apply simp
  subgoal for es _ table entry_row auto row_id
    using insert_target [OF assms, of e es table entry_row auto row_id] insert_acl_permits [OF assms, of L e table row_id] not_internal [of table]
    unfolding insert_permitted_def by blast
  done

lemma keys_btree_insert: "fst ` set (btree_insert k v m) = insert k (fst ` set m)"
  by (induction k v m rule: btree_insert.induct) auto

lemma group_by_row_rows: "fst ` set (group_by_row (lm_entries (ce_message e))) = RowId ` entry_rows e"
proof -
  let ?f = "\<lambda>kv m. case parse_key (kv_key kv) of
      Inr (PColumn _ row_id column) \<Rightarrow>
        btree_insert (RowId row_id) (btree_set (column # (case map_of m (RowId row_id) of Some cs \<Rightarrow> cs | None \<Rightarrow> []))) m
    | _ \<Rightarrow> m"
  have "fst ` set (fold ?f kvs m) =
      RowId ` {r. \<exists>kv \<in> set kvs. \<exists>t c. parse_key (kv_key kv) = Inr (PColumn t r c)} \<union> fst ` set m" for kvs and m :: row_columns
  proof (induction kvs arbitrary: m)
    case (Cons kv kvs)
    show ?case
      unfolding fold.simps o_apply Cons.IH by (auto simp: keys_btree_insert split: sum.splits parsed_key.splits) blast
  qed simp
  from this [of "lm_entries (ce_message e)" "[]"] show ?thesis
    by (simp add: group_by_row_def entry_rows_def)
qed

text \<open>The rule of the table allows the operation on every row that the entries name, as it is stored.\<close>

definition rows_permitted :: "'n op_libs \<Rightarrow> (bytes \<times> bytes) list \<Rightarrow> changelog_entry \<Rightarrow> bytes \<Rightarrow> bytes \<Rightarrow> bool" where
  "rows_permitted L kvs e table op_str \<longleftrightarrow>
    (\<forall>row_id \<in> entry_rows e. rule_permits L kvs table op_str (ce_uid e) (stored_columns L kvs table row_id))"

lemma cache_free_delete_helpers [cache_free_helpers]:
  "cache_free L kvs (delete_acl_row L acl e table row s)"
  "cache_free L kvs (delete_index_entry L table row col ops)"
  unfolding delete_acl_row_def delete_index_entry_def by (rule cache_free_intros cache_free_helpers)+

lemma delete_acl_value:
  assumes "sorted_map kvs" and "op_value kvs (op_fold (delete_acl_row L acl e table) rows ()) = Inr u" and "row \<in> set rows"
  shows "evaluate_acl L acl (ce_uid e) (stored_columns L kvs table row (ac_needed_columns acl)) = Inr ()"
proof -
  have "fold_res (\<lambda>x s. op_value kvs (delete_acl_row L acl e table x s)) rows () = Inr u"
    using assms(2) by (simp add: op_value_fold [of L] cache_free_delete_helpers)
  then have "op_value kvs (delete_acl_row L acl e table row ()) = Inr ()"
    using assms(3) by (induction rows) (auto simp: res_bind_Inr_iff)
  then show ?thesis
    unfolding delete_acl_row_def
    by (auto simp: op_value_bind [of L] cache_free_helpers cache_free_lift res_bind_Inr_iff
        dest!: read_columns_from_tree_value [OF assms(1)])
qed

lemma delete_op_permitted:
  assumes "sorted_map kvs"
  shows "op_post L kvs (delete_op L e ctx) (\<lambda>_. \<exists>table. entry_table e table \<and> \<not> prefix (str ''_'') table \<and>
    \<not> is_internal_table table \<and> rows_permitted L kvs e table (str ''delete''))"
proof -
  have "rows_permitted L kvs e table (str ''delete'')"
    if "op_value kvs (read_acl_rule L table (str ''delete'')) = Inr rule"
      and "op_value kvs (case map_option (acl_check_of table) rule of None \<Rightarrow> op_return ()
        | Some acl \<Rightarrow> op_fold (delete_acl_row L acl e table) (map (\<lambda>x. raw_id (fst x)) (group_by_row (lm_entries (ce_message e)))) ()) = Inr u"
    for table rule u
  proof -
    have "row \<in> set (map (\<lambda>x. raw_id (fst x)) (group_by_row (lm_entries (ce_message e))))" if "row \<in> entry_rows e" for row
      using group_by_row_rows [of e] that by force
    then show ?thesis
      using that delete_acl_value [OF assms] unfolding rows_permitted_def
      by (intro ballI read_acl_rule_permits [OF assms that(1)]) (fastforce simp: acl_check_of_def)
  qed
  note permitted = this
  show ?thesis
    unfolding delete_op_def Let_def
    apply (rule op_post_lift op_post_ensure op_post_bind op_post_return cache_free_metadata cache_free_helpers cache_free_intros)+
    using permitted not_internal entry_table_from_keys [of e] by auto
qed

section \<open>Updates\<close>

text \<open>The reads that an update plans for the rule are the columns of the rows, and later plans do not
  replace them.\<close>

definition canonical_reads :: "bytes \<Rightarrow> old_reads \<Rightarrow> bool" where
  "canonical_reads table m \<longleftrightarrow> sorted_map m \<and> (\<forall>k key. map_of m k = Some key \<longrightarrow> key = column_key table (raw_id (fst k)) (snd k))"

lemma plan_read_map:
  "sorted_map m \<Longrightarrow> sorted_map (plan_read k key m)"
  "sorted_map m \<Longrightarrow> map_of (plan_read k key m) = (if map_of m k = None then (map_of m)(k \<mapsto> key) else map_of m)"
  using map_of_btree_insert [of m k key]
  by (auto simp: plan_read_def sorted_btree_insert map_of_eq_None_iff)

lemma plan_read_canonical:
  assumes "canonical_reads table m"
  shows "canonical_reads table (plan_read (r, col) (column_key table (raw_id r) col) m)"
    and "dom (map_of (plan_read (r, col) (column_key table (raw_id r) col) m)) = insert (r, col) (dom (map_of m))"
  using assms plan_read_map [of m "(r, col)" "column_key table (raw_id r) col"]
  by (auto simp: canonical_reads_def split: if_splits)

lemma plan_columns:
  fixes row_id :: i64 and cols :: "bytes list"
  assumes "canonical_reads table m"
  defines "m' \<equiv> fold (\<lambda>column m. if column = str ''id'' then m
    else plan_read (RowId row_id, column) (column_key table row_id column) m) cols m"
  shows "canonical_reads table m'" and "dom (map_of m') = dom (map_of m) \<union> {(RowId row_id, c) | c. c \<in> set cols \<and> c \<noteq> str ''id''}"
proof -
  have "canonical_reads table m' \<and> dom (map_of m') = dom (map_of m) \<union> {(RowId row_id, c) | c. c \<in> set cols \<and> c \<noteq> str ''id''}"
    using assms(1) unfolding m'_def
  proof (induction cols arbitrary: m)
    case (Cons col cols)
    show ?case
    proof (cases "col = str ''id''")
      case False
      note step = plan_read_canonical [OF Cons.prems, of "RowId row_id" col, simplified]
      show ?thesis
        using False Cons.IH [OF step(1)] step(2) by auto
    qed (use Cons in auto)
  qed simp
  then show "canonical_reads table m'" "dom (map_of m') = dom (map_of m) \<union> {(RowId row_id, c) | c. c \<in> set cols \<and> c \<noteq> str ''id''}"
    by simp_all
qed

lemma plan_acl_reads_canonical:
  assumes "canonical_reads table m"
  shows "canonical_reads table (plan_acl_reads table (Some acl) rows m)"
    and "dom (map_of (plan_acl_reads table (Some acl) rows m)) =
      dom (map_of m) \<union> {(RowId r, c) | r c. r \<in> set rows \<and> c \<in> set (ac_needed_columns acl) \<and> c \<noteq> str ''id''}"
proof -
  have "canonical_reads table (plan_acl_reads table (Some acl) rows m) \<and> dom (map_of (plan_acl_reads table (Some acl) rows m)) =
      dom (map_of m) \<union> {(RowId r, c) | r c. r \<in> set rows \<and> c \<in> set (ac_needed_columns acl) \<and> c \<noteq> str ''id''}"
    using assms
  proof (induction rows arbitrary: m)
    case (Cons row rows)
    note step = plan_columns [OF Cons.prems, where row_id = row and cols = "ac_needed_columns acl"]
    show ?case
      using Cons.IH [OF step(1)] step(2) by (auto simp: plan_acl_reads_def)
  qed (simp add: plan_acl_reads_def)
  then show "canonical_reads table (plan_acl_reads table (Some acl) rows m)"
    "dom (map_of (plan_acl_reads table (Some acl) rows m)) =
      dom (map_of m) \<union> {(RowId r, c) | r c. r \<in> set rows \<and> c \<in> set (ac_needed_columns acl) \<and> c \<noteq> str ''id''}"
    by simp_all
qed

lemma plan_index_reads_canonical:
  assumes "canonical_reads table m"
  shows "canonical_reads table (plan_index_reads table cols updated m)"
    and "dom (map_of m) \<subseteq> dom (map_of (plan_index_reads table cols updated m))"
proof -
  have "canonical_reads table (plan_index_reads table cols updated m) \<and> dom (map_of m) \<subseteq> dom (map_of (plan_index_reads table cols updated m))"
    using assms
  proof (induction updated arbitrary: m)
    case (Cons x updated)
    obtain r c where x: "x = (r, c)"
      by (cases x)
    note step = plan_read_canonical [OF Cons.prems, of r c]
    show ?case
    proof (cases "c \<in> set cols")
      case True
      then have "plan_index_reads table cols (x # updated) m =
          plan_index_reads table cols updated (plan_read (r, c) (column_key table (raw_id r) c) m)"
        by (simp add: x plan_index_reads_def)
      then show ?thesis
        using Cons.IH [OF step(1)] step(2) by auto
    qed (use Cons in \<open>simp add: x plan_index_reads_def\<close>)
  qed (simp add: plan_index_reads_def)
  then show "canonical_reads table (plan_index_reads table cols updated m)"
    "dom (map_of m) \<subseteq> dom (map_of (plan_index_reads table cols updated m))"
    by simp_all
qed

lemma plan_representatives_keep:
  assumes "plan_representatives reps rows m = Inr m'" and "sorted_map m" and "map_of m k = Some key"
  shows "sorted_map m'" and "map_of m' k = Some key"
proof -
  have "sorted_map m' \<and> map_of m' k = Some key"
    using assms
  proof (induction rows arbitrary: m)
    case (Cons row rows)
    obtain m1 where m1: "plan_representatives reps rows m1 = Inr m'"
      and step: "m1 = m \<or> (\<exists>c key'. m1 = btree_insert (RowId row, c) key' m \<and> \<not> (\<exists>k \<in> set (map fst m). fst k = RowId row))"
      using Cons.prems(1) by (auto simp: plan_representatives_def res_bind_Inr_iff split: if_splits)
    have "k \<in> fst ` set m"
      using Cons.prems(3) by (force dest: map_of_SomeD)
    then have "sorted_map m1 \<and> map_of m1 k = Some key"
      using step Cons.prems(2,3) by (auto simp: sorted_btree_insert map_of_btree_insert)
    then show ?case
      using Cons.IH [OF m1] by blast
  qed (simp add: plan_representatives_def)
  then show "sorted_map m'" "map_of m' k = Some key"
    by simp_all
qed

lemma read_old_value_value:
  assumes "sorted_map kvs"
  shows "op_value kvs (read_old_value (k, key) vals) = Inr (btree_insert k (map_of kvs key) vals)"
  unfolding read_old_value_def prod.case
  by (subst op_value_bind [of undefined], (rule cache_free_intros)+)
    (auto simp: op_value_read_key [OF assms] simp del: op_value_simps(4) split: option.splits)

lemma cache_free_read_old_value [cache_free_helpers]: "cache_free L kvs (read_old_value x vals)"
  unfolding read_old_value_def by (cases x) (simp add: cache_free_intros)

lemma old_values_map:
  assumes "sorted_map kvs" and "op_value kvs (op_fold read_old_value reads []) = Inr vals"
    and "sorted_map reads" and "map_of reads k = Some key"
  shows "map_of vals k = Some (map_of kvs key)"
proof -
  have step: "op_value kvs (read_old_value x s) = Inr (btree_insert (fst x) (map_of kvs (snd x)) s)" for x s
    using read_old_value_value [OF assms(1), of "fst x" "snd x" s] by simp
  have other: "map_of vals k = map_of init k \<and> sorted_map vals" if "fold_res (\<lambda>x s. op_value kvs (read_old_value x s)) xs init = Inr vals"
      "sorted_map init" "k \<notin> fst ` set xs" for xs init
    using that by (induction xs arbitrary: init) (auto simp: step sorted_btree_insert map_of_btree_insert)
  have "map_of vals k = Some (map_of kvs key)"
    if "fold_res (\<lambda>x s. op_value kvs (read_old_value x s)) xs init = Inr vals"
      "sorted_map init" "sorted_map xs" "map_of xs k = Some key" for xs init
    using that
  proof (induction xs arbitrary: init)
    case (Cons x xs)
    have rest: "fold_res (\<lambda>x s. op_value kvs (read_old_value x s)) xs (btree_insert (fst x) (map_of kvs (snd x)) init) = Inr vals"
        "sorted_map (btree_insert (fst x) (map_of kvs (snd x)) init)"
      using Cons.prems(1,2) by (simp_all add: step sorted_btree_insert)
    show ?case
    proof (cases "fst x = k")
      case True
      then have "k \<notin> fst ` set xs"
        using Cons.prems(3) by auto
      then show ?thesis
        using other [OF rest] True Cons.prems(2,4) by (cases x) (simp add: map_of_btree_insert)
    next
      case False
      then show ?thesis
        using Cons.IH [OF rest] Cons.prems(3,4) by (cases x) simp
    qed
  qed simp
  from this [of reads "[]"] show ?thesis
    using assms(2-4) by (simp add: op_value_fold [of undefined] cache_free_read_old_value)
qed

lemma existing_values:
  assumes "\<And>c. c \<in> set cols \<Longrightarrow> c \<noteq> str ''id'' \<Longrightarrow> map_of old (RowId row, c) = Some (map_of kvs (column_key table row c))"
    and "fold_res (existing_value L old row) cols init = Inr vals"
  shows "vals = init @ stored_columns L kvs table row cols"
  using assms
proof (induction cols arbitrary: init)
  case (Cons col cols)
  then obtain mid where mid: "existing_value L old row col init = Inr mid" and rest: "fold_res (existing_value L old row) cols mid = Inr vals"
    by (auto simp: res_bind_Inr_iff)
  have "mid = init @ stored_columns L kvs table row [col]"
    using mid Cons.prems(1) [of col]
    by (auto simp: existing_value_def stored_columns_def res_bind_Inr_iff map_err_def split: if_splits sum.splits option.splits)
  then show ?case
    using Cons.IH [OF _ rest] Cons.prems(1) by (simp add: stored_columns_def)
qed (simp add: stored_columns_def)

lemma update_acl_permits:
  assumes "sorted_map kvs" and rule: "op_value kvs (read_acl_rule L table (str ''write'')) = Inr rule"
    and plan: "plan_representatives reps rows (plan_index_reads table cols updated
      (plan_acl_reads table (map_option (acl_check_of table) rule) rows [])) = Inr reads"
    and old: "op_value kvs (op_fold read_old_value reads []) = Inr vals"
    and acl: "update_acl L (map_option (acl_check_of table) rule) e table es vals rows = Inr ()"
    and "row \<in> set rows"
  shows "rule_permits L kvs table (str ''write'') (ce_uid e) (stored_columns L kvs table row)"
proof (rule read_acl_rule_permits [OF assms(1) rule])
  fix r
  assume r: "rule = Some r"
  let ?acl = "acl_check_of table r" and ?m = "plan_acl_reads table (Some (acl_check_of table r)) rows []"
  have m: "canonical_reads table ?m" "(RowId row, c) \<in> dom (map_of ?m)" if "c \<in> set (ac_needed_columns ?acl)" "c \<noteq> str ''id''" for c
    using plan_acl_reads_canonical [of table "[]" ?acl rows] that assms(6) by (auto simp: canonical_reads_def)
  have vals: "map_of vals (RowId row, c) = Some (map_of kvs (column_key table row c))"
    if "c \<in> set (ac_needed_columns ?acl)" "c \<noteq> str ''id''" for c
  proof -
    note ix = plan_index_reads_canonical [OF m(1) [OF that], of cols updated]
    have "map_of (plan_index_reads table cols updated ?m) (RowId row, c) = Some (column_key table row c)"
      using m(2) [OF that] ix by (force simp: canonical_reads_def)
    then show ?thesis
      using plan_representatives_keep [OF plan [unfolded r option.map]] ix(1) old_values_map [OF assms(1) old]
      by (simp add: canonical_reads_def)
  qed
  have "fold_res (check_existing_row L ?acl e vals) rows () = Inr ()"
    using acl by (auto simp: update_acl_def r res_bind_Inr_iff)
  then have "check_existing_row L ?acl e vals row () = Inr ()"
    using assms(6) by (induction rows) (auto simp: res_bind_Inr_iff)
  then obtain ex where "fold_res (existing_value L vals row) (ac_needed_columns ?acl) [] = Inr ex" and "evaluate_acl L ?acl (ce_uid e) ex = Inr ()"
    by (auto simp: check_existing_row_def res_bind_Inr_iff)
  moreover from existing_values [OF vals this(1)] have "ex = stored_columns L kvs table row (ac_needed_columns ?acl)"
    by simp
  ultimately show "evaluate_acl L ?acl (ce_uid e) (stored_columns L kvs table row (collect_resource_columns r [])) = Inr ()"
    by (simp add: acl_check_of_def)
qed

lemma op_post_mono: "op_post L kvs m Q \<Longrightarrow> (\<And>a. Q a \<Longrightarrow> R a) \<Longrightarrow> op_post L kvs m R"
  unfolding op_post_def by blast

lemma update_op_permitted:
  assumes "sorted_map kvs"
  shows "op_post L kvs (update_op L e ctx) (\<lambda>_. \<exists>table. entry_table e table \<and> \<not> prefix (str ''_'') table \<and>
    \<not> is_internal_table table \<and> rows_permitted L kvs e table (str ''write''))"
proof -
  have same: "entry_table e table" "entry_rows e = set (unique_row_ids es)"
    if "parse_column_entries e = Inr es" "validate_same_table es = Inr table" for es table
  proof -
    have "es \<noteq> []" "\<forall>p \<in> set es. pe_table p = table"
      using that(2) by (auto simp: validate_same_table_def split: list.splits if_splits)
    from parsed_entry_table [OF that(1) this] show "entry_table e table" "entry_rows e = set (unique_row_ids es)"
      by (simp_all add: unique_row_ids_def btree_set_def image_image)
  qed
  show ?thesis
    unfolding update_op_def Let_def
    apply (rule op_post_lift op_post_ensure op_post_bind op_post_return cache_free_metadata cache_free_helpers cache_free_intros)+
    subgoal premises prems for _ _ _ es table _ _ _ rule
      using same [OF prems(4,5)] not_internal [of table] prems(6) update_acl_permits [OF assms prems(11,13,14)] prems(16)
      unfolding rows_permitted_def by (intro exI [of _ table]) auto
    done
qed

lemma dispatch_direct:
  assumes "sorted_map kvs" and "cx_action_name ctx = None"
    and "dispatch_extract_and_validate L e ctx = op_bind (enforce_dispatch_gating L e ctx) (\<lambda>_. m)"
    and "op_post L kvs m (\<lambda>_. \<exists>table. entry_table e table \<and> \<not> prefix (str ''_'') table \<and> \<not> is_internal_table table \<and> Q table)"
    and "gated_operation (lm_op_type (ce_message e)) = Some op_str"
  shows "op_post L kvs (dispatch_extract_and_validate L e ctx) (\<lambda>_. \<exists>table. entry_table e table \<and> \<not> prefix (str ''_'') table \<and>
    gate_open kvs table op_str \<and> Q table)"
  unfolding assms(3)
proof (rule op_post_bind [OF cache_free_gates(2)])
  fix a
  assume "op_value kvs (enforce_dispatch_gating L e ctx) = Inr a"
  then have "entry_table e t \<Longrightarrow> \<not> is_internal_table t \<Longrightarrow> gate_open kvs t op_str" for t
    using dispatch_gate_open [OF assms(1) _ _ _ assms(5,2)] by simp
  then show "op_post L kvs m (\<lambda>_. \<exists>table. entry_table e table \<and> \<not> prefix (str ''_'') table \<and> gate_open kvs table op_str \<and> Q table)"
    by (intro op_post_mono [OF assms(4)]) blast
qed

text \<open>C7: An insertion, update or deletion that is not part of an action is authorized. All its entries are
  columns of one table; the table is not internal and its operation is not reserved for actions; and the
  rule of the table, if there is one, allows the operation: for an insertion on the inserted values, with
  the identifier that the new row gets, and for an update or deletion on every row that the entries name,
  with the values that are stored.\<close>

theorem direct_writes_authorized:
  assumes "sorted_map kvs" and "coherent L kvs c" and "cx_action_name ctx = None"
    and "run_store kvs (dispatch_extract_and_validate L e ctx c) = Inr (res, c')"
    and "lm_op_type (ce_message e) \<in> {Op_Insert, Op_Update, Op_Delete}"
  shows "\<exists>table. entry_table e table \<and> \<not> prefix (str ''_'') table \<and>
    (case lm_op_type (ce_message e) of
       Op_Insert \<Rightarrow> gate_open kvs table (str ''write'') \<and> insert_permitted L kvs e table
     | Op_Update \<Rightarrow> gate_open kvs table (str ''write'') \<and> rows_permitted L kvs e table (str ''write'')
     | _ \<Rightarrow> gate_open kvs table (str ''delete'') \<and> rows_permitted L kvs e table (str ''delete''))"
    (is "?P")
proof -
  note direct = dispatch_direct [OF assms(1,3), of L e]
  have "op_post L kvs (dispatch_extract_and_validate L e ctx) (\<lambda>_. ?P)"
    using assms(5) direct [OF _ insert_op_permitted [OF assms(1)]] direct [OF _ update_op_permitted [OF assms(1)]]
      direct [OF _ delete_op_permitted [OF assms(1)]]
    by (auto simp: dispatch_extract_and_validate_def gated_operation_def)
  from op_post_run [OF this assms(2,4)] show ?P .
qed

theorem direct_writes_authorized_witness:
  "op_value demo_store (dispatch_extract_and_validate plain_libs demo_insert (for_change_id 1)) =
      Inr \<lparr>write_steps = [TWrite [BPut (column_key (str ''t'') 1 (str ''v'')) [7], next_id_put (str ''t'') 2]]\<rparr> \<and>
    (\<exists>table. entry_table demo_insert table \<and> \<not> prefix (str ''_'') table \<and> gate_open demo_store table (str ''write'') \<and>
      insert_permitted plain_libs demo_store demo_insert table)"
proof -
  obtain c where c: "run_store demo_store (dispatch_extract_and_validate plain_libs demo_insert (for_change_id 1) cache_default) =
      Inr (\<lparr>write_steps = [TWrite [BPut (column_key (str ''t'') 1 (str ''v'')) [7], next_id_put (str ''t'') 2]]\<rparr>, c)"
    using op_value_run [OF demo_insert_accepted] by blast
  have "sorted_map demo_store"
    unfolding demo_store_def by (rule store_of_list)
  from direct_writes_authorized [OF this coherent_default _ c] show ?thesis
    by (simp add: demo_insert_fields demo_insert_accepted for_change_id_def)
qed

end
