(* ===== verification/Ops_Footprint.thy ===== *)
theory Ops_Footprint
  imports Ops_Auth
begin

text \<open>
  Which tables an operation can write.  The operations on rows write columns of application tables only,
  the operations on lists columns of \<open>_lists\<close> only, and each of the operations on members writes its own
  internal tables.  For an action the tables are those of its legs: the legs that insert, update or delete
  run the operations on rows, and only a cascading delete that the stored action declares can reach an
  internal table.
\<close>

section \<open>Keys and the tables they belong to\<close>

definition in_tables :: "(bytes \<Rightarrow> bool) \<Rightarrow> bytes \<Rightarrow> bool" where
  "in_tables T k \<longleftrightarrow> (\<forall>t r c. parse_key k = Inr (PColumn t r c) \<longrightarrow> T t)"

abbreviation ops_in :: "(bytes \<Rightarrow> bool) \<Rightarrow> batch_op list \<Rightarrow> bool" where
  "ops_in T ops \<equiv> \<forall>b \<in> set ops. in_tables T (batch_op_key b)"

definition result_in :: "(bytes \<Rightarrow> bool) \<Rightarrow> op_verify_result \<Rightarrow> bool" where
  "result_in T res \<longleftrightarrow> (\<forall>s \<in> set (write_steps res). \<forall>ops. s = TWrite ops \<longrightarrow> ops_in T ops)"

lemma result_in_simps [simp]:
  "result_in T \<lparr>write_steps = []\<rparr>"
  "result_in T \<lparr>write_steps = [TWrite ops]\<rparr> \<longleftrightarrow> ops_in T ops"
  "result_in T \<lparr>write_steps = xs @ ys\<rparr> \<longleftrightarrow> result_in T \<lparr>write_steps = xs\<rparr> \<and> result_in T \<lparr>write_steps = ys\<rparr>"
  by (auto simp: result_in_def)

lemma result_in_mono: "result_in T res \<Longrightarrow> (\<And>t. T t \<Longrightarrow> U t) \<Longrightarrow> result_in U res"
  unfolding result_in_def in_tables_def by blast

lemma parse_key_column_tuple:
  assumes "parse_key k = Inr (PColumn t r c)" and "decode_tuple k = Inr es"
  shows "es ! 0 \<in> {TBytes TAG_ROW, TString TAG_ROW} \<and> element_to_string (es ! 1) = Inr t"
proof -
  have other: "parse_schema_elements es \<noteq> Inr (PColumn t r c)" "parse_index_elements es \<noteq> Inr (PColumn t r c)"
    "parse_marker_elements es \<noteq> Inr (PColumn t r c)"
    by (auto simp: parse_schema_elements_def parse_index_elements_def parse_marker_elements_def
        res_bind_Inr_iff split: sum.splits if_splits)
  show ?thesis
    using assms other
    by (auto simp: parse_key_def parse_row_elements_def res_bind_Inr_iff split: if_splits tuple_element.splits sum.splits)
qed

lemma in_tables_column: "T t \<Longrightarrow> in_tables T (column_key t r c)"
  by (auto simp: in_tables_def column_key_def tuple_decode_encode from_utf8_def ok_or_def dest!: parse_key_column_tuple split: if_splits)

lemma in_tables_other [simp]:
  "in_tables T (schema_next_id_key t)" "in_tables T schema_next_list_number_key"
  "in_tables T (list_head_key n)" "in_tables T (list_tail_key n)" "in_tables T (list_parent_key n)"
  by (auto simp: in_tables_def builder_defs tuple_decode_encode TAG_SCHEMA_def TAG_ROW_def str_inject dest!: parse_key_column_tuple)

lemma index_key_in_tables: "index_key t c v r = Inr k \<Longrightarrow> in_tables T k"
  by (auto simp: in_tables_def index_key_def tuple_decode_encode res_bind_Inr_iff TAG_INDEX_def TAG_ROW_def str_inject dest!: parse_key_column_tuple)

lemma make_index_in_tables:
  "make_index_put L t c v r = Inr b \<Longrightarrow> in_tables T (batch_op_key b)"
  "make_index_delete L t c v r = Inr b \<Longrightarrow> in_tables T (batch_op_key b)"
  by (auto simp: make_index_put_def make_index_delete_def build_index_key_def res_bind_Inr_iff dest: index_key_in_tables)

section \<open>Writes of the helpers\<close>

lemma index_puts_in_tables:
  "fold_res (index_put_of L t r vals skip) cols ops = Inr ops' \<Longrightarrow> ops_in T ops \<Longrightarrow> ops_in T ops'"
  by (erule fold_res_invariant [where P = "ops_in T"])
    (auto simp: index_put_of_def res_bind_Inr_iff dest: make_index_in_tables split: if_splits)

lemma append_insert_index_puts_in_tables:
  "ops_in T ops \<Longrightarrow> op_all (ops_in T) (append_insert_index_puts_skip L ops t r kvs skip)"
  "ops_in T ops \<Longrightarrow> op_all (ops_in T) (append_insert_index_puts L ops t r kvs)"
  "ops_in T ops \<Longrightarrow> op_all (ops_in T) (append_insert_index_puts_parsed_skip L ops x es skip)"
  unfolding append_insert_index_puts_def append_insert_index_puts_skip_def append_insert_index_puts_parsed_skip_def
  by (cases x; auto intro!: op_all_bind_any op_all_return op_all_lift dest: index_puts_in_tables)+

lemma append_multi_row_in_tables:
  "ops_in T ops \<Longrightarrow> op_all (ops_in T) (append_multi_row_insert_index_puts L ops t keys kvs)"
  unfolding append_multi_row_insert_index_puts_def append_chunk_index_puts_def Let_def
  by (auto intro!: op_all_bind_any op_all_bind_lift op_all_lift op_all_return op_all_fold append_insert_index_puts_in_tables)

lemma bump_next_id_in_tables:
  "bump_next_id_after_chain ops t n m = Inr ops' \<Longrightarrow> ops_in T ops \<Longrightarrow> ops_in T ops'"
  by (auto simp: bump_next_id_after_chain_def res_bind_Inr_iff split: if_splits)

lemma rebuild_in_tables: "rebuild_column_key_with_row_id k r = Inr k' \<Longrightarrow> in_tables T k \<Longrightarrow> in_tables T k'"
  by (auto simp: rebuild_column_key_with_row_id_def in_tables_def [of T k] intro: in_tables_column split: sum.splits parsed_key.splits if_splits)

lemma derive_keys_in_tables:
  "derive_column_keys_with_row_id kvs r = Inr keys \<Longrightarrow> \<forall>kv \<in> set kvs. in_tables T (kv_key kv) \<Longrightarrow> \<forall>k \<in> set keys. in_tables T k"
  unfolding derive_column_keys_with_row_id_def by (auto dest!: map_res_set dest: rebuild_in_tables)

lemma derive_chain_loop_in_tables:
  "derive_chain_loop n c kvs counts keys = Inr (counts', keys') \<Longrightarrow> \<forall>kv \<in> set kvs. in_tables T (kv_key kv) \<Longrightarrow>
    \<forall>k \<in> set keys. in_tables T k \<Longrightarrow> \<forall>k \<in> set keys'. in_tables T k"
proof (induction kvs arbitrary: counts keys)
  case (Cons kv kvs)
  from Cons.prems(1,2) obtain counts1 k where
      rest: "derive_chain_loop n c kvs counts1 (keys @ [k]) = Inr (counts', keys')" and k: "in_tables T k"
    by (auto simp: Let_def res_bind_Inr_iff dest: rebuild_in_tables split: sum.splits parsed_key.splits if_splits)
  show ?case
    by (rule Cons.IH [OF rest]) (use Cons.prems(2,3) k in auto)
qed simp

lemma derive_chain_in_tables:
  "derive_column_keys_for_chain kvs c n = Inr keys \<Longrightarrow> \<forall>kv \<in> set kvs. in_tables T (kv_key kv) \<Longrightarrow> \<forall>k \<in> set keys. in_tables T k"
  by (auto simp: derive_column_keys_for_chain_def Let_def res_bind_Inr_iff dest: derive_chain_loop_in_tables split: if_splits)

lemma column_puts_in_tables: "\<forall>k \<in> set keys. in_tables T k \<Longrightarrow> ops_in T (column_puts keys kvs)"
  by (auto simp: column_puts_def dest: set_zip_leftD)

lemma append_retention_in_tables:
  assumes "\<forall>kv \<in> set kvs. in_tables T (kv_key kv)" and "ops_in T ops"
  shows "op_all (ops_in T) (append_retention L kvs ops)"
  unfolding append_retention_def Let_def
  by (rule op_all_bind_any, (rule op_all_bind_ensure)+, rule op_all_bind_any, rule op_all_bind_lift,
      rule op_all_bind [OF append_multi_row_in_tables])
    (use assms in \<open>auto intro!: op_all_lift dest: bump_next_id_in_tables derive_chain_in_tables column_puts_in_tables\<close>)

section \<open>Operations on rows\<close>

abbreviation application_table :: "bytes \<Rightarrow> bool" where
  "application_table t \<equiv> \<not> prefix (str ''_'') t"

lemma parsed_entry_in_tables:
  assumes "parse_column_entries e = Inr es" and "p \<in> set es" and "T (pe_table p)"
  shows "in_tables T (pe_key p)"
proof -
  obtain kv where "parse_column_entry kv = Inr p"
    using map_res_set [OF assms(1,2) [unfolded parse_column_entries_def]] by blast
  then obtain r c where "parse_column_key_ref (pe_key p) = Inr (pe_table p, r, c)"
    by (auto simp: parse_column_entry_def res_bind_Inr_iff)
  then have "parse_key (pe_key p) = Inr (PColumn (pe_table p) r c)"
    by (rule column_key_ref_parse)
  then show ?thesis
    using assms(3) by (simp add: in_tables_def)
qed

lemma insert_column_puts_in_tables:
  assumes "fold_res (insert_column_put L cols base) (zip es keys) ([], []) = Inr (ops, allocated)"
    and "\<forall>k \<in> set keys. in_tables T k"
  shows "ops_in T ops"
proof -
  have "ops_in T (fst (ops, allocated))"
    using assms(1)
    by (rule fold_res_invariant [where P = "\<lambda>s. ops_in T (fst s)"])
      (use assms(2) in \<open>auto simp: insert_column_put_def res_bind_Inr_iff dest!: set_zip_rightD split: if_splits\<close>)
  then show ?thesis
    by simp
qed

lemma same_table_row_tables: "validate_same_table_row es = Inr (t, r) \<Longrightarrow> p \<in> set es \<Longrightarrow> pe_table p = t"
  by (auto simp: validate_same_table_row_def split: list.splits if_splits)

lemma not_internal_application: "validate_not_internal_table t = Inr u \<Longrightarrow> application_table t"
  by (auto simp: validate_not_internal_table_def ensure_def split: if_splits)

lemma insert_puts_in_tables:
  assumes "fold_res (insert_column_put L cols base)
      (zip es (if auto then map (\<lambda>p. column_key (fst tr) r (pe_column p)) es else map pe_key es)) ([], []) = Inr puts"
    and "parse_column_entries e = Inr es" and "validate_same_table_row es = Inr tr" and "validate_not_internal_table (fst tr) = Inr u"
  shows "ops_in application_table (fst puts)"
proof -
  have "application_table (fst tr)"
    using assms(4) by (rule not_internal_application)
  moreover have "pe_table p = fst tr" if "p \<in> set es" for p
    using assms(3) that same_table_row_tables [of es "fst tr" "snd tr"] by simp
  ultimately have "\<forall>k \<in> set (if auto then map (\<lambda>p. column_key (fst tr) r (pe_column p)) es else map pe_key es). in_tables application_table k"
    using parsed_entry_in_tables [OF assms(2)] in_tables_column by simp
  then show ?thesis
    using insert_column_puts_in_tables [of L cols base es _ "fst puts" "snd puts"] assms(1) by simp
qed

lemma list_metadata_puts_in_tables:
  "list_metadata_puts t r base allocated ops = Inr ops' \<Longrightarrow> ops_in T ops \<Longrightarrow> ops_in T ops'"
  by (auto simp: list_metadata_puts_def res_bind_Inr_iff split: if_splits)

lemma insert_op_tables: "op_all (result_in application_table) (insert_op L e ctx)"
proof -
  have step: "op_all (ops_in application_table) (if auto then
        op_lift (res_bind (next_id_after row_id) (\<lambda>next_id. Inr (ops @ [next_id_put table next_id])))
      else op_bind (op_lift (ok_or Generic rep)) (\<lambda>rep_key. op_bind (verify_column_absent rep_key) (\<lambda>_. op_return ops)))"
    if "ops_in application_table ops" for auto row_id ops table rep
    using that by (auto simp: res_bind_Inr_iff intro!: op_all_lift op_all_bind_lift op_all_bind_any op_all_return)
  show ?thesis
    unfolding insert_op_def Let_def split_def
    by (rule op_all_bind_lift | rule op_all_bind_ensure | rule op_all_after [OF _ append_insert_index_puts_in_tables(3) [where T = application_table]]
        | rule op_all_after [OF _ step] | rule op_all_bind_any)+
      (rule op_all_return, simp only: result_in_simps, erule (1) list_metadata_puts_in_tables, assumption, erule (3) insert_puts_in_tables)
qed

lemma update_index_ops_in_tables:
  "fold_res (update_index_ops L t cols vals) xs ops = Inr ops' \<Longrightarrow> ops_in T ops \<Longrightarrow> ops_in T ops'"
  by (erule fold_res_invariant [where P = "ops_in T"])
    (auto simp: update_index_ops_def res_bind_Inr_iff dest!: make_index_in_tables split: if_splits option.splits prod.splits)

lemma same_table_tables: "validate_same_table es = Inr t \<Longrightarrow> p \<in> set es \<Longrightarrow> pe_table p = t"
  by (auto simp: validate_same_table_def split: list.splits if_splits)

lemma update_puts_in_tables:
  assumes "fold_res (update_index_ops L t cols vals) xs (map (\<lambda>p. to_batch_op (pe_kv p) (pe_key p)) es) = Inr ops"
    and "parse_column_entries e = Inr es" and "validate_same_table es = Inr t" and "validate_not_internal_table t = Inr u"
  shows "ops_in application_table ops"
proof -
  have "in_tables application_table (pe_key p)" if "p \<in> set es" for p
    using parsed_entry_in_tables [OF assms(2) that] same_table_tables [OF assms(3) that] not_internal_application [OF assms(4)] by simp
  then show ?thesis
    by (intro update_index_ops_in_tables [OF assms(1)]) simp
qed

lemma update_op_tables: "op_all (result_in application_table) (update_op L e ctx)"
  unfolding update_op_def Let_def
  by (rule op_all_bind_lift | rule op_all_bind_ensure | rule op_all_bind_any)+
    (rule op_all_return, simp only: result_in_simps, erule (3) update_puts_in_tables)

lemma table_from_keys_tables:
  "table_from_keys keys t = Inr (Some t') \<Longrightarrow> k \<in> set keys \<Longrightarrow> \<exists>r c. parse_key k = Inr (PColumn t' r c)"
proof (induction keys t rule: table_from_keys.induct)
  case (2 key keys t)
  have stay: "table_from_keys ks (Some u) = Inr v \<Longrightarrow> v = Some u" for ks u v
    by (induction ks "Some u" rule: table_from_keys.induct) (auto split: sum.splits parsed_key.splits if_splits)
  show ?case
    using 2 by (auto split: sum.splits parsed_key.splits option.splits if_splits dest: stay)
qed simp

lemma table_from_column_keys_in_tables:
  "table_from_column_keys keys = Inr t \<Longrightarrow> T t \<Longrightarrow> k \<in> set keys \<Longrightarrow> in_tables T k"
  by (auto simp: table_from_column_keys_def res_bind_Inr_iff in_tables_def dest: table_from_keys_tables)

lemma delete_keys_in_tables:
  "table_from_column_keys keys = Inr t \<Longrightarrow> validate_not_internal_table t = Inr u \<Longrightarrow> ops_in application_table (map BDelete keys)"
  using table_from_column_keys_in_tables [of keys t application_table] not_internal_application [of t u] by auto

lemma delete_index_entry_in_tables:
  "ops_in T ops \<Longrightarrow> op_all (ops_in T) (delete_index_entry L t r col ops)"
  unfolding delete_index_entry_def
  by (auto simp: res_bind_Inr_iff intro!: op_all_bind_any op_all_return op_all_lift dest!: make_index_in_tables split: list.splits)

lemma delete_op_tables: "op_all (result_in application_table) (delete_op L e ctx)"
proof -
  have index: "op_all (ops_in application_table) (op_fold (\<lambda>row_id. op_fold (delete_index_entry L t row_id) cols) rows ops)"
    if "ops_in application_table ops" for t cols rows ops
    using that by (intro op_all_fold delete_index_entry_in_tables)
  show ?thesis
    unfolding delete_op_def Let_def
    by (rule op_all_bind_lift | rule op_all_bind_ensure | rule op_all_after [OF _ index] | rule op_all_bind_any)+
      (rule op_all_return, simp only: result_in_simps, erule (1) delete_keys_in_tables)
qed

section \<open>Operations on lists\<close>

abbreviation lists_table :: "bytes \<Rightarrow> bool" where
  "lists_table t \<equiv> t = LISTS_TABLE"

lemma list_column_in_tables [simp]: "in_tables lists_table (column_key LISTS_TABLE r c)"
  by (rule in_tables_column) simp

lemma list_links_in_tables:
  "new_row_puts L i n p s v = Inr ops \<Longrightarrow> ops_in lists_table ops"
  "append_links L i n t v = Inr ops \<Longrightarrow> ops_in lists_table ops"
  "prepend_links L i n h v = Inr ops \<Longrightarrow> ops_in lists_table ops"
  "insert_after_links L i n p s v = Inr ops \<Longrightarrow> ops_in lists_table ops"
  "unlink_ops L i n p s = Inr ops \<Longrightarrow> ops_in lists_table ops"
  by (auto simp: append_links_def prepend_links_def insert_after_links_def unlink_ops_def new_row_puts_def
      res_bind_Inr_iff dest!: stored_i64_put_key split: if_splits)

lemma list_number_index_put_in_tables: "op_all (ops_in T) (list_number_index_put L n r)"
  unfolding list_number_index_put_def
  by (auto simp: res_bind_Inr_iff intro!: op_all_bind_any op_all_lift dest!: make_index_in_tables)

lemma insert_links_in_tables: "op_all (ops_in lists_table) (insert_links L i n p v)"
  unfolding insert_links_def
  by (auto intro!: op_all_bind_any op_all_lift dest!: list_links_in_tables)

lemma list_append_op_tables: "op_all (result_in lists_table) (list_append_op L e ctx)"
  unfolding list_append_op_def split_def
  by (rule op_all_bind_lift | rule op_all_bind_ensure | rule op_all_bind [OF list_number_index_put_in_tables] | rule op_all_bind_any)+
    (auto intro!: op_all_return dest!: list_links_in_tables)

lemma list_insert_op_tables: "op_all (result_in lists_table) (list_insert_op L e ctx)"
  unfolding list_insert_op_def split_def
  by (rule op_all_bind_lift | rule op_all_bind_ensure | rule op_all_bind [OF list_number_index_put_in_tables]
      | rule op_all_bind [OF insert_links_in_tables] | rule op_all_bind_any)+
    (auto intro!: op_all_return)

lemma list_update_op_tables: "op_all (result_in lists_table) (list_update_op L e ctx)"
proof -
  have "op_all (result_in lists_table) (list_update_op L e ctx)" if "lm_entries (ce_message e) = kvs" for kvs
  proof (cases kvs rule: remdups_adj.cases)
    case (2 kv)
    show ?thesis
      unfolding list_update_op_def that 2 split_def list.case
      by (rule op_all_bind_any op_all_return)+ simp
  qed (auto simp: list_update_op_def that intro!: op_all_bind_any op_all_lift)
  then show ?thesis
    by simp
qed

lemma list_delete_op_tables: "op_all (result_in lists_table) (list_delete_op L e ctx)"
  unfolding list_delete_op_def split_def
  by (rule op_all_bind_lift | rule op_all_bind_ensure | rule op_all_bind_any)+
    (auto intro!: op_all_return dest!: list_links_in_tables dest!: make_index_in_tables)

section \<open>Operations on members\<close>

lemma partition_tables:
  assumes "partition_composite_entry e = Inr parts"
  shows "\<forall>kv \<in> set (pce_users parts). in_tables (\<lambda>t. t = USERS_TABLE) (kv_key kv)"
    and "\<forall>kv \<in> set (pce_retention parts). in_tables (\<lambda>t. t = RETENTION_TABLE) (kv_key kv)"
    and "\<forall>kv \<in> set (pce_key_history parts). in_tables (\<lambda>t. t = KEY_HISTORY_TABLE) (kv_key kv)"
proof -
  let ?P = "\<lambda>parts. (\<forall>kv \<in> set (pce_users parts). in_tables (\<lambda>t. t = USERS_TABLE) (kv_key kv)) \<and>
    (\<forall>kv \<in> set (pce_retention parts). in_tables (\<lambda>t. t = RETENTION_TABLE) (kv_key kv)) \<and>
    (\<forall>kv \<in> set (pce_key_history parts). in_tables (\<lambda>t. t = KEY_HISTORY_TABLE) (kv_key kv))"
  have "?P parts"
    using assms unfolding partition_composite_entry_def
    by (rule fold_res_invariant [where P = ?P])
      (auto simp: partition_kv_def in_tables_def split: sum.splits parsed_key.splits if_splits)
  then show "\<forall>kv \<in> set (pce_users parts). in_tables (\<lambda>t. t = USERS_TABLE) (kv_key kv)"
    "\<forall>kv \<in> set (pce_retention parts). in_tables (\<lambda>t. t = RETENTION_TABLE) (kv_key kv)"
    "\<forall>kv \<in> set (pce_key_history parts). in_tables (\<lambda>t. t = KEY_HISTORY_TABLE) (kv_key kv)"
    by blast+
qed

lemma partition_in_tables:
  assumes "partition_composite_entry e = Inr parts"
  shows "T USERS_TABLE \<Longrightarrow> \<forall>kv \<in> set (pce_users parts). in_tables T (kv_key kv)"
    and "T RETENTION_TABLE \<Longrightarrow> \<forall>kv \<in> set (pce_retention parts). in_tables T (kv_key kv)"
    and "T KEY_HISTORY_TABLE \<Longrightarrow> \<forall>kv \<in> set (pce_key_history parts). in_tables T (kv_key kv)"
  using partition_tables [OF assms] unfolding in_tables_def by blast+

lemma insert_user_in_tables:
  assumes "\<forall>kv \<in> set kvs. in_tables T (kv_key kv)"
  shows "op_all (ops_in T) (insert_user kvs)"
  unfolding insert_user_def
  by (rule op_all_bind_lift | rule op_all_bind_any)+
    (auto intro!: op_all_return dest!: derive_keys_in_tables [OF _ assms] column_puts_in_tables)

lemma retention_op_tables: "op_all (result_in (\<lambda>t. t = RETENTION_TABLE)) (retention_op L op e)"
proof -
  have keys: "\<forall>kv \<in> set kvs. in_tables (\<lambda>t. t = RETENTION_TABLE) (kv_key kv)"
    if "table_from_column_keys (map kv_key kvs) = Inr t" "t = RETENTION_TABLE" for kvs t
    using table_from_column_keys_in_tables [OF that(1), of "\<lambda>t. t = RETENTION_TABLE"] that(2) by simp
  show ?thesis
    unfolding retention_op_def Let_def
    by (rule op_all_bind_lift | rule op_all_bind_ensure
        | rule op_all_after [OF _ append_retention_in_tables [where T = "\<lambda>t. t = RETENTION_TABLE"]] | rule op_all_bind_any)+
      (auto intro!: op_all_return simp: keys)
qed

lemma optional_retention_in_tables:
  assumes "partition_composite_entry e = Inr parts" and "T RETENTION_TABLE" and "ops_in T ops"
  shows "op_all (ops_in T) (if pce_retention parts \<noteq> [] then append_retention L (pce_retention parts) ops else op_return ops)"
  using assms(3) by (simp add: op_all_return append_retention_in_tables [OF partition_in_tables(2) [of e parts T, OF assms(1,2)] assms(3)])

lemma new_user_tables:
  assumes "partition_composite_entry e = Inr parts"
  shows "op_all (result_in (\<lambda>t. t \<in> {USERS_TABLE, RETENTION_TABLE})) (op_bind (insert_user (pce_users parts)) (\<lambda>ops.
    op_bind (if pce_retention parts \<noteq> [] then append_retention L (pce_retention parts) ops else op_return ops) (\<lambda>ops.
      op_return \<lparr>write_steps = [TWrite (sort_batch ops)]\<rparr>)))"
  by (rule op_all_bind [OF insert_user_in_tables [OF partition_in_tables(1) [OF assms, where T = "\<lambda>t. t \<in> {USERS_TABLE, RETENTION_TABLE}"]]], simp,
      rule op_all_bind [OF optional_retention_in_tables [OF assms, where T = "\<lambda>t. t \<in> {USERS_TABLE, RETENTION_TABLE}"]])
    (auto intro: op_all_return)

lemma create_space_op_tables: "op_all (result_in (\<lambda>t. t \<in> {USERS_TABLE, RETENTION_TABLE})) (create_space_op L e ctx)"
  unfolding create_space_op_def
  by (rule new_user_tables | assumption | rule op_all_bind_lift | rule op_all_bind_any)+

lemma invite_user_op_tables: "op_all (result_in (\<lambda>t. t \<in> {USERS_TABLE, RETENTION_TABLE})) (invite_user_op L e ctx)"
  unfolding invite_user_op_def
  by (rule new_user_tables | assumption | rule op_all_bind_lift | rule op_all_bind_any)+

lemma refresh_puts_in_tables:
  assumes "partition_composite_entry e = Inr parts" and "derive_column_keys_with_row_id (pce_key_history parts) r = Inr keys"
  shows "ops_in (\<lambda>t. t \<in> {USERS_TABLE, KEY_HISTORY_TABLE})
    (column_puts keys (pce_key_history parts) @ column_puts (map kv_key (pce_users parts)) (pce_users parts))"
  using column_puts_in_tables [OF derive_keys_in_tables [OF assms(2) partition_in_tables(3) [OF assms(1)]]]
    column_puts_in_tables [of "map kv_key (pce_users parts)" "\<lambda>t. t \<in> {USERS_TABLE, KEY_HISTORY_TABLE}" "pce_users parts"]
    partition_in_tables(1) [OF assms(1), of "\<lambda>t. t \<in> {USERS_TABLE, KEY_HISTORY_TABLE}"] by auto

lemma refresh_keys_op_tables: "op_all (result_in (\<lambda>t. t \<in> {USERS_TABLE, KEY_HISTORY_TABLE})) (refresh_keys_op L e ctx)"
  unfolding refresh_keys_op_def Let_def
  by (rule op_all_bind_lift
      | rule op_all_after [OF _ append_insert_index_puts_in_tables(2) [where T = "\<lambda>t. t \<in> {USERS_TABLE, KEY_HISTORY_TABLE}"]]
      | rule op_all_bind_any)+
    (rule op_all_return, simp only: result_in_simps set_sort_batch, erule (1) bump_next_id_in_tables, erule (1) refresh_puts_in_tables)

lemma remove_puts_in_tables:
  assumes "partition_composite_entry e = Inr parts" and "derive_column_keys_with_row_id (pce_key_history parts) r = Inr keys"
  shows "ops_in (\<lambda>t. t \<in> {USERS_TABLE, KEY_HISTORY_TABLE, RETENTION_TABLE})
    (map (\<lambda>kv. BDelete (kv_key kv)) (pce_users parts) @ map (kh_put bs) (zip keys (pce_key_history parts)))"
proof -
  let ?T = "\<lambda>t. t \<in> {USERS_TABLE, KEY_HISTORY_TABLE, RETENTION_TABLE}"
  have "batch_op_key (kh_put bs x) \<in> set keys" if "x \<in> set (zip keys (pce_key_history parts))" for x
    using that by (auto simp: kh_put_def dest: set_zip_leftD split: prod.splits)
  then show ?thesis
    using derive_keys_in_tables [OF assms(2) partition_in_tables(3) [OF assms(1), of ?T]] partition_in_tables(1) [OF assms(1), of ?T] by auto
qed

lemma remove_user_op_tables:
  "op_all (result_in (\<lambda>t. t \<in> {USERS_TABLE, KEY_HISTORY_TABLE, RETENTION_TABLE})) (remove_user_op L e ctx)"
  unfolding remove_user_op_def Let_def split_def
  by (rule op_all_bind_lift
      | rule op_all_after [OF _ append_insert_index_puts_in_tables(2)
          [where T = "\<lambda>t. t \<in> {USERS_TABLE, KEY_HISTORY_TABLE, RETENTION_TABLE}"]]
      | rule op_all_after [OF _ optional_retention_in_tables [where T = "\<lambda>t. t \<in> {USERS_TABLE, KEY_HISTORY_TABLE, RETENTION_TABLE}"]]
      | rule op_all_bind_any)+
    (rule op_all_return, simp only: result_in_simps set_sort_batch, assumption, simp, erule (1) bump_next_id_in_tables, erule (1) remove_puts_in_tables)

section \<open>Actions\<close>

text \<open>The tables that the legs of an action can write.\<close>

definition leg_tables :: "action_leg list \<Rightarrow> bytes \<Rightarrow> bool" where
  "leg_tables legs t \<longleftrightarrow> application_table t \<or> (\<exists>w s. LCascadeDelete t w s \<in> set legs)"

lemma cascade_delete_tables: "T t \<Longrightarrow> op_all (result_in T) (dispatch_cascade_delete L t w s row)"
proof -
  assume T: "T t"
  have rows: "op_all (ops_in T) (op_fold (cascade_row L t cols idx) rows [])" for cols idx rows
    unfolding cascade_row_def using T by (auto intro!: op_all_fold delete_index_entry_in_tables in_tables_column)
  show ?thesis
    unfolding dispatch_cascade_delete_def
    by (auto intro!: op_all_bind_any op_all_return op_all_bind [OF rows])
qed

lemma row_op_leg_tables:
  "op_all (result_in (leg_tables legs)) (insert_op L e ctx)"
  "op_all (result_in (leg_tables legs)) (update_op L e ctx)"
  "op_all (result_in (leg_tables legs)) (delete_op L e ctx)"
  by (rule op_all_mono [OF insert_op_tables] op_all_mono [OF update_op_tables] op_all_mono [OF delete_op_tables],
      erule result_in_mono, simp add: leg_tables_def)+

lemma run_leg_tables: "leg \<in> set legs \<Longrightarrow> op_all (result_in (leg_tables legs)) (run_leg L e ctx row leg kvs)"
  unfolding run_leg_def
  by (cases leg) (auto intro: leg_tables_def [THEN iffD2, OF disjI2] intro!: op_all_bind_any row_op_leg_tables cascade_delete_tables [of "leg_tables legs"])

lemma legs_tables:
  "op_all (\<lambda>steps. result_in (leg_tables legs) \<lparr>write_steps = steps\<rparr>) (op_fold (\<lambda>(leg, leg_kvs) combined.
    op_bind (run_leg L e ctx row leg leg_kvs) (\<lambda>leg_result. op_return (combined @ write_steps leg_result))) (zip legs kvss) [])"
proof (rule op_all_fold)
  fix x steps
  assume "x \<in> set (zip legs kvss)" and steps: "result_in (leg_tables legs) \<lparr>write_steps = steps\<rparr>"
  then have "fst x \<in> set legs"
    using set_zip_leftD [of "fst x" "snd x" legs kvss] by simp
  then have "op_all (\<lambda>steps. result_in (leg_tables legs) \<lparr>write_steps = steps\<rparr>)
      (op_bind (run_leg L e ctx row (fst x) (snd x)) (\<lambda>leg_result. op_return (steps @ write_steps leg_result)))"
    by (rule op_all_bind [OF run_leg_tables]) (use steps in \<open>auto simp: result_in_def intro!: op_all_return\<close>)
  then show "op_all (\<lambda>steps. result_in (leg_tables legs) \<lparr>write_steps = steps\<rparr>)
      ((\<lambda>(leg, leg_kvs) combined. op_bind (run_leg L e ctx row leg leg_kvs) (\<lambda>leg_result. op_return (combined @ write_steps leg_result))) x steps)"
    by (simp add: split_def)
qed simp

lemma op_all_post: "op_all Q m \<Longrightarrow> op_post L kvs m Q"
  unfolding op_post_def by (auto dest: op_all_run simp: run_store_def)

lemma action_op_tables:
  "op_post L kvs (action_op L e ctx) (\<lambda>res. \<exists>p name action. extract_action_marker e = Inr (p, name) \<and>
    op_value kvs (read_action L p name) = Inr (Some action) \<and> result_in (leg_tables (act_legs action)) res)"
proof -
  have "op_post L kvs (op_bind (op_fold (\<lambda>(leg, leg_kvs) combined.
        op_bind (run_leg L e ctx' row leg leg_kvs) (\<lambda>leg_result. op_return (combined @ write_steps leg_result))) (zip (act_legs action) kvss) [])
      (\<lambda>steps. op_return \<lparr>write_steps = steps\<rparr>)) (\<lambda>res. \<exists>p name action. extract_action_marker e = Inr (p, name) \<and>
    op_value kvs (read_action L p name) = Inr (Some action) \<and> result_in (leg_tables (act_legs action)) res)"
    if "extract_action_marker e = Inr (p, name)" "op_value kvs (read_action L p name) = Inr found" "ok_or Generic found = Inr action"
    for p name found action ctx' row kvss
  proof -
    have "op_value kvs (read_action L p name) = Inr (Some action)"
      using that(2,3) by (cases found) auto
    then show ?thesis
      using that(1) by (intro op_all_post op_all_bind [OF legs_tables] op_all_return) blast
  qed
  note step = this
  show ?thesis
    unfolding action_op_def Let_def
    by ((rule step, simp, assumption, assumption)
        | rule op_post_lift op_post_ensure op_post_prod op_post_bind cache_free_metadata cache_free_helpers)+
qed

section \<open>The footprint of every operation\<close>

definition writable :: "'n op_libs \<Rightarrow> (bytes \<times> bytes) list \<Rightarrow> changelog_entry \<Rightarrow> bytes \<Rightarrow> bool" where
  "writable L kvs e t = (case lm_op_type (ce_message e) of
      Op_Insert \<Rightarrow> application_table t
    | Op_Update \<Rightarrow> application_table t
    | Op_Delete \<Rightarrow> application_table t
    | Op_ListInsert \<Rightarrow> lists_table t
    | Op_ListUpdate \<Rightarrow> lists_table t
    | Op_ListDelete \<Rightarrow> lists_table t
    | Op_ListAppend \<Rightarrow> lists_table t
    | Op_CreateSpace \<Rightarrow> t \<in> {USERS_TABLE, RETENTION_TABLE}
    | Op_InviteUser \<Rightarrow> t \<in> {USERS_TABLE, RETENTION_TABLE}
    | Op_RefreshKeys \<Rightarrow> t \<in> {USERS_TABLE, KEY_HISTORY_TABLE}
    | Op_RemoveUser \<Rightarrow> t \<in> {USERS_TABLE, KEY_HISTORY_TABLE, RETENTION_TABLE}
    | Op_Extend \<Rightarrow> t = RETENTION_TABLE
    | Op_Reduce \<Rightarrow> t = RETENTION_TABLE
    | Op_Rekey \<Rightarrow> t = RETENTION_TABLE
    | Op_Action \<Rightarrow> (\<exists>p name action. extract_action_marker e = Inr (p, name) \<and>
        op_value kvs (read_action L p name) = Inr (Some action) \<and> leg_tables (act_legs action) t)
    | Op_Noop \<Rightarrow> False)"

lemma action_op_writable:
  assumes "lm_op_type (ce_message e) = Op_Action"
  shows "op_post L kvs (action_op L e ctx) (result_in (writable L kvs e))"
  by (rule op_post_mono [OF action_op_tables]) (use assms in \<open>auto simp: writable_def elim!: result_in_mono\<close>)

lemma writable_tables:
  "lm_op_type (ce_message e) = Op_Insert \<Longrightarrow> writable L kvs e = application_table"
  "lm_op_type (ce_message e) = Op_Update \<Longrightarrow> writable L kvs e = application_table"
  "lm_op_type (ce_message e) = Op_Delete \<Longrightarrow> writable L kvs e = application_table"
  "lm_op_type (ce_message e) = Op_ListInsert \<Longrightarrow> writable L kvs e = lists_table"
  "lm_op_type (ce_message e) = Op_ListUpdate \<Longrightarrow> writable L kvs e = lists_table"
  "lm_op_type (ce_message e) = Op_ListDelete \<Longrightarrow> writable L kvs e = lists_table"
  "lm_op_type (ce_message e) = Op_ListAppend \<Longrightarrow> writable L kvs e = lists_table"
  "lm_op_type (ce_message e) = Op_CreateSpace \<Longrightarrow> writable L kvs e = (\<lambda>t. t \<in> {USERS_TABLE, RETENTION_TABLE})"
  "lm_op_type (ce_message e) = Op_InviteUser \<Longrightarrow> writable L kvs e = (\<lambda>t. t \<in> {USERS_TABLE, RETENTION_TABLE})"
  "lm_op_type (ce_message e) = Op_RefreshKeys \<Longrightarrow> writable L kvs e = (\<lambda>t. t \<in> {USERS_TABLE, KEY_HISTORY_TABLE})"
  "lm_op_type (ce_message e) = Op_RemoveUser \<Longrightarrow> writable L kvs e = (\<lambda>t. t \<in> {USERS_TABLE, KEY_HISTORY_TABLE, RETENTION_TABLE})"
  "lm_op_type (ce_message e) = Op_Extend \<Longrightarrow> writable L kvs e = (\<lambda>t. t = RETENTION_TABLE)"
  "lm_op_type (ce_message e) = Op_Reduce \<Longrightarrow> writable L kvs e = (\<lambda>t. t = RETENTION_TABLE)"
  "lm_op_type (ce_message e) = Op_Rekey \<Longrightarrow> writable L kvs e = (\<lambda>t. t = RETENTION_TABLE)"
  by (simp_all add: writable_def fun_eq_iff)

lemma dispatch_writable: "op_post L kvs (dispatch_extract_and_validate L e ctx) (result_in (writable L kvs e))"
  unfolding dispatch_extract_and_validate_def extend_op_def reduce_op_def rekey_op_def
  by (rule op_post_bind, rule cache_free_gates, cases "lm_op_type (ce_message e)")
    (simp_all only: op_type.case writable_tables action_op_writable op_all_post insert_op_tables update_op_tables delete_op_tables
      list_append_op_tables list_insert_op_tables list_update_op_tables list_delete_op_tables create_space_op_tables
      invite_user_op_tables refresh_keys_op_tables remove_user_op_tables retention_op_tables op_post_return result_in_simps)

text \<open>C9: every operation writes its own tables only.  When an accepted change alters the stored value of a
  column, the column belongs to a table that the kind of the operation may write: an application table for
  the operations on rows, \<open>_lists\<close> for the operations on lists, the user, key-history and retention tables
  for the operations on members, and for an action an application table or the target of a cascading
  delete that the stored action declares.  In particular no insertion, update or deletion of rows, and no
  operation on lists or on the retention chain, alters a user.\<close>

theorem changes_stay_in_footprint:
  assumes "sorted_map kvs" and "coherent L kvs c"
    and "run_store kvs (dispatch_extract_and_validate L e ctx c) = Inr (res, c')" and "flatten_write_steps res = Inr writes"
    and "valid_utf8 t" "valid_utf8 col"
    and "map_of (fold write_op writes kvs) (column_key t r col) \<noteq> map_of kvs (column_key t r col)"
  shows "writable L kvs e t"
proof -
  have "fold store_op writes (map_of kvs) (column_key t r col) \<noteq> map_of kvs (column_key t r col)"
    using assms(7) write_ops [OF assms(1), of writes] by simp
  then obtain b where b: "b \<in> set writes" "batch_op_key b = column_key t r col"
    using fold_store_op_other [of writes "column_key t r col" "map_of kvs"] by auto
  moreover have "result_in (writable L kvs e) res"
    using op_post_run [OF dispatch_writable assms(2,3)] .
  ultimately have "in_tables (writable L kvs e) (column_key t r col)"
    using assms(4) by (fastforce simp: result_in_def flatten_write_steps_iff)
  then show ?thesis
    using parse_key_row(3) [OF assms(5,6), of r] by (auto simp: in_tables_def)
qed

theorem changes_stay_in_footprint_witness:
  "\<exists>c. run_store demo_store (dispatch_extract_and_validate plain_libs demo_insert (for_change_id 1) cache_default) =
      Inr (\<lparr>write_steps = [TWrite [BPut (column_key (str ''t'') 1 (str ''v'')) [7], next_id_put (str ''t'') 2]]\<rparr>, c) \<and>
    writable plain_libs demo_store demo_insert (str ''t'') \<and> \<not> writable plain_libs demo_store demo_insert USERS_TABLE"
proof -
  let ?ops = "[BPut (column_key (str ''t'') 1 (str ''v'')) [7], next_id_put (str ''t'') 2]"
  obtain c where c: "run_store demo_store (dispatch_extract_and_validate plain_libs demo_insert (for_change_id 1) cache_default) =
      Inr (\<lparr>write_steps = [TWrite ?ops]\<rparr>, c)"
    using op_value_run [OF demo_insert_accepted] by blast
  have sorted: "sorted_map demo_store"
    unfolding demo_store_def by (rule store_of_list)
  have keys: "column_key (str ''t'') 1 (str ''v'') \<notin> {user_status_key 1, schema_columns_key (str ''t''), schema_id_mode_key (str ''t''),
      schema_next_id_key (str ''t'')}"
    by (simp add: user_status_key_def builder_defs tuple_codec.encode_eq_iff str_inject USERS_TABLE_def TAG_ROW_def TAG_SCHEMA_def)
  then have "map_of demo_store (column_key (str ''t'') 1 (str ''v'')) = None"
    unfolding demo_store_def store_of_list(2) by simp
  moreover have "map_of (fold write_op ?ops demo_store) (column_key (str ''t'') 1 (str ''v'')) = Some [7]"
    using keys write_ops [OF sorted, of ?ops] by (simp add: next_id_put_def)
  ultimately have "writable plain_libs demo_store demo_insert (str ''t'')"
    by (intro changes_stay_in_footprint [OF sorted coherent_default c, of ?ops _ "str ''v''" 1])
      (simp_all add: flatten_write_steps_def str_def)
  then show ?thesis
    using c by (simp add: writable_def demo_insert_fields USERS_TABLE_def str_def)
qed

end
