(* ===== verification/Ops_Gaps.thy ===== *)
theory Ops_Gaps
  imports Ops_Auth
begin

text \<open>
  Changes that the operations accept although their checks are meant to exclude them, and one that they
  reject although it has the documented form, each on a concrete space:

  \<^item> a change that refreshes the keys of one user and writes the row of another: the operation checks the
    key history of the acting user, but not that the written columns of \<open>_users\<close> are in that user's row;
  \<^item> an insertion with an explicit identifier for a row that exists: the row identifier of the key is
    written with a leading zero byte, so the key that is tested for absence is not the key of the row;
  \<^item> two rows of the retention chain, in the order of their keys, for which the index entries are computed
    over chunks that mix the rows.
\<close>

section \<open>A refresh that writes a foreign row\<close>

definition victim_store :: "(bytes \<times> bytes) list" where
  "victim_store = store_of_list
    [(user_status_key 1, u64_to_be_bytes 0),
     (column_key USERS_TABLE 1 (str ''auth_key''), [1]),
     (user_status_key 2, u64_to_be_bytes 1),
     (column_key USERS_TABLE 2 (str ''auth_key''), [2])]"

definition history_entries :: "kv_data list" where
  "history_entries =
    [\<lparr>kv_key = column_key KEY_HISTORY_TABLE 0 (str ''old_auth_key''), kv_value = [1]\<rparr>,
     \<lparr>kv_key = column_key KEY_HISTORY_TABLE 0 (str ''uid''), kv_value = u64_to_be_bytes 1\<rparr>,
     \<lparr>kv_key = column_key KEY_HISTORY_TABLE 0 (str ''valid_from_change_id''), kv_value = u64_to_be_bytes 0\<rparr>,
     \<lparr>kv_key = column_key KEY_HISTORY_TABLE 0 (str ''valid_to_change_id''), kv_value = u64_to_be_bytes 0\<rparr>]"

definition foreign_entry :: kv_data where
  "foreign_entry = \<lparr>kv_key = column_key USERS_TABLE 2 (str ''auth_key''), kv_value = [3]\<rparr>"

definition foreign_refresh :: changelog_entry where
  "foreign_refresh = default_entry\<lparr>ce_uid := 1, ce_message := \<lparr>lm_op_type = Op_RefreshKeys, lm_tree_path = [],
    lm_entries = history_entries @ [foreign_entry]\<rparr>\<rparr>"

lemma foreign_fields:
  "ce_uid foreign_refresh = 1" "ce_sig_ref foreign_refresh = 0" "lm_op_type (ce_message foreign_refresh) = Op_RefreshKeys"
  "lm_entries (ce_message foreign_refresh) = history_entries @ [foreign_entry]"
  by (simp_all add: foreign_refresh_def default_entry_def)

lemma utf8_names:
  "valid_utf8 KEY_HISTORY_TABLE" "valid_utf8 USERS_TABLE" "valid_utf8 (str ''old_auth_key'')" "valid_utf8 (str ''uid'')"
  "valid_utf8 (str ''valid_from_change_id'')" "valid_utf8 (str ''valid_to_change_id'')" "valid_utf8 (str ''auth_key'')"
  by (simp_all add: str_def KEY_HISTORY_TABLE_def USERS_TABLE_def)

lemma tables_differ: "KEY_HISTORY_TABLE \<noteq> USERS_TABLE" "KEY_HISTORY_TABLE \<noteq> RETENTION_TABLE" "USERS_TABLE \<noteq> RETENTION_TABLE"
  by (simp_all add: KEY_HISTORY_TABLE_def USERS_TABLE_def RETENTION_TABLE_def str_inject)

lemma foreign_sorted: "validate_sorted_entries foreign_refresh = Inr ()"
  by (simp add: validate_sorted_entries_def foreign_fields history_entries_def foreign_entry_def column_key_def tuple_codec.encode_less
      ensure_def)
    (simp add: KEY_HISTORY_TABLE_def USERS_TABLE_def str_def elem_less_def)

lemma foreign_parts:
  "partition_composite_entry foreign_refresh = Inr \<lparr>pce_key_history = history_entries, pce_retention = [], pce_users = [foreign_entry]\<rparr>"
  by (simp add: partition_composite_entry_def foreign_fields partition_kv_def history_entries_def foreign_entry_def parse_key_row(3) utf8_names
      tables_differ)

section \<open>The checks of the operation\<close>

lemma victim_sorted: "sorted_map victim_store"
  unfolding victim_store_def by (rule store_of_list)

lemma victim_reads:
  "map_of victim_store (user_status_key 1) = Some (u64_to_be_bytes 0)"
  "map_of victim_store (column_key USERS_TABLE 1 (str ''auth_key'')) = Some [1]"
  "map_of victim_store (schema_next_id_key table) = None"
  "map_of victim_store (schema_indexes_key table) = None"
  unfolding victim_store_def store_of_list(2) user_status_key_def
  by (simp_all add: builder_defs tuple_codec.encode_eq_iff str_inject TAG_ROW_def TAG_SCHEMA_def)

lemma store_keys: "fst ` set (store_of_list xs) = fst ` set xs"
proof -
  have "fst ` set (fold write_op (map (\<lambda>(k, v). BPut k v) xs) kvs) = fst ` set kvs \<union> fst ` set xs" for kvs
    by (induction xs arbitrary: kvs) (simp_all add: keys_btree_insert split_def)
  then show ?thesis
    by (simp add: store_of_list_def)
qed

lemma victim_no_index:
  assumes "index_value_prefix t c (Inr (TInt i)) = Inr p"
  shows "filter (\<lambda>(k, _). prefix p k) victim_store = []"
proof -
  have p: "p = encode_tuple [TString TAG_INDEX, TString t, TString c, TInt i]"
    using assms by (simp add: index_value_prefix_def)
  have "\<not> prefix p (column_key t' r c')" for t' r c'
    unfolding p column_key_def by (subst encode_tuple_prefix_iff) (simp_all add: TAG_INDEX_def TAG_ROW_def str_inject)
  moreover have "fst ` set victim_store \<subseteq> {column_key t r c | t r c. True}"
    unfolding victim_store_def store_keys by (auto simp: user_status_key_def)
  ultimately show ?thesis
    by (force simp: filter_empty_conv)
qed

lemma plain_integers:
  "parse_i64_column_value plain_libs (u64_to_be_bytes i) = Some i"
  "kh_uid_value plain_libs (u64_to_be_bytes i) = Some i"
  by (simp_all add: parse_i64_column_value_def kh_uid_value_def bytes_to_value_def plain_libs_def)

lemma foreign_user: "op_value victim_store (validate_user_access plain_libs foreign_refresh Op_RefreshKeys) = Inr ()"
  using validate_user_access_value [OF victim_sorted, of plain_libs foreign_refresh Op_RefreshKeys] victim_reads(1)
  by (simp add: known_user_def foreign_fields)

lemma foreign_next_id: "op_value victim_store (read_next_id KEY_HISTORY_TABLE) = Inr 1"
  by (simp add: read_next_id_value [OF victim_sorted] next_row_id_def victim_reads)

definition history_keys :: "bytes list" where
  "history_keys = map (column_key KEY_HISTORY_TABLE 1)
    [str ''old_auth_key'', str ''uid'', str ''valid_from_change_id'', str ''valid_to_change_id'']"

lemma foreign_history:
  "derive_column_keys_with_row_id history_entries 1 = Inr history_keys"
  "extract_i64_from_kh_entries plain_libs history_entries (str ''valid_to_change_id'') = Inr 0"
  "extract_i64_from_kh_entries plain_libs history_entries (str ''valid_from_change_id'') = Inr 0"
  "extract_value_from_kh_entries history_entries (str ''old_auth_key'') = Inr [1]"
  by (simp_all add: derive_column_keys_with_row_id_def rebuild_column_key_with_row_id_def history_entries_def history_keys_def
      extract_i64_from_kh_entries_def extract_value_from_kh_entries_def has_column_def parse_key_row(3) utf8_names str_inject
      decode_i64_column_value_def plain_integers)

lemma foreign_history_valid: "validate_key_history_entries plain_libs history_keys history_entries 1 = Inr 1"
  by (simp add: validate_key_history_entries_def history_entries_def history_keys_def match_kh_entry_def check_kh_uid_def parse_key_row(3)
      utf8_names table_from_column_keys_def column_names_from_keys_def KEY_HISTORY_REQUIRED_COLUMNS_def set_btree_set List.map_filter_simps
      plain_integers str_inject)

lemma foreign_columns: "column_names_from_keys [kv_key foreign_entry] = [str ''auth_key'']" "table_from_column_keys [kv_key foreign_entry] = Inr USERS_TABLE"
  by (simp_all add: column_names_from_keys_def table_from_column_keys_def foreign_entry_def parse_key_row(3) utf8_names List.map_filter_simps
      btree_set_def)

lemma foreign_auth: "op_value victim_store (check_old_auth_key history_entries 1) = Inr ()"
  by (simp add: check_old_auth_key_def foreign_history op_value_bind [of plain_libs] cache_free_intros op_value_read_key [OF victim_sorted]
      victim_reads del: op_value_simps(4))

lemma foreign_ranges: "op_value victim_store (read_kh_ranges_indexed plain_libs 1) = Inr []"
proof -
  have "op_value victim_store (read_indexed_row_ids KEY_HISTORY_TABLE (str ''uid'') 1) = Inr []"
    using victim_no_index [of KEY_HISTORY_TABLE "str ''uid''" 1]
    by (simp add: read_indexed_row_ids_def op_value_bind [of plain_libs] cache_free_intros index_value_prefix_def btree_set_def)
  then show ?thesis
    unfolding read_kh_ranges_indexed_def
    by (subst op_value_bind [of plain_libs])
      (auto intro!: cache_free_intros cache_free_helpers simp: read_kh_range_def split_def)
qed

lemma foreign_index: "op_value victim_store (append_insert_index_puts plain_libs ops KEY_HISTORY_TABLE 1 history_entries) = Inr ops"
  by (simp add: append_insert_index_puts_def append_insert_index_puts_skip_def op_value_bind [of plain_libs] cache_free_intros
      cache_free_metadata op_value_cached results_names_def optional_result_def key_results_sorted [OF victim_sorted] victim_reads)

section \<open>The row of another user is overwritten\<close>

text \<open>A change that refreshes the keys of user 1, who is provisional, is accepted although it writes the
  authentication key of user 2: the operation does not compare the row of the written columns of \<open>_users\<close>
  with the acting user.\<close>

theorem refresh_writes_foreign_row:
  "\<exists>ops. op_value victim_store (dispatch_extract_and_validate plain_libs foreign_refresh ctx) = Inr \<lparr>write_steps = [TWrite ops]\<rparr> \<and>
    ce_uid foreign_refresh = 1 \<and> \<not> active_user plain_libs victim_store 1 \<and>
    BPut (column_key USERS_TABLE 2 (str ''auth_key'')) [3] \<in> set ops"
proof -
  have gate: "op_value victim_store (enforce_dispatch_gating plain_libs foreign_refresh ctx) = Inr ()"
    by (simp add: enforce_dispatch_gating_def gated_operation_def foreign_fields)
  have free: "cache_free plain_libs victim_store (refresh_keys_op plain_libs foreign_refresh ctx)"
    by (rule cache_free_member_ops)
  have small: "history_entries \<noteq> []" "USERS_TABLE = str ''_users''" "str ''auth_key'' \<in> set REFRESH_KEYS_ALLOWED_COLUMNS"
      "check_kh_range 0 0 [] = Inr ()"
    by (simp_all add: history_entries_def USERS_TABLE_def REFRESH_KEYS_ALLOWED_COLUMNS_def check_kh_range_def)
  have "\<exists>ops. op_value victim_store (refresh_keys_op plain_libs foreign_refresh ctx) = Inr \<lparr>write_steps = [TWrite (sort_batch ops)]\<rparr> \<and>
      BPut (kv_key foreign_entry) (kv_value foreign_entry) \<in> set ops"
    by (simp add: refresh_keys_op_def Let_def foreign_sorted foreign_parts op_value_bind [of plain_libs] cache_free_intros cache_free_helpers
        foreign_user foreign_next_id foreign_fields foreign_history foreign_history_valid foreign_columns foreign_auth foreign_ranges
        foreign_index small bump_next_id_after_chain_def next_id_after_def i64_checked_add_def)
      (rule exI, rule conjI, rule refl, simp add: column_puts_def to_batch_op_def)
  then obtain ops where ops: "op_value victim_store (refresh_keys_op plain_libs foreign_refresh ctx) = Inr \<lparr>write_steps = [TWrite (sort_batch ops)]\<rparr>"
      "BPut (column_key USERS_TABLE 2 (str ''auth_key'')) [3] \<in> set (sort_batch ops)"
    by (auto simp: foreign_entry_def)
  have "op_value victim_store (dispatch_extract_and_validate plain_libs foreign_refresh ctx) = Inr \<lparr>write_steps = [TWrite (sort_batch ops)]\<rparr>"
    using ops(1) gate free by (simp add: dispatch_extract_and_validate_def op_value_bind [of plain_libs] cache_free_gates foreign_fields)
  moreover have "\<not> active_user plain_libs victim_store 1"
    by (simp add: active_user_def victim_reads plain_integers)
  ultimately show ?thesis
    using ops(2) foreign_fields(1) by blast
qed

section \<open>A second row under the same identifier\<close>

text \<open>
  An integer can be written with leading zero bytes, and the parser of column keys accepts such a key.
  An insertion into a table with explicit identifiers checks with the key of the entry that the row is
  absent, and writes under that key.
\<close>

definition long_key :: bytes where
  "long_key = [1, 0x52, 0, 1, 0x65, 0, 0x16, 0, 5, 1, 0x76, 0]"

lemma long_key_differs: "long_key \<noteq> column_key (str ''e'') 5 (str ''v'')"
proof -
  have "\<not> 256 * (256 :: nat) ^ n \<le> 5" for n
    using one_le_power [of "256 :: nat" n] by linarith
  then have "byte_len 5 = 1"
    using byte_len_bounds [of 5] by (cases "byte_len 5 - 1") auto
  then have "length (column_key (str ''e'') 5 (str ''v'')) = 11"
    by (simp add: column_key_def encode_tuple_simps TAG_ROW_def str_def encode_int_pos word_sless_alt)
  moreover have "length long_key = 12"
    by (simp add: long_key_def)
  ultimately show ?thesis
    by auto
qed

lemma long_key_parses: "parse_column_key_ref long_key = Inr (str ''e'', 5, str ''v'')"
proof -
  have "replicate 6 (0 :: u8) = [0, 0, 0, 0, 0, 0]"
    by (simp add: numeral_eq_Suc)
  then have "u64_from_be_bytes (replicate 6 0 @ [0, 5]) = 5"
    by (simp add: u64_from_be_bytes_def be_nat_def)
  then show ?thesis
    unfolding parse_column_key_ref_chain
    by (intro exI [of _ 3]) (simp add: long_key_def decode_element_def NULL_CODE_def BYTES_CODE_def INT_ZERO_CODE_def POS_INT_END_def
        decode_bytes_value_def str_def TAG_ROW_def)
qed

definition twin_store :: "(bytes \<times> bytes) list" where
  "twin_store = store_of_list
    [(user_status_key 1, u64_to_be_bytes 1),
     (schema_columns_key (str ''e''), str ''v''),
     (schema_id_mode_key (str ''e''), [1]),
     (column_key (str ''e'') 5 (str ''v''), [7])]"

definition twin_insert :: changelog_entry where
  "twin_insert = default_entry\<lparr>ce_uid := 1, ce_message := \<lparr>lm_op_type = Op_Insert, lm_tree_path = [],
    lm_entries = [\<lparr>kv_key = long_key, kv_value = [8]\<rparr>]\<rparr>\<rparr>"

lemma twin_sorted: "sorted_map twin_store"
  unfolding twin_store_def by (rule store_of_list)

lemma twin_reads:
  "map_of twin_store (user_status_key 1) = Some (u64_to_be_bytes 1)"
  "map_of twin_store (schema_columns_key (str ''e'')) = Some (str ''v'')"
  "map_of twin_store (schema_id_mode_key (str ''e'')) = Some [1]"
  "map_of twin_store (column_key (str ''e'') 5 (str ''v'')) = Some [7]"
  "map_of twin_store (schema_indexes_key (str ''e'')) = None"
  "map_of twin_store (schema_list_columns_key (str ''e'')) = None"
  "map_of twin_store (acl_rule_key (str ''e'') op) = None"
  "map_of twin_store (acl_only_via_actions_key (str ''e'') op) = None"
  unfolding twin_store_def store_of_list(2) user_status_key_def
  by (simp_all add: builder_defs tuple_codec.encode_eq_iff str_inject TAG_ROW_def TAG_SCHEMA_def USERS_TABLE_def)

lemma twin_absent: "map_of twin_store long_key = None"
proof -
  have "parse_key k \<noteq> Inr (PColumn (str ''e'') 5 (str ''v''))" if "k \<in> fst ` set twin_store" "k \<noteq> column_key (str ''e'') 5 (str ''v'')" for k
  proof -
    have "k \<in> {user_status_key 1, schema_columns_key (str ''e''), schema_id_mode_key (str ''e'')}"
      using that unfolding twin_store_def store_keys by auto
    moreover have "static_key (schema_columns_key (str ''e''))" "static_key (schema_id_mode_key (str ''e''))"
      by (auto simp: static_key_def)
    ultimately show ?thesis
      by (auto simp: user_status_key_def parse_key_row(3) utf8_names str_inject USERS_TABLE_def str_def dest: parse_key_static)
  qed
  then have "long_key \<notin> fst ` set twin_store"
    using column_key_ref_parse [OF long_key_parses] long_key_differs by blast
  then show ?thesis
    by (simp add: map_of_eq_None_iff)
qed

lemma twin_fields:
  "ce_uid twin_insert = 1" "lm_op_type (ce_message twin_insert) = Op_Insert"
  "lm_entries (ce_message twin_insert) = [\<lparr>kv_key = long_key, kv_value = [8]\<rparr>]"
  by (simp_all add: twin_insert_def)

lemma twin_table: "validate_not_internal_table (str ''e'') = Inr ()" "\<not> is_internal_table (str ''e'')"
  by (simp_all add: validate_not_internal_table_def is_internal_table_def str_def USERS_TABLE_def RETENTION_TABLE_def
      KEY_HISTORY_TABLE_def ensure_def)

lemma twin_checks:
  "validate_sorted_entries twin_insert = Inr ()"
  "parse_column_entries twin_insert = Inr [\<lparr>pe_kv = \<lparr>kv_key = long_key, kv_value = [8]\<rparr>, pe_key = long_key,
    pe_table = str ''e'', pe_row_id = 5, pe_column = str ''v''\<rparr>]"
  "validate_max_entries twin_insert = Inr ()"
  "op_value twin_store (enforce_dispatch_gating plain_libs twin_insert ctx) = Inr ()"
  "op_value twin_store (validate_user_access plain_libs twin_insert Op_Insert) = Inr ()"
  "op_value twin_store (insert_row_id (str ''e'') 5 False) = Inr 5"
  "op_value twin_store (insert_acl plain_libs twin_insert (str ''e'') 5) = Inr ()"
  "op_value twin_store (verify_column_absent long_key) = Inr ()"
  by (simp_all add: validate_sorted_entries_def parse_column_entries_def parse_column_entry_def twin_fields long_key_parses ensure_def
      validate_max_entries_def MAX_LOGMSG_ENTRIES_def enforce_dispatch_gating_def gated_operation_def column_keys_from_entry_def
      table_from_column_keys_def column_key_ref_parse [OF long_key_parses] twin_table enforce_only_via_actions_def op_value_bind [of plain_libs]
      cache_free_intros cache_free_metadata op_value_cached key_results_sorted [OF twin_sorted] twin_reads results_gate_def optional_result_def
      validate_user_access_value [OF twin_sorted] active_user_def plain_integers insert_row_id_value classify_insert_id_def
      validate_insert_id_def word_sless_alt insert_acl_def results_rule_def o_def Let_def verify_column_absent_def
      op_value_read_key [OF twin_sorted] twin_absent del: op_value_simps(4))

text \<open>An insertion is accepted although the row exists, and leaves the old and the new column, both of which
  parse as the same column of the same row.\<close>

theorem insert_accepted_for_existing_row:
  "op_value twin_store (dispatch_extract_and_validate plain_libs twin_insert ctx) = Inr \<lparr>write_steps = [TWrite [BPut long_key [8]]]\<rparr> \<and>
    map_of (fold write_op [BPut long_key [8]] twin_store) (column_key (str ''e'') 5 (str ''v'')) = Some [7] \<and>
    map_of (fold write_op [BPut long_key [8]] twin_store) long_key = Some [8] \<and>
    parse_key long_key = parse_key (column_key (str ''e'') 5 (str ''v''))"
proof -
  have "op_value twin_store (insert_op plain_libs twin_insert ctx) = Inr \<lparr>write_steps = [TWrite [BPut long_key [8]]]\<rparr>"
    by (simp add: insert_op_def Let_def twin_checks twin_table op_value_bind [of plain_libs] cache_free_intros cache_free_metadata
        cache_free_helpers validate_same_table_row_def op_value_cached key_results_sorted [OF twin_sorted] twin_reads results_columns_def
        results_names_def results_auto_increment_def optional_result_def parse_auto_increment_def demo_columns column_name_set_def
        btree_set_def check_list_placeholders_def read_list_number_base_def insert_column_put_def to_batch_op_def
        append_insert_index_puts_parsed_skip_def list_metadata_puts_def)
  moreover have "map_of (fold write_op [BPut long_key [8]] twin_store) = (map_of twin_store)(long_key \<mapsto> [8])"
    using map_of_btree_insert [OF twin_sorted] by simp
  ultimately show ?thesis
    using long_key_differs twin_checks(4) twin_reads(4) column_key_ref_parse [OF long_key_parses]
    by (simp add: dispatch_extract_and_validate_def op_value_bind [of plain_libs] cache_free_gates cache_free_insert_op twin_fields
        parse_key_row(3) str_def)
qed

section \<open>Rows of the retention chain in key order\<close>

text \<open>
  The keys of the rows that are appended to \<open>_retention\<close> are derived from entries in the order of their
  keys, grouped by column.  The index entries are then computed for consecutive chunks of columns, each of
  which must belong to one row.  Two rows in the order of their keys therefore get their row keys and are
  rejected in the next step.
\<close>

definition two_rows :: "bytes \<Rightarrow> bytes \<Rightarrow> bytes \<Rightarrow> bytes \<Rightarrow> kv_data list" where
  "two_rows a b c d =
    [\<lparr>kv_key = column_key RETENTION_TABLE 0 (str ''key''), kv_value = a\<rparr>, \<lparr>kv_key = column_key RETENTION_TABLE 0 (str ''key''), kv_value = b\<rparr>,
     \<lparr>kv_key = column_key RETENTION_TABLE 0 (str ''value''), kv_value = c\<rparr>, \<lparr>kv_key = column_key RETENTION_TABLE 0 (str ''value''), kv_value = d\<rparr>]"

definition two_row_keys :: "i64 \<Rightarrow> bytes list" where
  "two_row_keys n = [column_key RETENTION_TABLE n (str ''key''), column_key RETENTION_TABLE (n + 1) (str ''key''),
    column_key RETENTION_TABLE n (str ''value''), column_key RETENTION_TABLE (n + 1) (str ''value'')]"

lemma retention_utf8: "valid_utf8 RETENTION_TABLE" "valid_utf8 (str ''key'')" "valid_utf8 (str ''value'')"
  by (simp_all add: RETENTION_TABLE_def str_def)

lemma two_rows_derived:
  assumes "i64_checked_add n 0 = Some n" and "i64_checked_add n 1 = Some (n + 1)"
  shows "derive_column_keys_for_chain (two_rows a b c d) n 2 = Inr (two_row_keys n)"
  by (simp add: derive_column_keys_for_chain_def two_rows_def two_row_keys_def Let_def parse_key_row(3) retention_utf8
      rebuild_column_key_with_row_id_def assms str_inject)

theorem sorted_chain_rejected:
  assumes "i64_checked_add n 0 = Some n" and "i64_checked_add n 1 = Some (n + 1)"
    and "op_value kvs (read_schema_columns RETENTION_TABLE) = Inr [str ''key'', str ''value'']"
  shows "derive_column_keys_for_chain (two_rows a b c d) n 2 = Inr (two_row_keys n)"
    and "op_value kvs (append_multi_row_insert_index_puts L ops RETENTION_TABLE (two_row_keys n) (two_rows a b c d)) = Inl Generic"
proof -
  show "derive_column_keys_for_chain (two_rows a b c d) n 2 = Inr (two_row_keys n)"
    using assms(1,2) by (rule two_rows_derived)
  have first: "validate_consistent_column_key_row_id (slice (two_row_keys n) 0 2) = Inl Generic"
    by (simp add: validate_consistent_column_key_row_id_def slice_def two_row_keys_def parse_key_row(3) retention_utf8 numeral_2_eq_2)
  have chunk_free: "cache_free L kvs (append_chunk_index_puts L RETENTION_TABLE ks es k i bs)" for ks es k i bs
    unfolding append_chunk_index_puts_def split_def Let_def by (rule cache_free_intros cache_free_helpers)+
  have len: "length (two_row_keys n) = 4"
    by (simp add: two_row_keys_def)
  have "op_value kvs (append_chunk_index_puts L RETENTION_TABLE (two_row_keys n) (two_rows a b c d) 2 0 ops) = Inl Generic"
    unfolding append_chunk_index_puts_def split_def Let_def
    by (subst op_value_bind [of L], (rule cache_free_intros cache_free_helpers)+) (simp add: len first [unfolded numeral_2_eq_2])
  moreover have "step_by 4 2 = [0, 2]"
    by (simp add: step_by_def upt_rec)
  ultimately have rows: "op_value kvs (op_fold (append_chunk_index_puts L RETENTION_TABLE (two_row_keys n) (two_rows a b c d) 2) (step_by 4 2) ops) = Inl Generic"
    unfolding op_value_fold [OF chunk_free] by simp
  show "op_value kvs (append_multi_row_insert_index_puts L ops RETENTION_TABLE (two_row_keys n) (two_rows a b c d)) = Inl Generic"
    unfolding append_multi_row_insert_index_puts_def Let_def
    by (subst op_value_bind [of L], (rule cache_free_intros cache_free_metadata chunk_free)+) (simp add: assms(3) len rows [unfolded numeral_2_eq_2])
qed

end
