(* ===== verification/Ops_List_Spec.thy ===== *)
theory Ops_List_Spec
  imports Ops_Auth
begin

text \<open>
  The lists of a space, abstractly: a map from list numbers to sequences of elements, each with its row
  identifier and value, and the next identifier.  The rows of \<open>_lists\<close> represent them as doubly linked
  lists with head and tail pointers.  The operations of \<open>list_op.rs\<close> are shown to implement appending,
  inserting, updating and deleting of elements, and to leave all other lists alone.
\<close>

section \<open>Keys\<close>

lemma list_key_eqs:
  "column_key t r c = column_key t' r' c' \<longleftrightarrow> t = t' \<and> r = r' \<and> c = c'"
  "list_head_key n = list_head_key n' \<longleftrightarrow> n = n'" "list_tail_key n = list_tail_key n' \<longleftrightarrow> n = n'"
  "list_head_key n \<noteq> list_tail_key n'" "list_tail_key n \<noteq> list_head_key n'"
  "column_key t r c \<noteq> list_head_key n" "column_key t r c \<noteq> list_tail_key n" "column_key t r c \<noteq> schema_next_id_key t'"
  "list_head_key n \<noteq> column_key t r c" "list_tail_key n \<noteq> column_key t r c" "schema_next_id_key t' \<noteq> column_key t r c"
  "list_head_key n \<noteq> schema_next_id_key t" "list_tail_key n \<noteq> schema_next_id_key t"
  "schema_next_id_key t \<noteq> list_head_key n" "schema_next_id_key t \<noteq> list_tail_key n"
  by (auto simp: builder_defs tuple_codec.encode_eq_iff TAG_ROW_def TAG_SCHEMA_def str_inject)

lemma index_key_neqs:
  assumes "index_key t c v r = Inr k"
  shows "k \<noteq> column_key t' r' c'" "k \<noteq> list_head_key n" "k \<noteq> list_tail_key n" "k \<noteq> schema_next_id_key t'"
  using assms by (auto simp: builder_defs tuple_codec.encode_eq_iff TAG_ROW_def TAG_SCHEMA_def TAG_INDEX_def str_inject res_bind_Inr_iff)

section \<open>Stored integers\<close>

text \<open>Stored integers are read back: the number format of \<open>serde_json\<close> and the encoding of \<open>postcard\<close>
  keep every 64-bit integer.\<close>

definition stores_integers :: "'n op_libs \<Rightarrow> bool" where
  "stores_integers L \<longleftrightarrow> (\<forall>i. \<exists>bs. value_to_bytes L (JNumber (ol_from_i64 L i)) = Inr bs \<and> parse_i64_column_value L bs = Some i)"

lemma stored_i64_put_reads:
  assumes "stores_integers L" and "stored_i64_put L key i = Inr b"
  obtains bs where "b = BPut key bs" and "parse_i64_column_value L bs = Some i"
proof -
  obtain bs where "value_to_bytes L (JNumber (ol_from_i64 L i)) = Inr bs" "parse_i64_column_value L bs = Some i"
    using assms(1) unfolding stores_integers_def by blast
  then show ?thesis
    using that assms(2) by (auto simp: stored_i64_put_def)
qed

type_synonym store_map = "bytes \<Rightarrow> bytes option"

definition pointer :: "store_map \<Rightarrow> bytes \<Rightarrow> i64 option" where
  "pointer m k = (case m k of Some bs \<Rightarrow> if length bs = 8 then Some (u64_from_be_bytes bs) else None | None \<Rightarrow> None)"

definition cell :: "'n op_libs \<Rightarrow> store_map \<Rightarrow> i64 \<Rightarrow> char list \<Rightarrow> i64 option" where
  "cell L m row_id column = Option.bind (m (column_key LISTS_TABLE row_id (str column))) (parse_i64_column_value L)"

section \<open>Linked rows\<close>

type_synonym elements = "(i64 \<times> bytes) list"

definition first_id :: "elements \<Rightarrow> i64 \<Rightarrow> i64" where
  "first_id xs q = (case xs of [] \<Rightarrow> q | x # _ \<Rightarrow> fst x)"

definition last_id :: "i64 \<Rightarrow> elements \<Rightarrow> i64" where
  "last_id p xs = (if xs = [] then p else fst (last xs))"

definition list_row :: "'n op_libs \<Rightarrow> store_map \<Rightarrow> i64 \<Rightarrow> i64 \<Rightarrow> i64 \<Rightarrow> i64 \<Rightarrow> bytes \<Rightarrow> bool" where
  "list_row L m n p row_id q v \<longleftrightarrow> cell L m row_id ''list_number'' = Some n \<and> cell L m row_id ''prev_id'' = Some p \<and>
    cell L m row_id ''next_id'' = Some q \<and> m (column_key LISTS_TABLE row_id (str ''value'')) = Some v"

text \<open>A segment of rows of list \<open>n\<close> between the neighbours \<open>p\<close> and \<open>q\<close>.\<close>

fun segment :: "'n op_libs \<Rightarrow> store_map \<Rightarrow> i64 \<Rightarrow> i64 \<Rightarrow> elements \<Rightarrow> i64 \<Rightarrow> bool" where
  "segment L m n p [] q \<longleftrightarrow> True"
| "segment L m n p ((row_id, v) # xs) q \<longleftrightarrow> list_row L m n p row_id (first_id xs q) v \<and> segment L m n row_id xs q"

lemma first_last_simps [simp]:
  "first_id [] q = q" "first_id ((i, v) # xs) q = i" "last_id p [] = p" "last_id p (xs @ [(i, v)]) = i"
  "last_id p ((i, v) # xs) = last_id i xs"
  by (simp_all add: first_id_def last_id_def)

lemma first_id_append [simp]: "first_id (xs @ ys) q = first_id xs (first_id ys q)"
  by (cases xs) (simp_all add: first_id_def)

lemma last_id_append [simp]: "last_id p (xs @ ys) = last_id (last_id p xs) ys"
  by (cases ys rule: rev_cases) (simp_all add: last_id_def)

lemma segment_append: "segment L m n p (xs @ ys) q \<longleftrightarrow> segment L m n p xs (first_id ys q) \<and> segment L m n (last_id p xs) ys q"
  by (induction xs arbitrary: p) auto

definition ids :: "elements \<Rightarrow> i64 set" where
  "ids xs = fst ` set xs"

lemma ids_simps [simp]: "ids [] = {}" "ids (x # xs) = insert (fst x) (ids xs)" "ids (xs @ ys) = ids xs \<union> ids ys"
  by (auto simp: ids_def)

text \<open>A row does not change when its four columns do not.\<close>

definition same_row :: "store_map \<Rightarrow> store_map \<Rightarrow> i64 \<Rightarrow> bool" where
  "same_row m m' row_id \<longleftrightarrow> (\<forall>c \<in> {''list_number'', ''prev_id'', ''next_id'', ''value''}.
    m' (column_key LISTS_TABLE row_id (str c)) = m (column_key LISTS_TABLE row_id (str c)))"

lemma list_row_frame: "same_row m m' i \<Longrightarrow> list_row L m' n p i q v = list_row L m n p i q v"
  by (simp add: same_row_def list_row_def cell_def)

lemma segment_frame: "(\<And>i. i \<in> ids xs \<Longrightarrow> same_row m m' i) \<Longrightarrow> segment L m' n p xs q = segment L m n p xs q"
proof (induction xs arbitrary: p)
  case (Cons x xs)
  then show ?case
    using list_row_frame [of m m' "fst x" L n] by (cases x) simp
qed simp

text \<open>Relinking: the link of the last row to its successor, or of the first row to its predecessor.\<close>

lemma segment_relink_last:
  assumes "segment L m n p xs q" and "distinct (map fst xs)" and "\<And>j. j \<in> ids xs \<Longrightarrow> j \<noteq> last_id 0 xs \<Longrightarrow> same_row m m' j"
    and "\<And>p w. xs \<noteq> [] \<Longrightarrow> list_row L m n p (last_id 0 xs) q w \<Longrightarrow> list_row L m' n p (last_id 0 xs) q' w"
  shows "segment L m' n p xs q'"
proof (cases xs rule: rev_cases)
  case (snoc ys x)
  obtain t w where x: "x = (t, w)"
    by (cases x)
  have "t \<notin> ids ys"
    using assms(2) by (simp add: snoc x ids_def)
  then have "segment L m' n p ys t = segment L m n p ys t"
    using assms(3) by (intro segment_frame) (auto simp: snoc x)
  moreover have "list_row L m' n (last_id p ys) t q' w"
    using assms(1) assms(4) [of "last_id p ys" w] by (simp add: snoc x segment_append)
  ultimately show ?thesis
    using assms(1) by (simp add: snoc x segment_append)
qed simp

lemma segment_relink_first:
  assumes "segment L m n p xs q" and "distinct (map fst xs)" and "\<And>j. j \<in> ids xs \<Longrightarrow> j \<noteq> first_id xs 0 \<Longrightarrow> same_row m m' j"
    and "\<And>q w. xs \<noteq> [] \<Longrightarrow> list_row L m n p (first_id xs 0) q w \<Longrightarrow> list_row L m' n p' (first_id xs 0) q w"
  shows "segment L m' n p' xs q"
proof (cases xs)
  case (Cons x ys)
  obtain t w where x: "x = (t, w)"
    by (cases x)
  have "t \<notin> ids ys"
    using assms(2) by (simp add: Cons x ids_def)
  then have "segment L m' n t ys q = segment L m n t ys q"
    using assms(3) by (intro segment_frame) (auto simp: Cons x)
  moreover have "list_row L m' n p' t (first_id ys q) w"
    using assms(1) assms(4) [of "first_id ys q" w] by (simp add: Cons x)
  ultimately show ?thesis
    using assms(1) by (simp add: Cons x)
qed simp

section \<open>The invariant\<close>

definition list_rep :: "'n op_libs \<Rightarrow> store_map \<Rightarrow> i64 \<Rightarrow> elements \<Rightarrow> bool" where
  "list_rep L m n xs \<longleftrightarrow> pointer m (list_head_key n) = Some (first_id xs 0) \<and> pointer m (list_tail_key n) = Some (last_id 0 xs) \<and>
    segment L m n 0 xs 0 \<and> distinct (map fst xs)"

record lists_state =
  ls_lists :: "i64 \<Rightarrow> elements option"
  ls_next :: i64

definition lists_inv :: "'n op_libs \<Rightarrow> store_map \<Rightarrow> lists_state \<Rightarrow> bool" where
  "lists_inv L m S \<longleftrightarrow>
    (case m (schema_next_id_key LISTS_TABLE) of None \<Rightarrow> ls_next S = 1 | Some bs \<Rightarrow> length bs = 8 \<and> u64_from_be_bytes bs = ls_next S) \<and>
    0 < sint (ls_next S) \<and>
    (\<forall>n xs. ls_lists S n = Some xs \<longrightarrow> list_rep L m n xs \<and> (\<forall>i \<in> ids xs. 0 < sint i \<and> sint i < sint (ls_next S))) \<and>
    (\<forall>n. m (list_head_key n) \<noteq> None \<or> m (list_tail_key n) \<noteq> None \<longrightarrow> ls_lists S n \<noteq> None) \<and>
    (\<forall>i. m (column_key LISTS_TABLE i (str ''list_number'')) \<noteq> None \<longrightarrow> (\<exists>n xs. ls_lists S n = Some xs \<and> i \<in> ids xs))"

lemma segment_list_number: "segment L m n p xs q \<Longrightarrow> i \<in> ids xs \<Longrightarrow> cell L m i ''list_number'' = Some n"
  by (induction xs arbitrary: p) (auto simp: list_row_def)

lemma list_rep_member: "list_rep L m n xs \<Longrightarrow> i \<in> ids xs \<Longrightarrow> cell L m i ''list_number'' = Some n"
  by (auto simp: list_rep_def dest: segment_list_number)

lemma list_rep_frame:
  assumes "list_rep L m n xs" and "\<And>i. i \<in> ids xs \<Longrightarrow> same_row m m' i"
    and "m' (list_head_key n) = m (list_head_key n)" "m' (list_tail_key n) = m (list_tail_key n)"
  shows "list_rep L m' n xs"
  using assms segment_frame [of xs m m' L n 0 0] by (simp add: list_rep_def pointer_def)

lemma lists_inv_disjoint:
  assumes "lists_inv L m S" "ls_lists S n = Some xs" "ls_lists S n' = Some ys" "n \<noteq> n'"
  shows "ids xs \<inter> ids ys = {}"
proof -
  have "list_rep L m n xs" "list_rep L m n' ys"
    using assms by (auto simp: lists_inv_def)
  then show ?thesis
    using assms(4) list_rep_member [of L m n xs] list_rep_member [of L m n' ys] by fastforce
qed

lemma lists_inv_update:
  assumes inv: "lists_inv L m S" and n: "ls_lists S n = Some xs" and rep: "list_rep L m' n ys"
    and rows: "\<And>i. i \<notin> ids xs \<union> ids ys \<Longrightarrow> same_row m m' i"
    and ptrs: "\<And>n'. n' \<noteq> n \<Longrightarrow> m' (list_head_key n') = m (list_head_key n') \<and> m' (list_tail_key n') = m (list_tail_key n')"
    and counter: "case m' (schema_next_id_key LISTS_TABLE) of None \<Rightarrow> nx = 1 | Some bs \<Rightarrow> length bs = 8 \<and> u64_from_be_bytes bs = nx"
    and nx: "sint (ls_next S) \<le> sint nx"
    and new: "\<And>i. i \<in> ids ys \<Longrightarrow> i \<notin> ids xs \<Longrightarrow> i = ls_next S \<and> sint i < sint nx"
    and gone: "\<And>i. i \<in> ids xs \<Longrightarrow> i \<notin> ids ys \<Longrightarrow> m' (column_key LISTS_TABLE i (str ''list_number'')) = None"
  shows "lists_inv L m' \<lparr>ls_lists = (ls_lists S)(n \<mapsto> ys), ls_next = nx\<rparr>"
proof -
  have pos: "0 < sint (ls_next S)" and reps: "\<And>n xs. ls_lists S n = Some xs \<Longrightarrow> list_rep L m n xs"
    and small: "\<And>n xs i. ls_lists S n = Some xs \<Longrightarrow> i \<in> ids xs \<Longrightarrow> 0 < sint i \<and> sint i < sint (ls_next S)"
    and heads: "\<And>n. m (list_head_key n) \<noteq> None \<or> m (list_tail_key n) \<noteq> None \<Longrightarrow> ls_lists S n \<noteq> None"
    and owners: "\<And>i. m (column_key LISTS_TABLE i (str ''list_number'')) \<noteq> None \<Longrightarrow> \<exists>n xs. ls_lists S n = Some xs \<and> i \<in> ids xs"
    using inv by (auto simp: lists_inv_def)
  have others: "same_row m m' i" if "ls_lists S n' = Some zs" "n' \<noteq> n" "i \<in> ids zs" for n' zs i
  proof -
    have "i \<notin> ids xs"
      using lists_inv_disjoint [OF inv n that(1)] that(2,3) by blast
    moreover from this have "i \<notin> ids ys"
      using new [of i] small [OF that(1,3)] by (metis less_irrefl)
    ultimately show ?thesis
      using rows by simp
  qed
  have "list_rep L m' n' zs" if "ls_lists S n' = Some zs" "n' \<noteq> n" for n' zs
    by (rule list_rep_frame [OF reps [OF that(1)] others [OF that]]) (use ptrs [OF that(2)] in simp_all)
  moreover have "0 < sint i \<and> sint i < sint nx" if "i \<in> ids ys" for i
    using small [OF n, of i] new [OF that] pos nx by fastforce
  moreover have "0 < sint i \<and> sint i < sint nx" if "ls_lists S n' = Some zs" "i \<in> ids zs" for n' zs i
    using small [OF that] nx by simp
  moreover have "\<exists>n' zs. ((ls_lists S)(n \<mapsto> ys)) n' = Some zs \<and> i \<in> ids zs"
    if "m' (column_key LISTS_TABLE i (str ''list_number'')) \<noteq> None" for i
  proof (cases "i \<in> ids xs \<union> ids ys")
    case True
    then show ?thesis
      using gone [of i] that by auto
  next
    case False
    then have "m (column_key LISTS_TABLE i (str ''list_number'')) \<noteq> None"
      using rows [of i] that by (simp add: same_row_def)
    then obtain n0 zs where "ls_lists S n0 = Some zs" "i \<in> ids zs"
      using owners by blast
    moreover from this have "n0 \<noteq> n"
      using False n by auto
    ultimately show ?thesis
      by auto
  qed
  moreover have "((ls_lists S)(n \<mapsto> ys)) n' \<noteq> None" if "m' (list_head_key n') \<noteq> None \<or> m' (list_tail_key n') \<noteq> None" for n'
    using that heads [of n'] ptrs [of n'] by (cases "n' = n") auto
  ultimately show ?thesis
    using counter pos nx rep by (auto simp: lists_inv_def cong: option.case_cong)
qed

section \<open>Effects of single writes\<close>

lemma new_row_puts_effect:
  assumes "stores_integers L" and "new_row_puts L i n p q v = Inr puts"
  obtains b1 b2 b3 where "puts = [BPut (column_key LISTS_TABLE i (str ''list_number'')) b1,
      BPut (column_key LISTS_TABLE i (str ''next_id'')) b2, BPut (column_key LISTS_TABLE i (str ''prev_id'')) b3,
      BPut (column_key LISTS_TABLE i (str ''value'')) v]"
    and "parse_i64_column_value L b1 = Some n" "parse_i64_column_value L b2 = Some q" "parse_i64_column_value L b3 = Some p"
proof -
  obtain p1 p2 p3 where "stored_i64_put L (column_key LISTS_TABLE i (str ''list_number'')) n = Inr p1"
      "stored_i64_put L (column_key LISTS_TABLE i (str ''next_id'')) q = Inr p2"
      "stored_i64_put L (column_key LISTS_TABLE i (str ''prev_id'')) p = Inr p3"
      "puts = [p1, p2, p3, BPut (column_key LISTS_TABLE i (str ''value'')) v]"
    using assms(2) by (auto simp: new_row_puts_def res_bind_Inr_iff)
  then show ?thesis
    using that stored_i64_put_reads [OF assms(1)] by metis
qed

text \<open>Only the columns of certain rows change.\<close>

definition rows_only :: "store_map \<Rightarrow> store_map \<Rightarrow> i64 set \<Rightarrow> bool" where
  "rows_only m m' T \<longleftrightarrow> (\<forall>j. j \<notin> T \<longrightarrow> same_row m m' j) \<and>
    (\<forall>n. m' (list_head_key n) = m (list_head_key n) \<and> m' (list_tail_key n) = m (list_tail_key n)) \<and>
    m' (schema_next_id_key LISTS_TABLE) = m (schema_next_id_key LISTS_TABLE)"

lemma rows_only_trans: "rows_only m m1 T \<Longrightarrow> rows_only m1 m2 U \<Longrightarrow> rows_only m m2 (T \<union> U)"
  by (simp add: rows_only_def same_row_def)

lemma rows_only_refl: "rows_only m m T"
  by (simp add: rows_only_def same_row_def)

lemma rows_only_row: "rows_only m m' T \<Longrightarrow> j \<notin> T \<Longrightarrow> list_row L m' n p j q v = list_row L m n p j q v"
  by (rule list_row_frame) (simp add: rows_only_def)

lemmas list_store_simps = list_row_def cell_def same_row_def pointer_def i64_put_def list_key_eqs str_inject rows_only_def

lemma new_row:
  assumes "stores_integers L" and "new_row_puts L i n p q v = Inr puts"
  shows "list_row L (fold store_op puts m) n p i q v" and "rows_only m (fold store_op puts m) {i}"
proof -
  obtain b1 b2 b3 where "puts = [BPut (column_key LISTS_TABLE i (str ''list_number'')) b1,
      BPut (column_key LISTS_TABLE i (str ''next_id'')) b2, BPut (column_key LISTS_TABLE i (str ''prev_id'')) b3,
      BPut (column_key LISTS_TABLE i (str ''value'')) v]"
    "parse_i64_column_value L b1 = Some n" "parse_i64_column_value L b2 = Some q" "parse_i64_column_value L b3 = Some p"
    by (rule new_row_puts_effect [OF assms])
  then show "list_row L (fold store_op puts m) n p i q v" "rows_only m (fold store_op puts m) {i}"
    by (simp_all add: list_store_simps)
qed

lemma set_next:
  assumes "stores_integers L" and "stored_i64_put L (column_key LISTS_TABLE t (str ''next_id'')) q' = Inr b"
  shows "list_row L m n p t q w \<Longrightarrow> list_row L (store_op b m) n p t q' w" and "rows_only m (store_op b m) {t}"
  by (rule stored_i64_put_reads [OF assms], simp add: list_store_simps)+

lemma set_prev:
  assumes "stores_integers L" and "stored_i64_put L (column_key LISTS_TABLE t (str ''prev_id'')) p' = Inr b"
  shows "list_row L m n p t q w \<Longrightarrow> list_row L (store_op b m) n p' t q w" and "rows_only m (store_op b m) {t}"
  by (rule stored_i64_put_reads [OF assms], simp add: list_store_simps)+

lemma set_pointers:
  "same_row m (store_op (i64_put (list_head_key n) i) m) j" "same_row m (store_op (i64_put (list_tail_key n) i) m) j"
  "pointer (store_op (i64_put (list_head_key n) i) m) (list_head_key k) = (if k = n then Some i else pointer m (list_head_key k))"
  "pointer (store_op (i64_put (list_tail_key n) i) m) (list_tail_key k) = (if k = n then Some i else pointer m (list_tail_key k))"
  by (simp_all add: list_store_simps)

section \<open>Relinking around a position\<close>

text \<open>The optional write of a link: to the successor in the last row of the part before a position, and to
  the predecessor in the first row of the part after it.\<close>

definition link_write :: "'n op_libs \<Rightarrow> bool \<Rightarrow> i64 \<Rightarrow> char list \<Rightarrow> i64 \<Rightarrow> batch_op list \<Rightarrow> bool" where
  "link_write L present row_id column target ops \<longleftrightarrow>
    (if present then (\<exists>b. stored_i64_put L (column_key LISTS_TABLE row_id (str column)) target = Inr b \<and> ops = [b]) else ops = [])"

lemma last_id_in: "xs \<noteq> [] \<Longrightarrow> last_id p xs \<in> ids xs"
  by (simp add: last_id_def ids_def)

lemma first_id_in: "xs \<noteq> [] \<Longrightarrow> first_id xs q \<in> ids xs"
  by (cases xs) (auto simp: first_id_def)

lemma relink_before:
  assumes L: "stores_integers L" and link: "link_write L (ys \<noteq> []) (last_id 0 ys) ''next_id'' q' ops"
    and "segment L m n 0 ys q" and "distinct (map fst ys)"
  shows "segment L (fold store_op ops m) n 0 ys q' \<and> rows_only m (fold store_op ops m) (if ys = [] then {} else {last_id 0 ys})"
proof (cases "ys = []")
  case False
  then obtain b where b: "stored_i64_put L (column_key LISTS_TABLE (last_id 0 ys) (str ''next_id'')) q' = Inr b" "ops = [b]"
    using link by (auto simp: link_write_def)
  note eff = set_next [OF L b(1), of m]
  have "same_row m (store_op b m) j" if "j \<noteq> last_id 0 ys" for j
    using eff(2) that by (simp add: rows_only_def)
  then have "segment L (store_op b m) n 0 ys q'"
    using eff(1) by (rule segment_relink_last [OF assms(3,4)])
  then show ?thesis
    using eff(2) False by (simp add: b(2))
qed (use link in \<open>simp_all add: link_write_def rows_only_refl\<close>)

lemma relink_after:
  assumes L: "stores_integers L" and link: "link_write L (zs \<noteq> []) (first_id zs 0) ''prev_id'' p' ops"
    and "segment L m n p zs 0" and "distinct (map fst zs)"
  shows "segment L (fold store_op ops m) n p' zs 0 \<and> rows_only m (fold store_op ops m) (if zs = [] then {} else {first_id zs 0})"
proof (cases "zs = []")
  case False
  then obtain b where b: "stored_i64_put L (column_key LISTS_TABLE (first_id zs 0) (str ''prev_id'')) p' = Inr b" "ops = [b]"
    using link by (auto simp: link_write_def)
  note eff = set_prev [OF L b(1), of m]
  have "same_row m (store_op b m) j" if "j \<noteq> first_id zs 0" for j
    using eff(2) that by (simp add: rows_only_def)
  then have "segment L (store_op b m) n p' zs 0"
    using eff(1) by (rule segment_relink_first [OF assms(3,4)])
  then show ?thesis
    using eff(2) False by (simp add: b(2))
qed (use link in \<open>simp_all add: link_write_def rows_only_refl\<close>)

definition pointer_writes :: "i64 \<Rightarrow> bool \<Rightarrow> i64 \<Rightarrow> bool \<Rightarrow> i64 \<Rightarrow> batch_op list" where
  "pointer_writes n set_head h set_tail t =
    (if set_head then [i64_put (list_head_key n) h] else []) @ (if set_tail then [i64_put (list_tail_key n) t] else [])"

lemma pointer_writes_effect:
  shows "same_row m (fold store_op (pointer_writes n sh h st t) m) j"
    and "pointer (fold store_op (pointer_writes n sh h st t) m) (list_head_key n) = (if sh then Some h else pointer m (list_head_key n))"
    and "pointer (fold store_op (pointer_writes n sh h st t) m) (list_tail_key n) = (if st then Some t else pointer m (list_tail_key n))"
    and "k \<noteq> n \<Longrightarrow> fold store_op (pointer_writes n sh h st t) m (list_head_key k) = m (list_head_key k) \<and>
      fold store_op (pointer_writes n sh h st t) m (list_tail_key k) = m (list_tail_key k)"
    and "fold store_op (pointer_writes n sh h st t) m (schema_next_id_key LISTS_TABLE) = m (schema_next_id_key LISTS_TABLE)"
    and "fold store_op (pointer_writes n sh h st t) m (column_key LISTS_TABLE j c) = m (column_key LISTS_TABLE j c)"
  by (simp_all add: pointer_writes_def list_store_simps)

text \<open>What a link operation does to a store: one list is replaced, the rows of other lists and the other
  pointers are untouched.\<close>

definition relinks :: "'n op_libs \<Rightarrow> store_map \<Rightarrow> store_map \<Rightarrow> i64 \<Rightarrow> elements \<Rightarrow> elements \<Rightarrow> bool" where
  "relinks L m m' n xs ys \<longleftrightarrow> list_rep L m' n ys \<and> (\<forall>i. i \<notin> ids xs \<union> ids ys \<longrightarrow> same_row m m' i) \<and>
    (\<forall>n'. n' \<noteq> n \<longrightarrow> m' (list_head_key n') = m (list_head_key n') \<and> m' (list_tail_key n') = m (list_tail_key n')) \<and>
    m' (schema_next_id_key LISTS_TABLE) = m (schema_next_id_key LISTS_TABLE)"

lemma rows_only_mono: "rows_only m m' T \<Longrightarrow> T \<subseteq> U \<Longrightarrow> rows_only m m' U"
  by (auto simp: rows_only_def)

lemma segment_rows_only: "rows_only m m' T \<Longrightarrow> T \<inter> ids xs = {} \<Longrightarrow> segment L m' n p xs q = segment L m n p xs q"
  by (rule segment_frame) (auto simp: rows_only_def)

lemma relink_around:
  fixes h t :: i64
  assumes L: "stores_integers L" and before: "link_write L (ys \<noteq> []) (last_id 0 ys) ''next_id'' q' nexts"
    and after: "link_write L (zs \<noteq> []) (first_id zs 0) ''prev_id'' p' prevs"
    and segs: "segment L m n 0 ys q" "segment L m n p zs 0" and dist: "distinct (map fst (ys @ zs))"
  defines "m' \<equiv> fold store_op (nexts @ prevs @ pointer_writes n (ys = []) h (zs = []) t) m"
  shows "segment L m' n 0 ys q'" and "segment L m' n p' zs 0" and "j \<notin> ids ys \<union> ids zs \<Longrightarrow> same_row m m' j"
    and "pointer m' (list_head_key n) = (if ys = [] then Some h else pointer m (list_head_key n))"
    and "pointer m' (list_tail_key n) = (if zs = [] then Some t else pointer m (list_tail_key n))"
    and "k \<noteq> n \<Longrightarrow> m' (list_head_key k) = m (list_head_key k) \<and> m' (list_tail_key k) = m (list_tail_key k)"
    and "m' (schema_next_id_key LISTS_TABLE) = m (schema_next_id_key LISTS_TABLE)"
proof -
  let ?m1 = "fold store_op nexts m"
  let ?m2 = "fold store_op prevs ?m1"
  have m': "m' = fold store_op (pointer_writes n (ys = []) h (zs = []) t) ?m2"
    by (simp add: m'_def)
  have dists: "distinct (map fst ys)" "distinct (map fst zs)" "ids ys \<inter> ids zs = {}"
    using dist by (auto simp: ids_def)
  note one = relink_before [OF L before segs(1) dists(1)]
  have r1: "rows_only m ?m1 (ids ys)"
    by (rule rows_only_mono [OF conjunct2 [OF one]]) (use last_id_in [of ys 0] in auto)
  have "segment L ?m1 n p zs 0"
    by (simp add: segment_rows_only [OF r1 dists(3)] segs(2))
  note two = relink_after [OF L after this dists(2)]
  have r2: "rows_only ?m1 ?m2 (ids zs)"
    by (rule rows_only_mono [OF conjunct2 [OF two]]) (use first_id_in [of zs 0] in auto)
  have seg1: "segment L ?m2 n 0 ys q'"
    using one dists(3) by (simp add: segment_rows_only [OF r2] Int_commute)
  note rows = rows_only_trans [OF r1 r2]
  show "segment L m' n 0 ys q'" "segment L m' n p' zs 0"
    using seg1 two by (simp_all add: m' segment_frame [OF pointer_writes_effect(1)])
  show "j \<notin> ids ys \<union> ids zs \<Longrightarrow> same_row m m' j"
    using rows pointer_writes_effect(1) [of ?m2 n "ys = []" h "zs = []" t j] by (simp add: m' rows_only_def same_row_def)
  have "pointer ?m2 (list_head_key n) = pointer m (list_head_key n)" "pointer ?m2 (list_tail_key n) = pointer m (list_tail_key n)"
    using rows by (simp_all add: rows_only_def pointer_def)
  then show "pointer m' (list_head_key n) = (if ys = [] then Some h else pointer m (list_head_key n))"
    "pointer m' (list_tail_key n) = (if zs = [] then Some t else pointer m (list_tail_key n))"
    "k \<noteq> n \<Longrightarrow> m' (list_head_key k) = m (list_head_key k) \<and> m' (list_tail_key k) = m (list_tail_key k)"
    "m' (schema_next_id_key LISTS_TABLE) = m (schema_next_id_key LISTS_TABLE)"
    using rows by (simp_all add: m' pointer_writes_effect rows_only_def)
qed

text \<open>Inserting a row between two parts of a list.\<close>

lemma splice_relinks:
  assumes L: "stores_integers L" and puts: "new_row_puts L i n (last_id 0 ys) (first_id zs 0) v = Inr puts"
    and before: "link_write L (ys \<noteq> []) (last_id 0 ys) ''next_id'' i nexts"
    and after: "link_write L (zs \<noteq> []) (first_id zs 0) ''prev_id'' i prevs"
    and rep: "list_rep L m n (ys @ zs)" and new: "i \<notin> ids (ys @ zs)"
  shows "relinks L m (fold store_op (puts @ nexts @ prevs @ pointer_writes n (ys = []) i (zs = []) i) m) n (ys @ zs) (ys @ (i, v) # zs)"
proof -
  let ?m1 = "fold store_op puts m"
  let ?m' = "fold store_op (nexts @ prevs @ pointer_writes n (ys = []) i (zs = []) i) ?m1"
  have rows: "rows_only m ?m1 {i}" and row: "list_row L ?m1 n (last_id 0 ys) i (first_id zs 0) v"
    using new_row [OF L puts] by blast+
  have "segment L ?m1 n 0 ys (first_id zs 0)" "segment L ?m1 n (last_id 0 ys) zs 0" and dist: "distinct (map fst (ys @ zs))"
    using rep new by (simp_all add: list_rep_def segment_append segment_rows_only [OF rows])
  note around = relink_around [OF L before after this, where h = i and t = i]
  have "list_row L ?m' n (last_id 0 ys) i (first_id zs 0) v"
    using new by (intro iffD2 [OF list_row_frame [OF around(3)] row]) simp
  moreover have "distinct (map fst (ys @ (i, v) # zs))"
    using dist new by (auto simp: ids_def)
  moreover have "first_id (ys @ (i, v) # zs) 0 = (if ys = [] then i else first_id (ys @ zs) 0)"
      "last_id 0 (ys @ (i, v) # zs) = (if zs = [] then i else last_id 0 (ys @ zs))"
    by (cases ys) (auto simp: first_id_def last_id_def)
  moreover have "pointer ?m1 (list_head_key n) = Some (first_id (ys @ zs) 0)" "pointer ?m1 (list_tail_key n) = Some (last_id 0 (ys @ zs))"
    using rep rows by (simp_all add: list_rep_def rows_only_def pointer_def)
  ultimately have "list_rep L ?m' n (ys @ (i, v) # zs)"
    using around(1,2,4,5) unfolding list_rep_def segment_append by simp
  then show ?thesis
    using around(3,6,7) rows by (auto simp: relinks_def rows_only_def same_row_def)
qed

text \<open>Removing a row.\<close>

lemma deleted_row:
  fixes m t
  defines "m' \<equiv> fold store_op (map (\<lambda>col. BDelete (column_key LISTS_TABLE t col)) LIST_DELETE_REQUIRED) m"
  shows "rows_only m m' {t}" and "m' (column_key LISTS_TABLE t (str ''list_number'')) = None"
  by (simp_all add: m'_def LIST_DELETE_REQUIRED_def list_store_simps)

lemma unlink_relinks:
  assumes L: "stores_integers L"
    and before: "link_write L (ys \<noteq> []) (last_id 0 ys) ''next_id'' (first_id zs 0) nexts"
    and after: "link_write L (zs \<noteq> []) (first_id zs 0) ''prev_id'' (last_id 0 ys) prevs"
    and rep: "list_rep L m n (ys @ (t, v) # zs)"
  defines "m' \<equiv> fold store_op (map (\<lambda>col. BDelete (column_key LISTS_TABLE t col)) LIST_DELETE_REQUIRED @ nexts @ prevs @
    pointer_writes n (ys = []) (first_id zs 0) (zs = []) (last_id 0 ys)) m"
  shows "relinks L m m' n (ys @ (t, v) # zs) (ys @ zs)" and "m' (column_key LISTS_TABLE t (str ''list_number'')) = None"
proof -
  let ?m1 = "fold store_op (map (\<lambda>col. BDelete (column_key LISTS_TABLE t col)) LIST_DELETE_REQUIRED) m"
  have m': "m' = fold store_op (nexts @ prevs @ pointer_writes n (ys = []) (first_id zs 0) (zs = []) (last_id 0 ys)) ?m1"
    by (simp add: m'_def)
  note rows = deleted_row(1) [of m t]
  have t: "t \<notin> ids ys" "t \<notin> ids zs" and dist: "distinct (map fst (ys @ zs))"
    using rep by (auto simp: list_rep_def ids_def)
  have "segment L ?m1 n 0 ys t" "segment L ?m1 n t zs 0"
    using rep t by (simp_all add: list_rep_def segment_append segment_rows_only [OF rows])
  note around = relink_around [OF L before after this dist, where h = "first_id zs 0" and t = "last_id 0 ys", folded m']
  have "first_id (ys @ zs) 0 = (if ys = [] then first_id zs 0 else first_id (ys @ (t, v) # zs) 0)"
      "last_id 0 (ys @ zs) = (if zs = [] then last_id 0 ys else last_id 0 (ys @ (t, v) # zs))"
    by (cases ys) (auto simp: first_id_def last_id_def)
  moreover have "pointer ?m1 (list_head_key n) = Some (first_id (ys @ (t, v) # zs) 0)"
      "pointer ?m1 (list_tail_key n) = Some (last_id 0 (ys @ (t, v) # zs))"
    using rep rows by (simp_all add: list_rep_def rows_only_def pointer_def)
  ultimately have "list_rep L m' n (ys @ zs)"
    using around(1,2,4,5) dist unfolding list_rep_def segment_append by simp
  then show "relinks L m m' n (ys @ (t, v) # zs) (ys @ zs)"
    using around(3,6,7) rows by (auto simp: relinks_def rows_only_def same_row_def)
  show "m' (column_key LISTS_TABLE t (str ''list_number'')) = None"
    using around(3) [of t] t deleted_row(2) [of t m] by (simp add: same_row_def)
qed

text \<open>Changing a value.\<close>

lemma segment_set_value:
  assumes "segment L m n p (ys @ (t, v) # zs) q" and "t \<notin> ids ys" "t \<notin> ids zs"
  shows "segment L (m(column_key LISTS_TABLE t (str ''value'') \<mapsto> w)) n p (ys @ (t, w) # zs) q"
proof -
  let ?m' = "m(column_key LISTS_TABLE t (str ''value'') \<mapsto> w)"
  have rows: "rows_only m ?m' {t}"
    by (simp add: list_store_simps)
  have "list_row L ?m' n (last_id p ys) t (first_id zs q) w"
    using assms(1) by (simp add: segment_append list_store_simps)
  then show ?thesis
    using assms by (simp add: segment_append segment_rows_only [OF rows])
qed

lemma set_value_relinks:
  assumes "list_rep L m n (ys @ (t, v) # zs)"
  shows "relinks L m (m(column_key LISTS_TABLE t (str ''value'') \<mapsto> w)) n (ys @ (t, v) # zs) (ys @ (t, w) # zs)"
proof -
  have "t \<notin> ids ys" "t \<notin> ids zs"
    using assms by (auto simp: list_rep_def ids_def)
  then show ?thesis
    using assms segment_set_value [of L m n 0 ys t v zs 0 w]
    by (simp add: relinks_def list_rep_def) (simp add: list_store_simps)
qed

section \<open>The link operations of the code\<close>

lemma last_id_zero: "0 \<notin> ids xs \<Longrightarrow> last_id 0 xs = 0 \<longleftrightarrow> xs = []"
  by (cases "xs = []") (use last_id_in [of xs 0] in auto)

lemma first_id_zero: "0 \<notin> ids xs \<Longrightarrow> first_id xs 0 = 0 \<longleftrightarrow> xs = []"
  by (cases "xs = []") (use first_id_in [of xs 0] in auto)

lemma append_links_relinks:
  assumes L: "stores_integers L" and ops: "append_links L i n (last_id 0 xs) v = Inr ops"
    and rep: "list_rep L m n xs" and new: "i \<notin> ids xs" "0 \<notin> ids xs"
  shows "relinks L m (fold store_op ops m) n xs (xs @ [(i, v)])"
proof -
  obtain puts nexts where "new_row_puts L i n (last_id 0 xs) 0 v = Inr puts" "link_write L (xs \<noteq> []) (last_id 0 xs) ''next_id'' i nexts"
      "ops = puts @ nexts @ [] @ pointer_writes n (xs = []) i True i"
    using ops new(2)
    by (auto simp: append_links_def res_bind_Inr_iff last_id_zero link_write_def pointer_writes_def split: if_splits)
  then show ?thesis
    using splice_relinks [OF L, of i n xs "[]" v puts nexts "[]" m] rep new(1) by (simp add: link_write_def)
qed

lemma prepend_links_relinks:
  assumes L: "stores_integers L" and ops: "prepend_links L i n (first_id xs 0) v = Inr ops"
    and rep: "list_rep L m n xs" and new: "i \<notin> ids xs" "0 \<notin> ids xs"
  shows "relinks L m (fold store_op ops m) n xs ((i, v) # xs)"
proof -
  obtain puts prevs where "new_row_puts L i n 0 (first_id xs 0) v = Inr puts" "link_write L (xs \<noteq> []) (first_id xs 0) ''prev_id'' i prevs"
      "ops = puts @ [] @ prevs @ pointer_writes n True i (xs = []) i"
    using ops new(2)
    by (auto simp: prepend_links_def res_bind_Inr_iff first_id_zero link_write_def pointer_writes_def split: if_splits)
  then show ?thesis
    using splice_relinks [OF L, of i n "[]" xs v puts "[]" prevs m] rep new(1) by (simp add: link_write_def)
qed

lemma insert_after_links_relinks:
  assumes L: "stores_integers L" and ops: "insert_after_links L i n p (first_id zs 0) v = Inr ops"
    and rep: "list_rep L m n (ys @ (p, w) # zs)" and new: "i \<notin> ids (ys @ (p, w) # zs)" "0 \<notin> ids (ys @ (p, w) # zs)"
  shows "relinks L m (fold store_op ops m) n (ys @ (p, w) # zs) (ys @ (p, w) # (i, v) # zs)"
proof -
  obtain puts nexts prevs where "new_row_puts L i n p (first_id zs 0) v = Inr puts"
      "link_write L True p ''next_id'' i nexts" "link_write L (zs \<noteq> []) (first_id zs 0) ''prev_id'' i prevs"
      "ops = puts @ nexts @ prevs @ pointer_writes n False i (zs = []) i"
    using ops new(2)
    by (cases "zs = []") (auto simp: insert_after_links_def res_bind_Inr_iff first_id_zero link_write_def pointer_writes_def split: if_splits)
  then show ?thesis
    using splice_relinks [OF L, of i n "ys @ [(p, w)]" zs v puts nexts prevs m] rep new(1) by simp
qed

lemma unlink_ops_relinks:
  assumes L: "stores_integers L" and ops: "unlink_ops L t n (last_id 0 ys) (first_id zs 0) = Inr ops"
    and rep: "list_rep L m n (ys @ (t, v) # zs)" and new: "0 \<notin> ids (ys @ (t, v) # zs)"
  shows "relinks L m (fold store_op ops m) n (ys @ (t, v) # zs) (ys @ zs)"
    and "fold store_op ops m (column_key LISTS_TABLE t (str ''list_number'')) = None"
proof -
  obtain nexts prevs where links: "link_write L (ys \<noteq> []) (last_id 0 ys) ''next_id'' (first_id zs 0) nexts"
      "link_write L (zs \<noteq> []) (first_id zs 0) ''prev_id'' (last_id 0 ys) prevs"
      and ops': "ops = map (\<lambda>col. BDelete (column_key LISTS_TABLE t col)) LIST_DELETE_REQUIRED @ nexts @ prevs @
        pointer_writes n (ys = []) (first_id zs 0) (zs = []) (last_id 0 ys)"
    using ops new
    by (auto simp: unlink_ops_def res_bind_Inr_iff first_id_zero last_id_zero link_write_def pointer_writes_def split: if_splits)
  show "relinks L m (fold store_op ops m) n (ys @ (t, v) # zs) (ys @ zs)"
    "fold store_op ops m (column_key LISTS_TABLE t (str ''list_number'')) = None"
    using unlink_relinks [OF L links rep] by (simp_all add: ops')
qed

section \<open>Writes that do not concern the lists\<close>

definition same_lists :: "store_map \<Rightarrow> store_map \<Rightarrow> bool" where
  "same_lists m m' \<longleftrightarrow> (\<forall>i. same_row m m' i) \<and>
    (\<forall>n. m' (list_head_key n) = m (list_head_key n) \<and> m' (list_tail_key n) = m (list_tail_key n))"

lemma same_lists_trans: "same_lists m m1 \<Longrightarrow> same_lists m1 m2 \<Longrightarrow> same_lists m m2"
  by (simp add: same_lists_def same_row_def)

lemma same_lists_next: "same_lists m (store_op (next_id_put t i) m)"
  by (simp add: same_lists_def next_id_put_def list_store_simps)

lemma make_index_key:
  assumes "make_index_put L t c bs r = Inr b \<or> make_index_delete L t c bs r = Inr b"
  obtains v k where "index_key t c v r = Inr k" and "\<And>m k'. k' \<noteq> k \<Longrightarrow> store_op b m k' = m k'"
  using assms that
  by (auto simp: make_index_put_def make_index_delete_def build_index_key_def res_bind_Inr_iff map_err_def split: sum.splits)

lemma same_lists_index:
  assumes "make_index_put L t c bs r = Inr b \<or> make_index_delete L t c bs r = Inr b"
  shows "same_lists m (store_op b m)" and "store_op b m (schema_next_id_key t') = m (schema_next_id_key t')"
proof -
  obtain v k where "index_key t c v r = Inr k" and other: "\<And>m k'. k' \<noteq> k \<Longrightarrow> store_op b m k' = m k'"
    by (rule make_index_key [OF assms]) blast
  note neq = index_key_neqs [OF this(1), THEN not_sym]
  show "same_lists m (store_op b m)" "store_op b m (schema_next_id_key t') = m (schema_next_id_key t')"
    by (simp_all add: same_lists_def same_row_def other neq)
qed

lemma lists_inv_step:
  assumes inv: "lists_inv L m S" and n: "ls_lists S n = Some xs" and re: "relinks L m m1 n xs ys" and same: "same_lists m1 m2"
    and counter: "case m2 (schema_next_id_key LISTS_TABLE) of None \<Rightarrow> nx = 1 | Some bs \<Rightarrow> length bs = 8 \<and> u64_from_be_bytes bs = nx"
    and nx: "sint (ls_next S) \<le> sint nx"
    and new: "\<And>i. i \<in> ids ys \<Longrightarrow> i \<notin> ids xs \<Longrightarrow> i = ls_next S \<and> sint i < sint nx"
    and gone: "\<And>i. i \<in> ids xs \<Longrightarrow> i \<notin> ids ys \<Longrightarrow> m1 (column_key LISTS_TABLE i (str ''list_number'')) = None"
  shows "lists_inv L m2 \<lparr>ls_lists = (ls_lists S)(n \<mapsto> ys), ls_next = nx\<rparr>"
proof (rule lists_inv_update [OF inv n])
  show "list_rep L m2 n ys"
    using re same by (auto simp: relinks_def same_lists_def intro: list_rep_frame)
  show "i \<notin> ids xs \<union> ids ys \<Longrightarrow> same_row m m2 i" for i
    using re same by (auto simp: relinks_def same_lists_def same_row_def)
  show "n' \<noteq> n \<Longrightarrow> m2 (list_head_key n') = m (list_head_key n') \<and> m2 (list_tail_key n') = m (list_tail_key n')" for n'
    using re same by (simp add: relinks_def same_lists_def)
  show "i \<in> ids xs \<Longrightarrow> i \<notin> ids ys \<Longrightarrow> m2 (column_key LISTS_TABLE i (str ''list_number'')) = None" for i
    using gone [of i] same by (simp add: same_lists_def same_row_def)
qed (use counter nx new in auto)

section \<open>Values read by the operations\<close>

lemma read_i64_key_value:
  assumes "sorted_map kvs"
  shows "op_value kvs (read_i64_key k) = ok_or Generic (pointer (map_of kvs) k)"
  unfolding read_i64_key_def
  by (subst op_value_bind [of undefined], (rule cache_free_intros)+)
    (auto simp: op_value_read_key [OF assms] pointer_def simp del: op_value_simps(4) split: option.splits)

lemma read_i64_column_value:
  assumes "sorted_map kvs"
  shows "op_value kvs (read_i64_column L i (str c)) = ok_or Generic (cell L (map_of kvs) i c)"
  unfolding read_i64_column_def
  by (subst op_value_bind [of L], (rule cache_free_intros)+)
    (auto simp: op_value_read_key [OF assms] cell_def decode_i64_column_value_def simp del: op_value_simps(4) split: option.splits)

lemma read_list_number_value:
  assumes "sorted_map kvs" and "op_value kvs (read_list_number L i) = Inr n"
  shows "cell L (map_of kvs) i ''list_number'' = Some n"
  using assms(2)
  by (auto simp: read_list_number_def op_value_bind [of L] cache_free_intros cache_free_helpers read_i64_column_value [OF assms(1)]
      ok_or_def res_bind_Inr_iff split: option.splits if_splits)

lemma list_number_index_put_value:
  assumes "op_value kvs (list_number_index_put L n r) = Inr ops"
  obtains b bs where "ops = [b]" and "make_index_put L LISTS_TABLE (str ''list_number'') bs r = Inr b"
  using assms that
  by (auto simp: list_number_index_put_def op_value_bind [of L] cache_free_intros cache_free_metadata res_bind_Inr_iff split: if_splits)

lemma lists_inv_next:
  assumes "lists_inv L (map_of kvs) S"
  shows "next_row_id kvs LISTS_TABLE = Some (ls_next S)"
  using assms by (auto simp: lists_inv_def next_row_id_def split: option.splits)

section \<open>The abstract lists\<close>

datatype list_command = Append i64 bytes | InsertAfter i64 i64 bytes | SetValue i64 bytes | Remove i64

inductive list_step :: "list_command \<Rightarrow> lists_state \<Rightarrow> lists_state \<Rightarrow> bool" where
  append: "ls_lists S n = Some xs \<Longrightarrow>
    list_step (Append n v) S \<lparr>ls_lists = (ls_lists S)(n \<mapsto> xs @ [(ls_next S, v)]), ls_next = ls_next S + 1\<rparr>"
| prepend: "ls_lists S n = Some xs \<Longrightarrow>
    list_step (InsertAfter n 0 v) S \<lparr>ls_lists = (ls_lists S)(n \<mapsto> (ls_next S, v) # xs), ls_next = ls_next S + 1\<rparr>"
| insert_after: "ls_lists S n = Some (ys @ (p, w) # zs) \<Longrightarrow> p \<noteq> 0 \<Longrightarrow>
    list_step (InsertAfter n p v) S \<lparr>ls_lists = (ls_lists S)(n \<mapsto> ys @ (p, w) # (ls_next S, v) # zs), ls_next = ls_next S + 1\<rparr>"
| set_value: "ls_lists S n = Some (ys @ (i, w) # zs) \<Longrightarrow>
    list_step (SetValue i v) S \<lparr>ls_lists = (ls_lists S)(n \<mapsto> ys @ (i, v) # zs), ls_next = ls_next S\<rparr>"
| remove: "ls_lists S n = Some (ys @ (i, w) # zs) \<Longrightarrow>
    list_step (Remove i) S \<lparr>ls_lists = (ls_lists S)(n \<mapsto> ys @ zs), ls_next = ls_next S\<rparr>"

text \<open>The command that an entry stands for.\<close>

definition list_command_of :: "'n op_libs \<Rightarrow> changelog_entry \<Rightarrow> changelog_error + list_command" where
  "list_command_of L e = (case lm_op_type (ce_message e) of
      Op_ListAppend \<Rightarrow>
        res_bind (extract_i64_column_from_entry L e LISTS_TABLE (str ''list_number'')) (\<lambda>n.
        res_bind (placeholder_value e) (\<lambda>v. Inr (Append n v)))
    | Op_ListInsert \<Rightarrow>
        res_bind (extract_i64_column_from_entry L e LISTS_TABLE (str ''list_number'')) (\<lambda>n.
        res_bind (extract_i64_column_from_entry L e LISTS_TABLE (str ''prev_id'')) (\<lambda>p.
        res_bind (placeholder_value e) (\<lambda>v. Inr (InsertAfter n p v))))
    | Op_ListUpdate \<Rightarrow>
        (case lm_entries (ce_message e) of
           [kv] \<Rightarrow> (case parse_key (kv_key kv) of Inr (PColumn _ i _) \<Rightarrow> Inr (SetValue i (kv_value kv)) | _ \<Rightarrow> Inl Generic)
         | _ \<Rightarrow> Inl Generic)
    | Op_ListDelete \<Rightarrow> res_bind (list_delete_target e) (\<lambda>i. Inr (Remove i))
    | _ \<Rightarrow> Inl Generic)"

section \<open>The operations implement the commands\<close>

definition list_refines :: "'n op_libs \<Rightarrow> (bytes \<times> bytes) list \<Rightarrow> lists_state \<Rightarrow> list_command \<Rightarrow> op_verify_result \<Rightarrow> bool" where
  "list_refines L kvs S cmd res \<longleftrightarrow> (\<exists>ops S'. write_steps res = [TWrite ops] \<and> list_step cmd S S' \<and>
    lists_inv L (fold store_op ops (map_of kvs)) S')"

lemma lists_inv_facts:
  assumes "lists_inv L m S" and "ls_lists S n = Some xs"
  shows "list_rep L m n xs" and "ls_next S \<notin> ids xs" and "0 \<notin> ids xs"
  using assms unfolding lists_inv_def by fastforce+

lemma next_id_after_value: "next_id_after i = Inr j \<Longrightarrow> j = i + 1 \<and> sint i < sint j"
  using signed_take_bit_int_eq_self [of 63 "sint i + 1"]
  by (auto simp: next_id_after_def i64_checked_add_def Let_def sint_word_ariths split: if_splits)

text \<open>The writes that follow the links of a new row.\<close>

lemma new_row_step:
  assumes inv: "lists_inv L m S" and n: "ls_lists S n = Some xs" and re: "relinks L m (fold store_op links m) n xs ys"
    and ix: "make_index_put L LISTS_TABLE c bs r = Inr b" and nx: "next_id_after (ls_next S) = Inr nx"
    and new: "ids ys = insert (ls_next S) (ids xs)"
  shows "lists_inv L (fold store_op (links @ [b] @ [next_id_put LISTS_TABLE nx]) m)
    \<lparr>ls_lists = (ls_lists S)(n \<mapsto> ys), ls_next = ls_next S + 1\<rparr>"
proof -
  let ?m1 = "fold store_op links m"
  let ?m2 = "store_op (next_id_put LISTS_TABLE nx) (store_op b ?m1)"
  have same: "same_lists ?m1 ?m2"
    using same_lists_index(1) [of L LISTS_TABLE c bs r b] ix same_lists_next same_lists_trans by blast
  have nx': "nx = ls_next S + 1" "sint (ls_next S) < sint nx"
    using next_id_after_value [OF nx] by auto
  have "lists_inv L ?m2 \<lparr>ls_lists = (ls_lists S)(n \<mapsto> ys), ls_next = nx\<rparr>"
    by (rule lists_inv_step [OF inv n re same]) (use new nx'(2) in \<open>auto simp: next_id_put_def\<close>)
  then show ?thesis
    by (simp add: nx'(1))
qed

lemma list_append_refines:
  assumes kvs: "sorted_map kvs" and L: "stores_integers L" and inv: "lists_inv L (map_of kvs) S"
    and op: "lm_op_type (ce_message e) = Op_ListAppend"
  shows "op_post L kvs (list_append_op L e ctx) (\<lambda>res. \<exists>cmd. list_command_of L e = Inr cmd \<and> list_refines L kvs S cmd res)"
proof -
  have "\<exists>cmd. list_command_of L e = Inr cmd \<and> list_refines L kvs S cmd \<lparr>write_steps = [TWrite (links @ ix @ [next_id_put LISTS_TABLE nx])]\<rparr>"
    if "extract_i64_column_from_entry L e LISTS_TABLE (str ''list_number'') = Inr n" "op_value kvs (read_next_id LISTS_TABLE) = Inr i"
      "op_value kvs (read_i64_key (list_tail_key n)) = Inr tail" "placeholder_value e = Inr v" "append_links L i n tail v = Inr links"
      "op_value kvs (list_number_index_put L n i) = Inr ix" "next_id_after i = Inr nx" for n i tail v links ix nx
  proof -
    note prem = that
    have i: "i = ls_next S"
      using that(2) lists_inv_next [OF inv] by (simp add: read_next_id_value [OF kvs])
    have tail: "pointer (map_of kvs) (list_tail_key n) = Some tail"
      using that(3) by (simp add: read_i64_key_value [OF kvs] ok_or_def split: option.splits)
    then have "map_of kvs (list_tail_key n) \<noteq> None"
      by (auto simp: pointer_def split: option.splits)
    then obtain xs where n: "ls_lists S n = Some xs"
      using inv unfolding lists_inv_def by blast
    note facts = lists_inv_facts [OF inv n]
    have "tail = last_id 0 xs"
      using tail facts(1) by (simp add: list_rep_def)
    then have re: "relinks L (map_of kvs) (fold store_op links (map_of kvs)) n xs (xs @ [(ls_next S, v)])"
      using append_links_relinks [OF L _ facts(1) facts(2,3)] that(5) i by simp
    obtain b bs where "ix = [b]" "make_index_put L LISTS_TABLE (str ''list_number'') bs i = Inr b"
      by (rule list_number_index_put_value [OF prem(6)])
    then have "lists_inv L (fold store_op (links @ ix @ [next_id_put LISTS_TABLE nx]) (map_of kvs))
        \<lparr>ls_lists = (ls_lists S)(n \<mapsto> xs @ [(ls_next S, v)]), ls_next = ls_next S + 1\<rparr>"
      using new_row_step [OF inv n re] that(7) i by simp
    then show ?thesis
      using that(1,4) op list_step.append [OF n] by (auto simp: list_command_of_def list_refines_def)
  qed
  note step = this
  show ?thesis
    unfolding list_append_op_def
    by (rule op_post_lift op_post_ensure op_post_prod op_post_bind op_post_return cache_free_helpers)+ (rule step, assumption+)
qed

lemma owner_of_row:
  assumes inv: "lists_inv L m S" and "cell L m i ''list_number'' = Some n"
  obtains ys v zs where "ls_lists S n = Some (ys @ (i, v) # zs)" and "cell L m i ''prev_id'' = Some (last_id 0 ys)"
    and "cell L m i ''next_id'' = Some (first_id zs 0)"
proof -
  have "m (column_key LISTS_TABLE i (str ''list_number'')) \<noteq> None"
    using assms(2) by (auto simp: cell_def bind_eq_Some_conv)
  then obtain n' xs where xs: "ls_lists S n' = Some xs" "i \<in> ids xs"
    using inv unfolding lists_inv_def by blast
  note rep = lists_inv_facts(1) [OF inv xs(1)]
  have "n' = n"
    using list_rep_member [OF rep xs(2)] assms(2) by simp
  obtain ys v zs where "xs = ys @ (i, v) # zs"
    using xs(2) by (auto simp: ids_def dest!: split_list)
  then show ?thesis
    using that [of ys v zs] xs(1) rep \<open>n' = n\<close> by (simp add: list_rep_def segment_append list_row_def)
qed

lemma insert_links_relinks:
  assumes kvs: "sorted_map kvs" and L: "stores_integers L" and inv: "lists_inv L (map_of kvs) S"
    and links: "op_value kvs (insert_links L (ls_next S) n p v) = Inr links"
  obtains xs ys where "ls_lists S n = Some xs" and "relinks L (map_of kvs) (fold store_op links (map_of kvs)) n xs ys"
    and "ids ys = insert (ls_next S) (ids xs)"
    and "list_step (InsertAfter n p v) S \<lparr>ls_lists = (ls_lists S)(n \<mapsto> ys), ls_next = ls_next S + 1\<rparr>"
proof (cases "p = 0")
  case True
  then obtain head where head: "pointer (map_of kvs) (list_head_key n) = Some head" and pre: "prepend_links L (ls_next S) n head v = Inr links"
    using links by (auto simp: insert_links_def op_value_bind [of L] cache_free_helpers cache_free_lift read_i64_key_value [OF kvs] ok_or_def
        res_bind_Inr_iff split: option.splits)
  from head have "map_of kvs (list_head_key n) \<noteq> None"
    by (auto simp: pointer_def split: option.splits)
  then obtain xs where n: "ls_lists S n = Some xs"
    using inv unfolding lists_inv_def by blast
  note facts = lists_inv_facts [OF inv n]
  have "head = first_id xs 0"
    using head facts(1) by (simp add: list_rep_def)
  then have "relinks L (map_of kvs) (fold store_op links (map_of kvs)) n xs ((ls_next S, v) # xs)"
    using prepend_links_relinks [OF L _ facts] pre by simp
  then show ?thesis
    using that [OF n] list_step.prepend [OF n] True by simp
next
  case False
  have free: "cache_free L kvs (op_bind (op_ensure Generic (a = n)) (\<lambda>_. op_bind (read_i64_column L p (str ''next_id'')) (\<lambda>s.
      op_lift (insert_after_links L (ls_next S) n p s v))))" for a
    by (rule cache_free_intros cache_free_helpers)+
  obtain s where number: "cell L (map_of kvs) p ''list_number'' = Some n" and s: "cell L (map_of kvs) p ''next_id'' = Some s"
    and after: "insert_after_links L (ls_next S) n p s v = Inr links"
    using links False
    by (auto simp: insert_links_def op_value_bind [of L] cache_free_helpers cache_free_intros free read_i64_column_value [OF kvs] ok_or_def
        res_bind_Inr_iff split: option.splits if_splits)
  obtain ys w zs where n: "ls_lists S n = Some (ys @ (p, w) # zs)" and "cell L (map_of kvs) p ''next_id'' = Some (first_id zs 0)"
    by (rule owner_of_row [OF inv number])
  note facts = lists_inv_facts [OF inv n]
  have "relinks L (map_of kvs) (fold store_op links (map_of kvs)) n (ys @ (p, w) # zs) (ys @ (p, w) # (ls_next S, v) # zs)"
    using insert_after_links_relinks [OF L _ facts] after s \<open>cell L (map_of kvs) p ''next_id'' = Some (first_id zs 0)\<close> by simp
  then show ?thesis
    by (rule that [OF n]) (use list_step.insert_after [OF n False] in auto)
qed

lemma list_insert_refines:
  assumes kvs: "sorted_map kvs" and L: "stores_integers L" and inv: "lists_inv L (map_of kvs) S"
    and op: "lm_op_type (ce_message e) = Op_ListInsert"
  shows "op_post L kvs (list_insert_op L e ctx) (\<lambda>res. \<exists>cmd. list_command_of L e = Inr cmd \<and> list_refines L kvs S cmd res)"
proof -
  have "\<exists>cmd. list_command_of L e = Inr cmd \<and> list_refines L kvs S cmd \<lparr>write_steps = [TWrite (links @ ix @ [next_id_put LISTS_TABLE nx])]\<rparr>"
    if "extract_i64_column_from_entry L e LISTS_TABLE (str ''list_number'') = Inr n"
      "extract_i64_column_from_entry L e LISTS_TABLE (str ''prev_id'') = Inr p"
      "placeholder_value e = Inr v" "op_value kvs (read_next_id LISTS_TABLE) = Inr i" "op_value kvs (insert_links L i n p v) = Inr links"
      "op_value kvs (list_number_index_put L n i) = Inr ix" "next_id_after i = Inr nx" for n i p v links ix nx
  proof -
    note prem = that
    have i: "i = ls_next S"
      using that(4) lists_inv_next [OF inv] by (simp add: read_next_id_value [OF kvs])
    obtain xs ys where n: "ls_lists S n = Some xs" and re: "relinks L (map_of kvs) (fold store_op links (map_of kvs)) n xs ys"
      and new: "ids ys = insert (ls_next S) (ids xs)"
      and step: "list_step (InsertAfter n p v) S \<lparr>ls_lists = (ls_lists S)(n \<mapsto> ys), ls_next = ls_next S + 1\<rparr>"
      by (rule insert_links_relinks [OF kvs L inv prem(5) [unfolded i]])
    obtain b bs where "ix = [b]" "make_index_put L LISTS_TABLE (str ''list_number'') bs i = Inr b"
      by (rule list_number_index_put_value [OF prem(6)])
    then have "lists_inv L (fold store_op (links @ ix @ [next_id_put LISTS_TABLE nx]) (map_of kvs))
        \<lparr>ls_lists = (ls_lists S)(n \<mapsto> ys), ls_next = ls_next S + 1\<rparr>"
      using new_row_step [OF inv n re] prem(7) new i by simp
    then show ?thesis
      using prem(1-3) op step by (auto simp: list_command_of_def list_refines_def)
  qed
  note step = this
  show ?thesis
    unfolding list_insert_op_def
    by (rule op_post_lift op_post_ensure op_post_prod op_post_bind op_post_return cache_free_helpers)+ (rule step, assumption+)
qed

text \<open>The writes that keep the counter: setting the value of a row and removing a row.\<close>

lemma counter_kept:
  assumes inv: "lists_inv L m S" and n: "ls_lists S n = Some xs" and re: "relinks L m m1 n xs ys" and same: "same_lists m1 m2"
    and key: "m2 (schema_next_id_key LISTS_TABLE) = m1 (schema_next_id_key LISTS_TABLE)" and sub: "ids ys \<subseteq> ids xs"
    and gone: "\<And>i. i \<in> ids xs \<Longrightarrow> i \<notin> ids ys \<Longrightarrow> m1 (column_key LISTS_TABLE i (str ''list_number'')) = None"
  shows "lists_inv L m2 \<lparr>ls_lists = (ls_lists S)(n \<mapsto> ys), ls_next = ls_next S\<rparr>"
proof (rule lists_inv_step [OF inv n re same _ _ _ gone])
  show "case m2 (schema_next_id_key LISTS_TABLE) of None \<Rightarrow> ls_next S = 1 | Some bs \<Rightarrow> length bs = 8 \<and> u64_from_be_bytes bs = ls_next S"
    using inv re key unfolding lists_inv_def relinks_def by presburger
qed (use sub in auto)

lemma list_update_refines:
  assumes kvs: "sorted_map kvs" and inv: "lists_inv L (map_of kvs) S"
    and op: "lm_op_type (ce_message e) = Op_ListUpdate"
  shows "op_post L kvs (list_update_op L e ctx) (\<lambda>res. \<exists>cmd. list_command_of L e = Inr cmd \<and> list_refines L kvs S cmd res)"
proof -
  have "\<exists>cmd. list_command_of L e = Inr cmd \<and>
      list_refines L kvs S cmd \<lparr>write_steps = [TWrite [BPut (column_key LISTS_TABLE i (str ''value'')) (kv_value kv)]]\<rparr>"
    if "lm_entries (ce_message e) = [kv]"
      "(case parse_key (kv_key kv) of Inr (PColumn t r c) \<Rightarrow> if t = LISTS_TABLE \<and> c = str ''value'' then Inr r else Inl Generic | _ \<Rightarrow> Inl Generic) = Inr i"
      "op_value kvs (read_list_number L i) = Inr n" for kv i n
  proof -
    note number = read_list_number_value [OF kvs that(3)]
    obtain ys w zs where n: "ls_lists S n = Some (ys @ (i, w) # zs)"
      by (rule owner_of_row [OF inv number])
    let ?m = "(map_of kvs)(column_key LISTS_TABLE i (str ''value'') \<mapsto> kv_value kv)"
    have "lists_inv L ?m \<lparr>ls_lists = (ls_lists S)(n \<mapsto> ys @ (i, kv_value kv) # zs), ls_next = ls_next S\<rparr>"
      by (rule counter_kept [OF inv n set_value_relinks [OF lists_inv_facts(1) [OF inv n]]]) (auto simp: same_lists_def same_row_def)
    moreover have "list_command_of L e = Inr (SetValue i (kv_value kv))"
      using that(1,2) op by (auto simp: list_command_of_def split: sum.splits parsed_key.splits if_splits)
    ultimately show ?thesis
      using list_step.set_value [OF n] by (auto simp: list_refines_def)
  qed
  note step = this
  show ?thesis
    unfolding list_update_op_def
    by (rule op_post_fail op_post_list op_post_lift op_post_ensure op_post_prod op_post_bind op_post_return cache_free_helpers)+
      (rule step, simp, assumption+, rule op_post_fail)
qed

lemma list_delete_refines:
  assumes kvs: "sorted_map kvs" and L: "stores_integers L" and inv: "lists_inv L (map_of kvs) S"
    and op: "lm_op_type (ce_message e) = Op_ListDelete"
  shows "op_post L kvs (list_delete_op L e ctx) (\<lambda>res. \<exists>cmd. list_command_of L e = Inr cmd \<and> list_refines L kvs S cmd res)"
proof -
  have "\<exists>cmd. list_command_of L e = Inr cmd \<and> list_refines L kvs S cmd \<lparr>write_steps = [TWrite (ops @ [del])]\<rparr>"
    if "list_delete_target e = Inr i" "op_value kvs (read_list_number L i) = Inr n"
      "op_value kvs (read_i64_column L i (str ''prev_id'')) = Inr p" "op_value kvs (read_i64_column L i (str ''next_id'')) = Inr q"
      "unlink_ops L i n p q = Inr ops" "make_index_delete L LISTS_TABLE (str ''list_number'') bs i = Inr del" for i n p q ops bs del
  proof -
    note number = read_list_number_value [OF kvs that(2)]
    obtain ys w zs where n: "ls_lists S n = Some (ys @ (i, w) # zs)" and "cell L (map_of kvs) i ''prev_id'' = Some (last_id 0 ys)"
      and "cell L (map_of kvs) i ''next_id'' = Some (first_id zs 0)"
      by (rule owner_of_row [OF inv number])
    then have ops: "unlink_ops L i n (last_id 0 ys) (first_id zs 0) = Inr ops"
      using that(3-5) by (simp add: read_i64_column_value [OF kvs])
    note facts = lists_inv_facts [OF inv n]
    note links = unlink_ops_relinks [OF L ops facts(1,3)]
    have del: "make_index_put L LISTS_TABLE (str ''list_number'') bs i = Inr del \<or> make_index_delete L LISTS_TABLE (str ''list_number'') bs i = Inr del"
      using that(6) ..
    have "lists_inv L (fold store_op (ops @ [del]) (map_of kvs)) \<lparr>ls_lists = (ls_lists S)(n \<mapsto> ys @ zs), ls_next = ls_next S\<rparr>"
      by (rule counter_kept [OF inv n links(1)]) (use links(2) same_lists_index [OF del] in auto)
    then show ?thesis
      using that(1) op list_step.remove [OF n] by (auto simp: list_command_of_def list_refines_def)
  qed
  note step = this
  show ?thesis
    unfolding list_delete_op_def
    by (rule op_post_lift op_post_ensure op_post_prod op_post_bind op_post_return cache_free_helpers cache_free_metadata)+ (rule step, assumption+)
qed

section \<open>An example\<close>

text \<open>A space with an active user, a row that owns the empty list 1, and a change that appends to it.\<close>

definition list_store :: "(bytes \<times> bytes) list" where
  "list_store = store_of_list
    [(user_status_key 1, u64_to_be_bytes 1),
     (column_key (str ''t'') 1 (str ''l''), u64_to_be_bytes 1),
     (list_head_key 1, u64_to_be_bytes 0),
     (list_tail_key 1, u64_to_be_bytes 0),
     (list_parent_key 1, encode_list_parent (str ''t'') 1 (str ''l'')),
     (schema_indexes_key LISTS_TABLE, str ''list_number'')]"

definition list_demo :: changelog_entry where
  "list_demo = default_entry\<lparr>ce_uid := 1, ce_message := \<lparr>lm_op_type = Op_ListAppend, lm_tree_path = [],
    lm_entries = [\<lparr>kv_key = column_key LISTS_TABLE 0 (str ''list_number''), kv_value = u64_to_be_bytes 1\<rparr>,
      \<lparr>kv_key = column_key LISTS_TABLE 0 (str ''value''), kv_value = [9]\<rparr>]\<rparr>\<rparr>"

lemma list_demo_fields:
  "ce_uid list_demo = 1" "lm_op_type (ce_message list_demo) = Op_ListAppend"
  "lm_entries (ce_message list_demo) = [\<lparr>kv_key = column_key LISTS_TABLE 0 (str ''list_number''), kv_value = u64_to_be_bytes 1\<rparr>,
      \<lparr>kv_key = column_key LISTS_TABLE 0 (str ''value''), kv_value = [9]\<rparr>]"
  by (simp_all add: list_demo_def)

lemma list_store_sorted: "sorted_map list_store"
  unfolding list_store_def by (rule store_of_list)

lemma list_store_lookup:
  "map_of list_store (user_status_key 1) = Some (u64_to_be_bytes 1)"
  "map_of list_store (column_key (str ''t'') 1 (str ''l'')) = Some (u64_to_be_bytes 1)"
  "map_of list_store (list_head_key n) = (if n = 1 then Some (u64_to_be_bytes 0) else None)"
  "map_of list_store (list_tail_key n) = (if n = 1 then Some (u64_to_be_bytes 0) else None)"
  "map_of list_store (list_parent_key 1) = Some (encode_list_parent (str ''t'') 1 (str ''l''))"
  "map_of list_store (schema_indexes_key LISTS_TABLE) = Some (str ''list_number'')"
  "map_of list_store (schema_next_id_key LISTS_TABLE) = None"
  "map_of list_store (column_key LISTS_TABLE i c) = None"
  "map_of list_store (acl_rule_key (str ''t'') op) = None"
  unfolding list_store_def store_of_list(2) user_status_key_def
  by (auto simp: builder_defs tuple_codec.encode_eq_iff str_inject USERS_TABLE_def LISTS_TABLE_def TAG_ROW_def TAG_SCHEMA_def)

lemma plain_libs_integers:
  "value_to_bytes plain_libs (JNumber (ol_from_i64 plain_libs i)) = Inr (u64_to_be_bytes i)"
  "parse_i64_column_value plain_libs (u64_to_be_bytes i) = Some i"
  "bytes_to_value plain_libs (u64_to_be_bytes i) = Inr (JNumber i)"
  by (simp_all add: plain_libs_def value_to_bytes_def number_to_stored_def parse_i64_column_value_def bytes_to_value_def)

lemma plain_stores_integers: "stores_integers plain_libs"
  by (simp add: stores_integers_def plain_libs_integers)

lemma list_store_inv: "lists_inv plain_libs (map_of list_store) \<lparr>ls_lists = [1 \<mapsto> []], ls_next = 1\<rparr>"
  by (auto simp: lists_inv_def list_store_lookup list_rep_def pointer_def split: if_splits)

lemma list_demo_keys:
  "parse_key (column_key LISTS_TABLE 0 (str ''list_number'')) = Inr (PColumn LISTS_TABLE 0 (str ''list_number''))"
  "parse_key (column_key LISTS_TABLE 0 (str ''value'')) = Inr (PColumn LISTS_TABLE 0 (str ''value''))"
  by (simp_all add: parse_key_row(3) str_def LISTS_TABLE_def)

lemma list_demo_checks:
  "validate_placeholder_columns list_demo [str ''value'', str ''list_number''] = Inr ()"
  "extract_i64_column_from_entry plain_libs list_demo LISTS_TABLE (str ''list_number'') = Inr 1"
  "placeholder_value list_demo = Inr [9]"
  by (simp_all add: validate_placeholder_columns_def placeholder_column_def list_demo_fields list_demo_keys str_inject
      extract_i64_column_from_entry_def column_of_table_def decode_i64_column_value_def plain_libs_integers placeholder_value_def
      column_key_placeholder_def list_key_eqs ensure_def)

lemma plain_as_i64: "ol_as_i64 plain_libs = Some"
  by (simp add: plain_libs_def)

lemma list_demo_index:
  "decode_column_names (str ''list_number'') = Some [str ''list_number'']"
  "make_index_put plain_libs LISTS_TABLE (str ''list_number'') (u64_to_be_bytes 1) 1 =
    Inr (BPut (encode_tuple [TString TAG_INDEX, TString LISTS_TABLE, TString (str ''list_number''), TInt 1, TInt 1]) (u64_to_be_bytes 1))"
  by (simp add: decode_column_names_def str_def btree_set_def)
    (simp add: make_index_put_def build_index_key_def plain_libs_integers(3) index_key_def row_id_to_bytes_def plain_as_i64 word_sle_eq)

lemma list_demo_owner: "decode_list_parent (encode_list_parent (str ''t'') 1 (str ''l'')) = Inr (str ''t'', 1, str ''l'')"
  by (simp add: decode_list_parent_def encode_list_parent_def tuple_decode_encode str_def)

lemma list_demo_parent: "op_value list_store (resolve_list_parent 1) = Inr (str ''t'', 1, str ''l'')"
  by (simp add: resolve_list_parent_def op_value_bind [of plain_libs] cache_free_intros op_value_read_key [OF list_store_sorted]
      list_store_lookup list_demo_owner demo_table
      del: op_value_simps(4))

lemma list_demo_acl: "op_value list_store (list_acl_check plain_libs (str ''t'') 1 uid op) = Inr ()"
  by (simp add: list_acl_check_def Let_def op_value_bind [of plain_libs] cache_free_intros cache_free_metadata cache_free_helpers op_value_cached
      key_results_sorted [OF list_store_sorted] list_store_lookup results_rule_def optional_result_def)

lemma list_demo_user: "op_value list_store (validate_user_access plain_libs list_demo Op_ListAppend) = Inr ()"
  by (simp add: validate_user_access_value [OF list_store_sorted] active_user_def list_demo_fields list_store_lookup plain_libs_integers)

definition appended_row :: "batch_op list" where
  "appended_row =
    [BPut (column_key LISTS_TABLE 1 (str ''list_number'')) (u64_to_be_bytes 1),
     BPut (column_key LISTS_TABLE 1 (str ''next_id'')) (u64_to_be_bytes 0),
     BPut (column_key LISTS_TABLE 1 (str ''prev_id'')) (u64_to_be_bytes 0),
     BPut (column_key LISTS_TABLE 1 (str ''value'')) [9],
     BPut (list_head_key 1) (u64_to_be_bytes 1),
     BPut (list_tail_key 1) (u64_to_be_bytes 1),
     BPut (encode_tuple [TString TAG_INDEX, TString LISTS_TABLE, TString (str ''list_number''), TInt 1, TInt 1]) (u64_to_be_bytes 1),
     next_id_put LISTS_TABLE 2]"

lemma list_demo_writes:
  "append_links plain_libs 1 1 0 [9] = Inr (take 6 appended_row)"
  "op_value list_store (list_number_index_put plain_libs 1 1) = Inr [appended_row ! 6]"
  "next_id_after 1 = Inr 2" "appended_row ! 7 = next_id_put LISTS_TABLE 2" "length appended_row = 8"
  by (simp_all add: append_links_def new_row_puts_def stored_i64_put_def plain_libs_integers i64_put_def appended_row_def
      list_number_index_put_def op_value_bind [of plain_libs] cache_free_intros cache_free_metadata op_value_cached list_demo_index
      key_results_sorted [OF list_store_sorted] list_store_lookup results_names_def optional_result_def
      next_id_after_def i64_checked_add_def)

lemma list_demo_accepted:
  "op_value list_store (dispatch_extract_and_validate plain_libs list_demo ctx) = Inr \<lparr>write_steps = [TWrite appended_row]\<rparr>"
proof -
  have "op_value list_store (list_append_op plain_libs list_demo ctx) =
      Inr \<lparr>write_steps = [TWrite (take 6 appended_row @ [appended_row ! 6] @ [appended_row ! 7])]\<rparr>"
    by (simp add: list_append_op_def op_value_bind [of plain_libs] cache_free_intros cache_free_helpers list_demo_user list_demo_checks
        list_demo_parent list_demo_acl read_next_id_value [OF list_store_sorted] next_row_id_def list_store_lookup
        read_i64_key_value [OF list_store_sorted] pointer_def list_demo_writes word_sle_eq list_demo_fields)
  also have "take 6 appended_row @ [appended_row ! 6] @ [appended_row ! 7] = appended_row"
    by (simp add: appended_row_def)
  finally show ?thesis
    by (simp add: dispatch_extract_and_validate_def enforce_dispatch_gating_def gated_operation_def list_demo_fields
        op_value_bind [of plain_libs] cache_free_intros cache_free_list_ops)
qed

section \<open>Refinement of the lists\<close>

lemma list_dispatch_refines:
  assumes "sorted_map kvs" and "stores_integers L" and "lists_inv L (map_of kvs) S"
    and "lm_op_type (ce_message e) \<in> {Op_ListAppend, Op_ListInsert, Op_ListUpdate, Op_ListDelete}"
  shows "op_post L kvs (dispatch_extract_and_validate L e ctx) (\<lambda>res. \<exists>cmd. list_command_of L e = Inr cmd \<and> list_refines L kvs S cmd res)"
  unfolding dispatch_extract_and_validate_def
  by (rule op_post_bind, rule cache_free_gates)
    (use assms(4) list_append_refines [OF assms(1-3)] list_insert_refines [OF assms(1-3)] list_update_refines [OF assms(1,3)]
      list_delete_refines [OF assms(1-3)] in auto)

text \<open>C10: The list operations implement a plain sequence of values.  In a store that represents a family of
  lists by linked rows, an accepted append, insertion, update or deletion of a list element performs the
  command of its entry on the family, and its writes lead to a store that represents the result: the head,
  tail, previous and next pointers agree with the new order, the other lists are untouched, and the row
  counter stays above every row.\<close>

theorem list_operations_refine_sequences:
  assumes "sorted_map kvs" and "coherent L kvs c" and "stores_integers L" and "lists_inv L (map_of kvs) S"
    and "lm_op_type (ce_message e) \<in> {Op_ListAppend, Op_ListInsert, Op_ListUpdate, Op_ListDelete}"
    and "run_store kvs (dispatch_extract_and_validate L e ctx c) = Inr (res, c')"
  shows "\<exists>cmd writes S'. list_command_of L e = Inr cmd \<and> list_step cmd S S' \<and> flatten_write_steps res = Inr writes \<and>
    lists_inv L (map_of (fold write_op writes kvs)) S'"
proof -
  obtain cmd where cmd: "list_command_of L e = Inr cmd" and "list_refines L kvs S cmd res"
    using op_post_run [OF list_dispatch_refines [OF assms(1,3,4,5)] assms(2,6)] by blast
  then obtain ops S' where ops: "write_steps res = [TWrite ops]" and "list_step cmd S S'" and "lists_inv L (fold store_op ops (map_of kvs)) S'"
    unfolding list_refines_def by blast
  moreover have "flatten_write_steps res = Inr ops"
    unfolding flatten_write_steps_iff by (rule exI [of _ "[ops]"]) (simp add: ops)
  moreover have "map_of (fold write_op ops kvs) = fold store_op ops (map_of kvs)"
    using write_ops [OF assms(1)] by blast
  ultimately show ?thesis
    using cmd by metis
qed

theorem list_operations_refine_sequences_witness:
  "\<exists>c. run_store list_store (dispatch_extract_and_validate plain_libs list_demo (for_change_id 1) cache_default) =
      Inr (\<lparr>write_steps = [TWrite appended_row]\<rparr>, c) \<and>
    lists_inv plain_libs (map_of (fold write_op appended_row list_store)) \<lparr>ls_lists = [1 \<mapsto> [(1, [9])]], ls_next = 2\<rparr>"
proof -
  obtain c where c: "run_store list_store (dispatch_extract_and_validate plain_libs list_demo (for_change_id 1) cache_default) =
      Inr (\<lparr>write_steps = [TWrite appended_row]\<rparr>, c)"
    using op_value_run [OF list_demo_accepted] by blast
  have "lm_op_type (ce_message list_demo) \<in> {Op_ListAppend, Op_ListInsert, Op_ListUpdate, Op_ListDelete}"
    by (simp add: list_demo_fields)
  from list_operations_refine_sequences [OF list_store_sorted coherent_default plain_stores_integers list_store_inv this c]
  obtain S' where "list_step (Append 1 [9]) \<lparr>ls_lists = [1 \<mapsto> []], ls_next = 1\<rparr> S'"
    and "lists_inv plain_libs (map_of (fold write_op appended_row list_store)) S'"
    by (auto simp: list_command_of_def list_demo_fields list_demo_checks flatten_write_steps_def)
  then show ?thesis
    using c by (auto elim: list_step.cases)
qed

end
