(* ===== verification/Space_History.thy ===== *)
theory Space_History
  imports Ops_Auth
begin

text \<open>
  The history of a space.  A step of the history runs one change with the real operations on the store,
  without a cache, and performs its writes; a history is a sequence of such steps.  Whatever the
  fast-forward guest replays in chunks is such a history, and its invariants are proved by rule induction
  over it: the store stays sorted, the schema, the access rules and the actions never change, and every
  change is made by a user who is entitled to it in the store it was made in.
\<close>

section \<open>Steps and histories\<close>

inductive space_step :: "'n op_libs \<Rightarrow> nat \<Rightarrow> changelog_entry \<Rightarrow> (bytes \<times> bytes) list \<Rightarrow> (bytes \<times> bytes) list \<Rightarrow> bool" for OL where
  accept: "op_value kvs (dispatch_extract_and_validate OL e (for_change_id n)) = Inr res \<Longrightarrow> flatten_write_steps res = Inr writes \<Longrightarrow>
    space_step OL n e kvs (fold write_op writes kvs)"

inductive space_run :: "'n op_libs \<Rightarrow> nat \<Rightarrow> changelog_entry list \<Rightarrow> (bytes \<times> bytes) list \<Rightarrow> (bytes \<times> bytes) list \<Rightarrow> bool" for OL where
  start: "space_run OL n [] kvs kvs"
| change: "space_step OL n e kvs mid \<Longrightarrow> space_run OL (Suc n) es mid kvs' \<Longrightarrow> space_run OL n (e # es) kvs kvs'"

inductive_cases space_step_elim: "space_step OL n e kvs kvs'"
inductive_simps space_run_simps [simp]: "space_run OL n [] kvs kvs'" "space_run OL n (e # es) kvs kvs'"

lemma space_run_append:
  "space_run OL n (xs @ ys) kvs kvs' \<longleftrightarrow> (\<exists>mid. space_run OL n xs kvs mid \<and> space_run OL (n + length xs) ys mid kvs')"
  by (induction xs arbitrary: n kvs) auto

section \<open>The replay of the guest is a history\<close>

text \<open>The state of a replay with a cache that agrees with its store.\<close>

abbreviation sound_chain :: "'n op_libs \<Rightarrow> chain \<Rightarrow> bool" where
  "sound_chain OL c \<equiv> cache_variant OL c c"

lemma replay_entry_space_step:
  assumes c: "sound_chain OL c" and step: "replay_entry L (dispatch_extract_and_validate OL) bs c = Some c'"
  shows "\<exists>e. from_bytes_for_verification (usize_max L) bs = Inr e \<and> space_step OL (length (cn_leaves c)) e (cn_store c) (cn_store c') \<and>
    length (cn_leaves c') = Suc (length (cn_leaves c)) \<and> sound_chain OL c'"
proof -
  obtain e res cache writes where e: "from_bytes_for_verification (usize_max L) bs = Inr e"
    and run: "run_store (cn_store c) (dispatch_extract_and_validate OL e (for_change_id (length (cn_leaves c))) (cn_cache c)) = Inr (res, cache)"
    and writes: "flatten_write_steps res = Inr writes" and c': "cn_store c' = fold write_op writes (cn_store c)"
    "length (cn_leaves c') = Suc (length (cn_leaves c))"
    using step by (auto simp: replay_entry_def Let_def split: sum.splits prod.splits if_splits)
  have "coherent OL (cn_store c) (cn_cache c)"
    using c by (simp add: cache_variant_def)
  then have "op_value (cn_store c) (dispatch_extract_and_validate OL e (for_change_id (length (cn_leaves c)))) = Inr res"
    using cache_free_run(1) [OF cache_free_dispatch, of OL "cn_store c" "cn_cache c" e "for_change_id (length (cn_leaves c))"] run by simp
  then have "space_step OL (length (cn_leaves c)) e (cn_store c) (cn_store c')"
    using space_step.accept writes c' by metis
  moreover have "sound_chain OL c'"
    using cache_variant_replay_entry [OF c, of L bs] step by simp
  ultimately show ?thesis
    using e c' by blast
qed

lemma replay_space_run:
  assumes "sound_chain OL c" and "replay L (dispatch_extract_and_validate OL) bss c = Some c'"
  shows "\<exists>es. map (from_bytes_for_verification (usize_max L)) bss = map Inr es \<and>
    space_run OL (length (cn_leaves c)) es (cn_store c) (cn_store c')"
  using assms
proof (induction bss arbitrary: c)
  case (Cons bs bss)
  then obtain d where d: "replay_entry L (dispatch_extract_and_validate OL) bs c = Some d"
    and rest: "replay L (dispatch_extract_and_validate OL) bss d = Some c'"
    by (auto simp: bind_eq_Some_conv)
  obtain e where e: "from_bytes_for_verification (usize_max L) bs = Inr e" and "sound_chain OL d"
    and step: "space_step OL (length (cn_leaves c)) e (cn_store c) (cn_store d)" and len: "length (cn_leaves d) = Suc (length (cn_leaves c))"
    using replay_entry_space_step [OF Cons.prems(1) d] by blast
  with Cons.IH [OF _ rest] obtain es where "map (from_bytes_for_verification (usize_max L)) bss = map Inr es"
    and "space_run OL (Suc (length (cn_leaves c))) es (cn_store d) (cn_store c')"
    by auto
  then have "map (from_bytes_for_verification (usize_max L)) (bs # bss) = map Inr (e # es) \<and>
      space_run OL (length (cn_leaves c)) (e # es) (cn_store c) (cn_store c')"
    using e step by auto
  then show ?case ..
qed simp

section \<open>Invariants of histories\<close>

lemma space_step_sorted: "space_step OL n e kvs kvs' \<Longrightarrow> sorted_map kvs \<Longrightarrow> sorted_map kvs'"
  by (auto elim!: space_step_elim dest: write_ops)

lemma space_step_static:
  assumes "space_step OL n e kvs kvs'" and "sorted_map kvs" and "static_key k"
  shows "map_of kvs' k = map_of kvs k"
  using assms(1)
proof (rule space_step_elim)
  fix res writes
  assume kvs': "kvs' = fold write_op writes kvs" and flat: "flatten_write_steps res = Inr writes"
    and run: "op_value kvs (dispatch_extract_and_validate OL e (for_change_id n)) = Inr res"
  obtain c where "run_store kvs (dispatch_extract_and_validate OL e (for_change_id n) cache_default) = Inr (res, c)"
    using op_value_run [OF run] by blast
  then have "dynamic_result res"
    using op_all_run [OF dispatch_dynamic] by (simp add: run_store_def)
  then have "dynamic_ops writes"
    using flat by (rule dynamic_result_flatten)
  then have "fold store_op writes (map_of kvs) k = map_of kvs k"
    using assms(3) by (intro fold_store_op_other) auto
  then show ?thesis
    using write_ops [OF assms(2), of writes] kvs' by simp
qed

lemma space_run_sorted: "space_run OL n es kvs kvs' \<Longrightarrow> sorted_map kvs \<Longrightarrow> sorted_map kvs'"
  by (induction rule: space_run.induct) (auto dest: space_step_sorted)

lemma space_run_static: "space_run OL n es kvs kvs' \<Longrightarrow> sorted_map kvs \<Longrightarrow> static_key k \<Longrightarrow> map_of kvs' k = map_of kvs k"
  by (induction rule: space_run.induct) (auto simp: space_step_static dest: space_step_sorted)

section \<open>Every change of a history is authorized\<close>

definition entitled :: "'n op_libs \<Rightarrow> (bytes \<times> bytes) list \<Rightarrow> changelog_entry \<Rightarrow> bool" where
  "entitled OL kvs e = (case lm_op_type (ce_message e) of
      Op_Noop \<Rightarrow> True
    | Op_CreateSpace \<Rightarrow> no_users kvs
    | Op_RefreshKeys \<Rightarrow> known_user kvs (ce_uid e)
    | _ \<Rightarrow> active_user OL kvs (ce_uid e))"

lemma space_step_entitled:
  assumes "space_step OL n e kvs kvs'" and "sorted_map kvs"
  shows "entitled OL kvs e"
  using assms(1)
proof (rule space_step_elim)
  fix res
  assume "op_value kvs (dispatch_extract_and_validate OL e (for_change_id n)) = Inr res"
  from op_post_value [OF dispatch_active [OF assms(2)] this] show ?thesis
    by (cases "lm_op_type (ce_message e)") (simp_all add: entitled_def)
qed

lemma space_run_entitled:
  assumes "space_run OL n es kvs kvs'" and "sorted_map kvs" and "i < length es"
  shows "\<exists>mid. space_run OL n (take i es) kvs mid \<and> entitled OL mid (es ! i)"
proof -
  have "es = take i es @ es ! i # drop (Suc i) es"
    using assms(3) by (rule id_take_nth_drop)
  then obtain mid mid' where mid: "space_run OL n (take i es) kvs mid" and "space_step OL (n + i) (es ! i) mid mid'"
    using assms(1,3) space_run_append [of OL n "take i es" "es ! i # drop (Suc i) es" kvs kvs'] by auto
  then show ?thesis
    using space_step_entitled space_run_sorted [OF mid assms(2)] by blast
qed

lemma replay_chunks_store:
  assumes "sorted_map (cn_store c)" and "replay_chunks L (dispatch_extract_and_validate OL) chunks c = Some c'"
  obtains d where "replay L (dispatch_extract_and_validate OL) (concat chunks) (c\<lparr>cn_cache := cache_default\<rparr>) = Some d"
    and "cn_store d = cn_store c'"
proof (cases chunks)
  case (Cons es rest)
  let ?d = "c\<lparr>cn_cache := cache_default\<rparr>"
  have "cache_variant OL ?d ?d"
    using assms(1) by (simp add: cache_variant_def)
  then have "rel_option (cache_variant OL) (replay_chunks L (dispatch_extract_and_validate OL) chunks ?d)
      (replay L (dispatch_extract_and_validate OL) (concat chunks) ?d)"
    by (rule cache_variant_chunks)
  moreover have "replay_chunks L (dispatch_extract_and_validate OL) chunks ?d = Some c'"
    using assms(2) Cons by simp
  ultimately show thesis
    using that cache_variant_fields by (auto elim!: option.rel_cases)
qed (use that assms(2) in simp)

lemma replayed_history:
  assumes "sorted_map (cn_store c)" and "replay_chunks L (dispatch_extract_and_validate OL) chunks c = Some c'"
  shows "\<exists>es. map (from_bytes_for_verification (usize_max L)) (concat chunks) = map Inr es \<and>
    space_run OL (length (cn_leaves c)) es (cn_store c) (cn_store c') \<and>
    (\<forall>i < length es. \<exists>mid. space_run OL (length (cn_leaves c)) (take i es) (cn_store c) mid \<and> entitled OL mid (es ! i)) \<and>
    (\<forall>k. static_key k \<longrightarrow> map_of (cn_store c') k = map_of (cn_store c) k)"
proof -
  obtain d where d: "replay L (dispatch_extract_and_validate OL) (concat chunks) (c\<lparr>cn_cache := cache_default\<rparr>) = Some d"
    and store: "cn_store d = cn_store c'"
    by (rule replay_chunks_store [OF assms])
  have "sound_chain OL (c\<lparr>cn_cache := cache_default\<rparr>)"
    using assms(1) by (simp add: cache_variant_def)
  from replay_space_run [OF this d] obtain es where
      es: "map (from_bytes_for_verification (usize_max L)) (concat chunks) = map Inr es"
      and run: "space_run OL (length (cn_leaves c)) es (cn_store c) (cn_store c')"
    by (auto simp: store)
  then show ?thesis
    using space_run_entitled [OF run assms(1)] space_run_static [OF run assms(1)] by blast
qed


text \<open>An instance: one chunk with the insertion of the example space.\<close>

lemma demo_key_length: "length (column_key (str ''t'') 0 (str ''v'')) = 10"
  by (simp add: column_key_def encode_tuple_simps TAG_ROW_def str_def encode_int_def)

lemma demo_wire: "from_bytes_for_verification 4294967295 (entry_wire demo_insert) = Inr demo_insert"
proof -
  have "entry_sized demo_insert" and "length (entry_wire demo_insert) \<le> 4294967295"
    by (simp_all add: entry_sized_def demo_insert_def default_entry_def entry_wire_def vec_wire_def varint_bytes.simps
        digest_bytes_def demo_key_length)
  from decode_entry_wire [OF this, of False] show ?thesis
    by (simp add: from_bytes_for_verification_def demo_insert_def default_entry_def)
qed

lemma demo_replay:
  "\<exists>c'. replay_chunks flat_libs (dispatch_extract_and_validate plain_libs) [[entry_wire demo_insert]] (genesis flat_libs 12 demo_store) = Some c' \<and>
    cn_store c' = fold write_op [BPut (column_key (str ''t'') 1 (str ''v'')) [7], next_id_put (str ''t'') 2] demo_store"
proof -
  obtain c where c: "run_store demo_store (dispatch_extract_and_validate plain_libs demo_insert (for_change_id 1) cache_default) =
      Inr (\<lparr>write_steps = [TWrite [BPut (column_key (str ''t'') 1 (str ''v'')) [7], next_id_put (str ''t'') 2]]\<rparr>, c)"
    using op_value_run [OF demo_insert_accepted] by blast
  have "ce_timestamp demo_insert = 0" "ce_sig_ref demo_insert = 0" "ce_parent_change demo_insert = 0" "ce_parent_clc demo_insert = 0"
    by (simp_all add: demo_insert_def default_entry_def)
  then show ?thesis
    using c by (simp add: replay_entry_def genesis_def chain_start_def demo_wire Let_def validate_timestamp_hwm_def flatten_write_steps_def h_init_def
        entry_bound_def tree_root_def subtree_root.simps)
qed


end
