(* ===== verification/Spec2Isabelle.thy ===== *)
theory Spec2Isabelle
  imports Prelude Tuple_Encoding Storage_Keys Mmr_Tree Time_Policy Access_Control Pruned_Tree
    Changelog_Entry Op_Monad Changelog Changelog_Sequence Fast_Forward Trace_Creation Ff_Prover
    Ops_Common Ops_Table Ops_Lists Ops_Members Ops_Action Ops_Frame Ops_Cache Ops_Logic Ops_Example Ops_Auth
    Ops_Footprint Ops_Gaps Ops_List_Spec Space_History
begin

text \<open>
  Verification of the storage, changelog and access-control core of encrypted-spaces.

  \<^bold>\<open>The program.\<close>  A space is a key-value store that a server keeps in an authenticated tree and that its
  members change through a signed, hash-linked changelog.  A change names an operation and key-value
  entries.  The operation's verifier reads the store through a reader, checks the change and returns the
  writes; the server runs it on the store, a client on a pruned tree whose root it knows, and the
  fast-forward guest, inside a zkVM, on a pruned tree for a whole chunk of changes.  The guest commits a
  journal that the next chunk extends, and a client accepts the receipt of the last chunk instead of
  replaying the log.

  \<^bold>\<open>Conventions.\<close>  Machine integers are words (\<open>u8\<close>, \<open>u32\<close>, \<open>u64\<close>; \<open>i64\<close> is read with \<open>sint\<close>), byte strings
  are lists of \<open>u8\<close>, and \<open>str\<close> embeds ASCII literals.  A \<open>Result\<close> is a sum with the error on the left; the
  error texts are dropped.  A panic is the error \<open>Panic\<close>, or \<^const>\<open>None\<close> in a function that returns no
  \<open>Result\<close>.  A \<open>BTreeMap\<close> is an association list sorted by key.  Plain additions wrap, as in the release
  profile.  Code outside the repository is a parameter with its documented laws as hypotheses: SHA-256, the
  hashes and the batch walker of merk (records \<open>libs\<close>, laws \<open>merkle_law\<close> and \<open>walker_law\<close>), postcard and the
  numbers of \<open>serde_json\<close> (record \<open>op_libs\<close>, law \<open>stores_integers\<close>), the pest parser, and the zkVM
  (\<open>zkvm_law\<close>).  \<open>plain_libs\<close>, \<open>small_libs\<close> and \<open>flat_libs\<close> are the concrete instances of the witnesses.

  \<^bold>\<open>Theories and sources.\<close>

  \<^item> \<open>Prelude\<close>: machine types, results, big-endian integers, lexicographic order of byte strings, UTF-8.
  \<^item> \<open>Tuple_Encoding\<close> (\<open>backend/storage-encoding/src/tuple.rs\<close>): the order-preserving tuple codec, as an
    interpretation of the locale \<open>ordered_codec\<close>; round trip and order in both directions.
  \<^item> \<open>Storage_Keys\<close> (\<open>keys.rs\<close>, \<open>id_validation.rs\<close>, \<open>lib.rs\<close> beside it): all key builders and parsers;
    injectivity over all kinds of keys, round trips, agreement of the two parsers of column keys, what
    prefix scans select.
  \<^item> \<open>Mmr_Tree\<close> (\<open>ffproof/changelog_core/src/mmr_tree.rs\<close>): writer, tree heads, proof cache, prover and
    verifier against the recursive root of RFC 6962; the locale \<open>leaf_accumulator\<close> is interpreted for the
    writer and for the cache.
  \<^item> \<open>Time_Policy\<close> (\<open>time.rs\<close>) and \<open>Access_Control\<close> (\<open>backend/acl-types/src\<close>): timestamp checks; rules, their
    evaluation against Boolean and three-valued readings, and the construction of rules from parse trees.
  \<^item> \<open>Pruned_Tree\<close> (\<open>ffproof/tracer/shared/src\<close>) and \<open>Trace_Creation\<close> (\<open>ffproof/tracer/src\<close>): reads and batches
    on authenticated trees, pruned trees and their compact form, soundness of verified traces, and that
    the recorded trees answer the recorded reads.  The read walks of the recorder are
    \<open>partial_function\<close>s; \<open>tracing_returns\<close> shows that they return on every complete search tree.
  \<^item> \<open>Changelog_Entry\<close>, \<open>Op_Monad\<close>, \<open>Changelog\<close>, \<open>Changelog_Sequence\<close> (\<open>ffproof/changelog_core/src/changelog.rs\<close>):
    entries and their decoder, programs that ask a reader (the locale \<open>op_reader\<close> is interpreted for
    pruned trees and for stores), the changelog as a state machine with its reachable states, and the
    verification of one change and of a sequence against replay on the store.
  \<^item> \<open>Fast_Forward\<close> (\<open>ffproof/methods/guest/src/bin/extend_ff.rs\<close>, \<open>ffproof/src/verifier.rs\<close>) and \<open>Ff_Prover\<close>
    (\<open>ffproof/src/prover.rs\<close>): the guest, chains of guest runs, the client's check, and the extraction of the
    guest's input through a write overlay.
  \<^item> \<open>Ops_Common\<close>, \<open>Ops_Table\<close>, \<open>Ops_Lists\<close>, \<open>Ops_Members\<close>, \<open>Ops_Action\<close> (\<open>ffproof/changelog_core/src/ops\<close>): every
    operation as one program, check by check in the order of the code, and the dispatch.
  \<^item> \<open>Ops_Frame\<close>, \<open>Ops_Cache\<close>, \<open>Ops_Logic\<close>: postconditions of the operations over all readers, the
    transparency of the metadata cache (the locale \<open>cached_map\<close> is interpreted for each of its seven maps),
    and a logic of accepted operations on a store.
  \<^item> \<open>Ops_Auth\<close>, \<open>Ops_Footprint\<close>, \<open>Ops_List_Spec\<close>: who may make a change, which tables it can alter, and the
    refinement of the list operations to sequences (\<open>list_step\<close>, \<open>lists_inv\<close>).
  \<^item> \<open>Space_History\<close>: what the guest replays is a history of authorized steps; \<open>Ops_Example\<close>: a small space
    for the witnesses; \<open>Ops_Gaps\<close>: changes on which the code and its intention differ.

  \<^bold>\<open>Bounds.\<close>  Tree sizes and change identifiers stay below \<open>2 ^ 32\<close>, where the code refuses to go on; the
  theorems carry this bound or derive it from an accepted run.  Loops over entries are recursion over
  lists and need no fuel.

  \<^bold>\<open>Not modelled.\<close>  The client library, the server, transports, the protobuf layer, cryptography, key
  management, the zero-knowledge proofs of key transitions, schema documents and the generation of merk
  proofs: input and output, or thin layers over third-party code.  Memory exhaustion, log output, debug
  assertions and the texts of errors are left out.  \<open>apply_batch\<close> has the shape of the host branch, which
  applies a batch by copying; the zkVM branch applies it in place and returns nothing for an empty tree.
  The theorems about the guest take merk's walker to obey \<open>walker_law\<close> in both forms.
\<close>

section \<open>From an accepted proof to an authorized history\<close>

text \<open>
  The client's check, the guest and the operations together.  A fast-forward proof that a client accepts
  stands for a history of the space from the initial store to a store with the proved root: as many
  changes as the proof says, each made by a user entitled to it at its time, with the schema and the
  access rules of the initial store -- or a run of the guest was told to extend a foreign receipt.
\<close>

theorem accepted_proof_history:
  assumes "merkle_law node_hash (rooth L)" and "walker_law (kvh L) (rooth L) (walker L)"
    and "zkvm_law L (dispatch_extract_and_validate OL) decode_range receipt_verify journal_decode image_id inputs"
    and store: "store_ok (kvh L) (Some t)" "rooth L t = vo_start_dc out"
    and "inputs_free L (dispatch_extract_and_validate OL) node_hash t inputs"
    and "verify_ff deserialize receipt_verify journal_decode proof_bytes image_id = Inr out"
  shows "(\<exists>es t'. length es = unat (vo_end_change_id out) \<and> space_run OL 1 es (entries t) (entries t') \<and> rooth L t' = vo_end_dc out \<and>
      (\<forall>i < length es. \<exists>mid. space_run OL 1 (take i es) (entries t) mid \<and> entitled OL mid (es ! i)) \<and>
      (\<forall>k. static_key k \<longrightarrow> map_of (entries t') k = map_of (entries t) k)) \<or>
    foreign_extension receipt_verify journal_decode image_id inputs (vo_start_dc out) (unat (vo_end_change_id out))"
  using accepted_proof_replays [OF assms]
proof
  assume "\<exists>chunks c t'. replay_chunks L (dispatch_extract_and_validate OL) chunks (genesis L (vo_start_dc out) (entries t)) = Some c \<and>
    length (concat chunks) = unat (vo_end_change_id out) \<and> vo_end_clc_state out = the_head (sha256 L) (cn_leaves c) \<and>
    store_ok (kvh L) (Some t') \<and> entries t' = cn_store c \<and> rooth L t' = vo_end_dc out \<and>
    vo_sigref_map out = cn_sigrefs c \<and> vo_timestamp_hwm out = cn_hwm c"
  then obtain chunks c t' where c: "replay_chunks L (dispatch_extract_and_validate OL) chunks (genesis L (vo_start_dc out) (entries t)) = Some c"
    and len: "length (concat chunks) = unat (vo_end_change_id out)" and t': "entries t' = cn_store c" "rooth L t' = vo_end_dc out"
    by blast
  have start: "cn_store (genesis L (vo_start_dc out) (entries t)) = entries t" "length (cn_leaves (genesis L (vo_start_dc out) (entries t))) = 1"
    by (simp_all add: genesis_def chain_start_def)
  then have "sorted_map (cn_store (genesis L (vo_start_dc out) (entries t)))"
    using store(1) by (simp add: store_ok_def search_tree_def)
  from replayed_history [OF this c, unfolded start t'(1) [symmetric]] obtain es where
      es: "map (from_bytes_for_verification (usize_max L)) (concat chunks) = map Inr es"
      and hist: "space_run OL 1 es (entries t) (entries t')"
        "\<forall>i < length es. \<exists>mid. space_run OL 1 (take i es) (entries t) mid \<and> entitled OL mid (es ! i)"
        "\<forall>k. static_key k \<longrightarrow> map_of (entries t') k = map_of (entries t) k"
    by blast
  have "length es = unat (vo_end_change_id out)"
    using arg_cong [OF es, of length] len by simp
  then show ?thesis
    using hist t'(2) by blast
qed simp

end
